(* ===== verification/FimPrelude.thy ===== *)
theory FimPrelude
  imports Main "HOL-Library.Word" "HOL-Library.Multiset" "HOL-Library.AList"
begin

unbundle bit_operations_syntax

text \<open>
  What every theory of the development shares: the machine types of the Go code, its
  errors and panics as values, the atomic compare-and-swap its state machines are built
  on, association lists for Go maps, and a generic notion of reachable state with the
  interface of an invariant.
\<close>

section \<open>Collections of rules\<close>

named_theorems go_simps \<open>unfolding rules of the small helpers of the model\<close>
named_theorems go_splits \<open>characterisations that split an operation into its branches\<close>

section \<open>Machine types\<close>

type_synonym byte = "8 word"
type_synonym u16 = "16 word"
type_synonym u32 = "32 word"
type_synonym u64 = "64 word"
type_synonym i32 = "32 word" \<comment> \<open>an int32, read with \<open>sint\<close> where the code compares it\<close>

section \<open>Errors and panics\<close>

text \<open>
  One constructor for every error value the code names, plus the errors of the standard
  library it tests for, \<open>Errorf\<close> for \<^verbatim>\<open>fmt.Errorf\<close>, and one constructor per third-party
  package whose errors are only passed on.
\<close>

datatype go_error =
    EOF | ErrUnexpectedEOF | ErrIO
  | ErrSyntax | ErrRange
  | ErrKsuid | ErrProto | ErrVersion | ErrUpgrade
  | ErrPIDNoFound | ErrSIDLengthWrong
  | ErrPeerIsClosed | ErrPeerIsOpened
  | ErrClientIsClosed | ErrClientIsStarted
  | ErrHubClosed | ErrHubStarted
  | ErrLgClosed | ErrLgStarted
  | ErrTokenInvalid | ErrMaxClientLimit
  | Errorf string

text \<open>The \<^verbatim>\<open>Error()\<close> text of the errors whose text the code writes to a peer.\<close>

fun err_text :: "go_error \<Rightarrow> string" where
  "err_text ErrTokenInvalid = ''invalid parameter token''"
| "err_text ErrMaxClientLimit = ''over max clients''"
| "err_text ErrPeerIsClosed = ''connection is closed''"
| "err_text ErrPeerIsOpened = ''connection is opened''"
| "err_text ErrClientIsClosed = ''connection is closed''"
| "err_text ErrClientIsStarted = ''connection is started''"
| "err_text ErrHubClosed = ''err: hub is closed''"
| "err_text ErrHubStarted = ''err: hub is Started''"
| "err_text ErrLgClosed = ''err: lg is closed''"
| "err_text ErrLgStarted = ''err: lg is Started''"
| "err_text ErrPIDNoFound = ''protocolID no found''"
| "err_text ErrSIDLengthWrong = ''SID length is wrong. 8bytes''"
| "err_text EOF = ''EOF''"
| "err_text ErrUnexpectedEOF = ''unexpected EOF''"
| "err_text (Errorf s) = s"
| "err_text _ = []"

text \<open>The ways a Go statement of this code can panic.\<close>

datatype panic =
    NilDeref | NilMapWrite | NilFuncCall | IndexOutOfRange | SliceOutOfRange | BadTypeAssertion | CloseOfClosedChannel
  | ExplicitPanic \<comment> \<open>a call of \<^verbatim>\<open>panic\<close>, in this code or in a package it calls\<close>

datatype 'a outcome = Ret 'a | Panic panic

fun obind :: "'a outcome \<Rightarrow> ('a \<Rightarrow> 'b outcome) \<Rightarrow> 'b outcome" where
  "obind (Ret x) f = f x"
| "obind (Panic p) f = Panic p"

lemma obind_Ret [simp]: "obind m Ret = m"
  by (cases m) simp_all

lemma obind_cong [fundef_cong]:
  "m = m' \<Longrightarrow> (\<And>x. m' = Ret x \<Longrightarrow> f x = g x) \<Longrightarrow> obind m f = obind m' g"
  by (cases m') simp_all

lemma obind_eq_Ret [go_splits]: "obind m f = Ret y \<longleftrightarrow> (\<exists>x. m = Ret x \<and> f x = Ret y)"
  by (cases m) auto

lemma obind_assoc: "obind (obind m f) g = obind m (\<lambda>x. obind (f x) g)"
  by (cases m) simp_all

section \<open>Compare-and-swap\<close>

text \<open>\<^verbatim>\<open>atomic.CompareAndSwapInt32(&s, old, new)\<close>: whether it swapped, and the cell after it.\<close>

definition cas :: "'a \<Rightarrow> 'a \<Rightarrow> 'a \<Rightarrow> bool \<times> 'a" where
  "cas cur old new = (if cur = old then (True, new) else (False, cur))"

lemma cas_simps [simp]:
  "cas old old new = (True, new)"
  "cur \<noteq> old \<Longrightarrow> cas cur old new = (False, cur)"
  by (simp_all add: cas_def)

lemma fst_cas [simp]: "fst (cas cur old new) \<longleftrightarrow> cur = old"
  by (simp add: cas_def)

lemma snd_cas [simp]: "snd (cas cur old new) = (if cur = old then new else cur)"
  by (simp add: cas_def)

section \<open>Go maps\<close>

text \<open>
  A Go map is an association list with distinct keys. The order in which \<^verbatim>\<open>range\<close> visits
  it is not specified by the language: wherever the code depends on it, the order is an
  argument of the model, and \<open>range_order\<close> says what the language promises about it.
\<close>

type_synonym ('k, 'v) gomap = "('k \<times> 'v) list"

definition keys :: "('k, 'v) gomap \<Rightarrow> 'k list" where
  "keys m = map fst m"

definition wf_map :: "('k, 'v) gomap \<Rightarrow> bool" where
  "wf_map m \<longleftrightarrow> distinct (keys m)"

definition range_order :: "'k list \<Rightarrow> ('k, 'v) gomap \<Rightarrow> bool" where
  "range_order ord m \<longleftrightarrow> mset ord = mset (keys m)"

lemma keys_simps [simp]: "keys [] = []" "keys ((k, v) # m) = k # keys m"
  by (simp_all add: keys_def)

lemma length_keys [simp]: "length (keys m) = length m"
  by (simp add: keys_def)

lemma keys_eq_Nil [simp]: "keys m = [] \<longleftrightarrow> m = []"
  by (simp add: keys_def)

lemma set_keys: "set (keys m) = dom (map_of m)"
  by (simp add: keys_def dom_map_of_conv_image_fst)

lemma in_keys: "k \<in> set (keys m) \<longleftrightarrow> (\<exists>v. map_of m k = Some v)"
  by (auto simp: set_keys dom_def)

lemma map_of_eq_None_keys: "map_of m k = None \<longleftrightarrow> k \<notin> set (keys m)"
  by (auto simp: in_keys)

lemma wf_map_Nil [simp, intro]: "wf_map []"
  by (simp add: wf_map_def)

lemma wf_map_update [simp, intro]: "wf_map m \<Longrightarrow> wf_map (AList.update k v m)"
  by (simp add: wf_map_def keys_def distinct_update)

lemma wf_map_delete [simp, intro]: "wf_map m \<Longrightarrow> wf_map (AList.delete k m)"
  by (simp add: wf_map_def keys_def distinct_delete)

lemma map_of_update [simp]: "map_of (AList.update k v m) = (map_of m)(k \<mapsto> v)"
  by (rule ext) (simp add: update_conv')

lemma map_of_delete [simp]: "map_of (AList.delete k m) = (map_of m)(k := None)"
  by (rule ext) (simp add: delete_conv')

lemma set_keys_update [simp]: "set (keys (AList.update k v m)) = insert k (set (keys m))"
  by (simp add: set_keys)

lemma set_keys_delete [simp]: "set (keys (AList.delete k m)) = set (keys m) - {k}"
  by (auto simp: set_keys)

lemma keys_update_old: "map_of m k = Some w \<Longrightarrow> keys (AList.update k v m) = keys m"
  by (induction m) (auto split: if_splits)

lemma length_update_new: "map_of m k = None \<Longrightarrow> length (AList.update k v m) = Suc (length m)"
  by (induction m) (auto split: if_splits)

lemma length_update_old: "map_of m k = Some w \<Longrightarrow> length (AList.update k v m) = length m"
  by (induction m) (auto split: if_splits)

lemma length_delete_absent: "map_of m k = None \<Longrightarrow> AList.delete k m = m"
  by (simp add: delete_idem map_of_eq_None_keys keys_def)

lemma length_delete_present:
  "wf_map m \<Longrightarrow> map_of m k = Some v \<Longrightarrow> Suc (length (AList.delete k m)) = length m"
proof (induction m)
  case Nil
  then show ?case by simp
next
  case (Cons a m)
  obtain k' v' where a: "a = (k', v')" by (cases a)
  show ?case
  proof (cases "k' = k")
    case True
    with Cons.prems(1) a have "k \<notin> set (keys m)" by (simp add: wf_map_def)
    then have "AList.delete k m = m" by (simp add: length_delete_absent map_of_eq_None_keys)
    with a True show ?thesis by simp
  next
    case False
    with Cons a show ?thesis by (simp add: wf_map_def)
  qed
qed

lemma range_orderD:
  assumes "range_order ord m"
  shows "set ord = set (keys m)" and "length ord = length m"
    and "wf_map m \<Longrightarrow> distinct ord"
proof -
  have m: "mset ord = mset (keys m)" using assms by (simp add: range_order_def)
  show "set ord = set (keys m)" using m by (rule mset_eq_setD)
  show "length ord = length m" using mset_eq_length [OF m] by simp
  show "wf_map m \<Longrightarrow> distinct ord" using mset_eq_imp_distinct_iff [OF m] by (simp add: wf_map_def)
qed

lemma range_order_keys [simp, intro]: "range_order (keys m) m"
  by (simp add: range_order_def)

section \<open>Lists\<close>

lemma append_cases [consumes 1, case_names short long]:
  assumes "bs @ zs = a @ b"
  obtains (short) x xs where "a = bs @ x # xs" | (long) bs' where "bs = a @ bs'" "bs' @ zs = b"
  using assms by (auto simp: append_eq_append_conv2) (metis append_Nil2 list.exhaust)

section \<open>Reachable states\<close>

text \<open>
  The states a step relation reaches from an initial state, and the interface of an
  inductive invariant: each component with concurrent steps instantiates it once and
  reads its safety facts off \<open>reachable_inv\<close>.
\<close>

inductive reachable :: "'s \<Rightarrow> ('s \<Rightarrow> 's \<Rightarrow> bool) \<Rightarrow> 's \<Rightarrow> bool"
  for init :: 's and step :: "'s \<Rightarrow> 's \<Rightarrow> bool" where
  reach_init [intro]: "reachable init step init"
| reach_step: "reachable init step s \<Longrightarrow> step s t \<Longrightarrow> reachable init step t"

lemma reachable_induct:
  assumes "reachable init step s" and "Q init" and "\<And>s t. Q s \<Longrightarrow> step s t \<Longrightarrow> Q t"
  shows "Q s"
  using assms by (induction rule: reachable.induct) blast+

lemma reachable_from_step:
  assumes "reachable t step u" and "step s t"
  shows "reachable s step u"
  using assms
proof (induction rule: reachable.induct)
  case reach_init
  then show ?case by (rule reach_step [OF reachable.reach_init])
next
  case (reach_step u v)
  then show ?case by (blast intro: reachable.reach_step)
qed

locale invariant_system =
  fixes init :: 's
    and step :: "'s \<Rightarrow> 's \<Rightarrow> bool"
    and inv :: "'s \<Rightarrow> bool"
  assumes inv_init: "inv init"
    and inv_step: "inv s \<Longrightarrow> step s t \<Longrightarrow> inv t"
begin

lemma reachable_inv: "reachable init step s \<Longrightarrow> inv s"
  by (induction rule: reachable.induct) (auto intro: inv_init inv_step)

lemma reachable_post:
  assumes "reachable init step s" and "\<And>u. inv u \<Longrightarrow> P u"
  shows "P s"
  using assms reachable_inv by blast

end

text \<open>
  Refinement: a mediator function maps every state the concrete system can be in to a state of
  the abstract one, so that each concrete step is an abstract step or leaves the abstract state alone.
\<close>

locale simulation = invariant_system +
  fixes abs_of :: "'a \<Rightarrow> 'b"
    and abs_init :: 'b
    and abs_step :: "'b \<Rightarrow> 'b \<Rightarrow> bool"
  assumes abs_of_init: "abs_of init = abs_init"
    and abs_of_step: "inv s \<Longrightarrow> step s t \<Longrightarrow> abs_of s = abs_of t \<or> abs_step (abs_of s) (abs_of t)"
begin

lemma refines: "reachable init step s \<Longrightarrow> reachable abs_init abs_step (abs_of s)"
proof (induction rule: reachable.induct)
  case reach_init
  show ?case unfolding abs_of_init by (rule reachable.reach_init)
next
  case (reach_step s t)
  from abs_of_step [OF reachable_inv [OF reach_step.hyps(1)] reach_step.hyps(2)] show ?case
    using reach_step.IH by (auto intro: reachable.reach_step)
qed

lemma abs_invariant:
  assumes "reachable init step s" and "Q abs_init" and "\<And>a b. Q a \<Longrightarrow> abs_step a b \<Longrightarrow> Q b"
  shows "Q (abs_of s)"
  using refines [OF assms(1)] assms(2,3) by (rule reachable_induct)

end

section \<open>Runs that end\<close>

text \<open>
  The states of a run after its first. A system drains when every step it does by itself takes something off its
  load, and it is only at rest when nothing is left to do: then every run is short, and stops at rest only.
\<close>

fun run :: "('s \<Rightarrow> 's \<Rightarrow> bool) \<Rightarrow> 's \<Rightarrow> 's list \<Rightarrow> bool" where
  "run step s [] \<longleftrightarrow> True"
| "run step s (t # ts) \<longleftrightarrow> step s t \<and> run step t ts"

lemma run_append: "run step s (ts @ us) \<longleftrightarrow> run step s ts \<and> run step (last (s # ts)) us"
  by (induction ts arbitrary: s) auto

lemma last_Cons_Cons: "last (s # t # ts) = last (t # ts)"
  by simp

lemma run_reachable: "run step s ts \<Longrightarrow> reachable s step (last (s # ts))"
proof (induction ts arbitrary: s)
  case (Cons t ts)
  then show ?case unfolding last_Cons_Cons by (intro reachable_from_step [OF Cons.IH]) simp_all
qed auto

locale draining_system =
  fixes work :: "'s \<Rightarrow> 's \<Rightarrow> bool"
    and good :: "'s \<Rightarrow> bool"
    and load :: "'s \<Rightarrow> nat"
    and rest :: "'s \<Rightarrow> bool"
  assumes work_good: "good s \<Longrightarrow> work s t \<Longrightarrow> good t"
    and work_less: "good s \<Longrightarrow> work s t \<Longrightarrow> load t < load s"
    and work_enabled: "good s \<Longrightarrow> \<not> rest s \<Longrightarrow> \<exists>t. work s t"
begin

lemma run_good: "good s \<Longrightarrow> run work s ts \<Longrightarrow> good (last (s # ts))"
proof (induction ts arbitrary: s)
  case (Cons t ts)
  then show ?case unfolding last_Cons_Cons by (auto dest: work_good)
qed simp

lemma run_load: "good s \<Longrightarrow> run work s ts \<Longrightarrow> length ts + load (last (s # ts)) \<le> load s"
proof (induction ts arbitrary: s)
  case (Cons t ts)
  then have "work s t" "run work t ts" by simp_all
  with Cons.IH [of t] Cons.prems work_good [of s t] work_less [of s t]
  show ?case unfolding last_Cons_Cons by simp
qed simp

lemma run_to_rest: "good s \<Longrightarrow> \<exists>ts. run work s ts \<and> rest (last (s # ts))"
proof (induction "load s" arbitrary: s rule: less_induct)
  case less
  show ?case
  proof (cases "rest s")
    case True
    then show ?thesis by (intro exI [of _ "[]"]) simp
  next
    case False
    with work_enabled [OF less.prems] obtain t where t: "work s t" by blast
    with less work_good work_less obtain ts where "run work t ts" "rest (last (t # ts))" by blast
    with t show ?thesis by (intro exI [of _ "t # ts"]) simp
  qed
qed

text \<open>However the system has run, it has done so in a bounded number of steps, can go on to rest, and cannot stop before.\<close>

lemma runs_drain:
  assumes "good s" and "run work s ts"
  shows "length ts \<le> load s" and "\<exists>us. run work s (ts @ us) \<and> rest (last (s # ts @ us))"
    and "(\<forall>t. \<not> work (last (s # ts)) t) \<Longrightarrow> rest (last (s # ts))"
proof -
  note last = run_good [OF assms]
  show "length ts \<le> load s" using run_load [OF assms] by simp
  from run_to_rest [OF last] obtain us where us: "run work (last (s # ts)) us" "rest (last (last (s # ts) # us))" by blast
  moreover have "last (last (s # ts) # us) = last (s # ts @ us)" by (cases us) simp_all
  ultimately show "\<exists>us. run work s (ts @ us) \<and> rest (last (s # ts @ us))"
    using assms(2) by (intro exI [of _ us]) (simp add: run_append del: last.simps)
  show "(\<forall>t. \<not> work (last (s # ts)) t) \<Longrightarrow> rest (last (s # ts))" using work_enabled [OF last] by blast
qed

end

text \<open>A system that computes: what it will have when it comes to rest does not change while it runs.\<close>

locale computing_system = draining_system work good load rest
  for work :: "'s \<Rightarrow> 's \<Rightarrow> bool" and good :: "'s \<Rightarrow> bool" and load :: "'s \<Rightarrow> nat" and rest :: "'s \<Rightarrow> bool" +
  fixes outlook :: "'s \<Rightarrow> 'r"
  assumes outlook_kept: "good s \<Longrightarrow> work s t \<Longrightarrow> outlook t = outlook s"
begin

lemma run_outlook: "good s \<Longrightarrow> run work s ts \<Longrightarrow> outlook (last (s # ts)) = outlook s"
proof (induction ts arbitrary: s)
  case (Cons t ts)
  then have "work s t" "run work t ts" by simp_all
  with Cons.IH [of t] Cons.prems(1) work_good outlook_kept show ?case unfolding last_Cons_Cons by simp
qed simp

end

section \<open>The lifecycle shared by the long-lived objects\<close>

text \<open>
  A websocket client, a gateway and a logic server carry the same three-valued state and
  move it with compare-and-swap only: closed to started, started to closing, closing to
  closed; a tcp peer has one more state between the first two. \<open>start\<close> and \<open>stop\<close> are their
  \<^verbatim>\<open>Start\<close> and \<^verbatim>\<open>Close\<close>/\<^verbatim>\<open>Shutdown\<close>, run without interference.
\<close>

datatype lifecycle = Closed | Started | Closing

locale guarded_lifecycle =
  fixes state_of :: "'s \<Rightarrow> 'st"
    and closed :: 'st
    and started :: 'st
    and start :: "'s \<Rightarrow> go_error option \<times> 's"
    and stop :: "'s \<Rightarrow> go_error option \<times> 's"
    and startable :: "'s \<Rightarrow> bool"
    and stoppable :: "'s \<Rightarrow> bool"
    and err_started :: go_error
  assumes distinct_states: "closed \<noteq> started"
    and start_ok: "startable s \<Longrightarrow> state_of s = closed \<Longrightarrow> fst (start s) = None \<and> state_of (snd (start s)) = started"
    and start_refused: "state_of s \<noteq> closed \<Longrightarrow> start s = (Some err_started, s)"
    and stop_ok: "stoppable s \<Longrightarrow> state_of s = started \<Longrightarrow> state_of (snd (stop s)) = closed"
    and stop_refused: "state_of s \<noteq> started \<Longrightarrow> snd (stop s) = s"
begin

lemma start_twice:
  assumes "startable s" and "fst (start s) = None"
  shows "start (snd (start s)) = (Some err_started, snd (start s))"
proof -
  have "state_of s = closed" using assms start_refused [of s] by (cases "state_of s = closed") auto
  then show ?thesis using start_ok [OF assms(1)] start_refused distinct_states by metis
qed

lemma stop_twice:
  assumes "stoppable s" and "state_of s = started"
  shows "snd (stop (snd (stop s))) = snd (stop s)"
  using stop_ok [OF assms] stop_refused [of "snd (stop s)"] distinct_states by simp

lemma stop_then_start:
  assumes "stoppable s" and "state_of s = started" and "startable (snd (stop s))"
  shows "fst (start (snd (stop s))) = None"
  using stop_ok [OF assms(1,2)] start_ok [OF assms(3)] by blast

lemma start_iff: "startable s \<Longrightarrow> fst (start s) = None \<longleftrightarrow> state_of s = closed"
  using start_ok [of s] start_refused [of s] by (cases "state_of s = closed") auto

end

section \<open>Bounded channels\<close>

text \<open>
  A buffered channel behind a \<^verbatim>\<open>Send\<close> method: a value goes to the end while there is room, and the sender waits
  (\<open>None\<close>) when there is none. \<open>content\<close> is what nobody has taken yet.
\<close>

fun send_list :: "('a \<Rightarrow> 's \<Rightarrow> (go_error option \<times> 's) option) \<Rightarrow> 'a list \<Rightarrow> 's \<Rightarrow> 's option" where
  "send_list send [] s = Some s"
| "send_list send (x # xs) s = (case send x s of None \<Rightarrow> None | Some (_, s') \<Rightarrow> send_list send xs s')"

locale bounded_channel =
  fixes send :: "'a \<Rightarrow> 's \<Rightarrow> (go_error option \<times> 's) option"
    and content :: "'s \<Rightarrow> 'a list"
    and capacity :: nat
  assumes send_room: "length (content s) < capacity \<Longrightarrow> \<exists>s'. send x s = Some (None, s') \<and> content s' = content s @ [x]"
    and send_full: "capacity \<le> length (content s) \<Longrightarrow> send x s = None"
begin

lemma send_SomeD:
  assumes "send x s = Some (e, s')"
  shows "e = None \<and> content s' = content s @ [x] \<and> length (content s) < capacity"
proof (cases "length (content s) < capacity")
  case True
  from send_room [OF this, of x] assms show ?thesis using True by auto
next
  case False
  with send_full [of s x] assms show ?thesis by simp
qed

lemma send_list_content: "send_list send xs s = Some s' \<Longrightarrow> content s' = content s @ xs"
  by (induction xs arbitrary: s) (auto split: option.splits dest: send_SomeD)

text \<open>The senders get through exactly when everything they send fits into the room there is.\<close>

lemma send_list_fits:
  "length (content s) \<le> capacity \<Longrightarrow> send_list send xs s \<noteq> None \<longleftrightarrow> length (content s) + length xs \<le> capacity"
proof (induction xs arbitrary: s)
  case (Cons x xs)
  show ?case
  proof (cases "length (content s) < capacity")
    case True
    from send_room [OF this, of x] obtain s' where "send x s = Some (None, s')" "content s' = content s @ [x]" by blast
    with Cons.IH [of s'] True show ?thesis by simp
  next
    case False
    with send_full [of s x] Cons.prems show ?thesis by simp
  qed
qed simp

end

end
