(* ===== verification/GatewayQueue.thy ===== *)
theory GatewayQueue
  imports FimPrelude
begin

text \<open>
  The packet queue of a gateway, \<^verbatim>\<open>packetPushEnqueueHandler\<close> and \<^verbatim>\<open>packetPushDequeueHandler\<close> of
  \<^verbatim>\<open>gateway/wss/hub.go\<close>: two goroutines and three channels of capacity one. Packets are of any type;
  \<open>bad\<close> is the test the second goroutine makes of a packet.
\<close>

section \<open>The two goroutines\<close>

text \<open>
  \<open>q_hand\<close> is the packet the first goroutine is sending to \<^verbatim>\<open>dequeue\<close>, \<open>q_busy\<close> the one the second
  is handling; \<open>q_accepted\<close> and \<open>q_done\<close> are the packets put in and handled so far.
\<close>

record 'p packet_queue =
  q_enqueue :: "'p list"
  q_dequeue :: "'p list"
  q_next :: nat
  q_pending :: "'p list"
  q_waiting :: bool
  q_hand :: "'p option"
  q_busy :: "'p option"
  q_accepted :: "'p list"
  q_done :: "'p list"

definition queue_init :: "'p packet_queue" where
  "queue_init = \<lparr>q_enqueue = [], q_dequeue = [], q_next = 0, q_pending = [], q_waiting = False,
     q_hand = None, q_busy = None, q_accepted = [], q_done = []\<rparr>"

inductive queue_internal :: "('p \<Rightarrow> bool) \<Rightarrow> 'p packet_queue \<Rightarrow> 'p packet_queue \<Rightarrow> bool" for bad :: "'p \<Rightarrow> bool" where
  take_idle: "q_hand q = None \<Longrightarrow> q_enqueue q = p # ps \<Longrightarrow> \<not> q_waiting q \<Longrightarrow>
    queue_internal bad q (q\<lparr>q_enqueue := ps, q_hand := Some p, q_waiting := True\<rparr>)"
| take_waiting: "q_hand q = None \<Longrightarrow> q_enqueue q = p # ps \<Longrightarrow> q_waiting q \<Longrightarrow>
    queue_internal bad q (q\<lparr>q_enqueue := ps, q_pending := q_pending q @ [p]\<rparr>)"
| next_none: "q_hand q = None \<Longrightarrow> 0 < q_next q \<Longrightarrow> q_pending q = [] \<Longrightarrow>
    queue_internal bad q (q\<lparr>q_next := q_next q - 1, q_waiting := False\<rparr>)"
| next_some: "q_hand q = None \<Longrightarrow> 0 < q_next q \<Longrightarrow> q_pending q = p # ps \<Longrightarrow>
    queue_internal bad q (q\<lparr>q_next := q_next q - 1, q_pending := ps, q_hand := Some p\<rparr>)"
| deliver: "q_hand q = Some p \<Longrightarrow> length (q_dequeue q) < 1 \<Longrightarrow>
    queue_internal bad q (q\<lparr>q_hand := None, q_dequeue := q_dequeue q @ [p]\<rparr>)"
| fetch_bad: "q_busy q = None \<Longrightarrow> q_dequeue q = p # ps \<Longrightarrow> bad p \<Longrightarrow>
    queue_internal bad q (q\<lparr>q_dequeue := ps\<rparr>)"
| fetch_good: "q_busy q = None \<Longrightarrow> q_dequeue q = p # ps \<Longrightarrow> \<not> bad p \<Longrightarrow>
    queue_internal bad q (q\<lparr>q_dequeue := ps, q_busy := Some p\<rparr>)"
| finish: "q_busy q = Some p \<Longrightarrow> q_next q < 1 \<Longrightarrow>
    queue_internal bad q (q\<lparr>q_busy := None, q_done := q_done q @ [p], q_next := q_next q + 1\<rparr>)"

text \<open>A producer, \<^verbatim>\<open>Push\<close> or \<^verbatim>\<open>handleSeverEvents\<close>, puts a packet in when there is room.\<close>

inductive queue_step :: "('p \<Rightarrow> bool) \<Rightarrow> 'p packet_queue \<Rightarrow> 'p packet_queue \<Rightarrow> bool" for bad :: "'p \<Rightarrow> bool" where
  put: "length (q_enqueue q) < 1 \<Longrightarrow>
    queue_step bad q (q\<lparr>q_enqueue := q_enqueue q @ [p], q_accepted := q_accepted q @ [p]\<rparr>)"
| internal: "queue_internal bad q q' \<Longrightarrow> queue_step bad q q'"

section \<open>Invariant\<close>

definition opt_list :: "'a option \<Rightarrow> 'a list" where
  "opt_list x = (case x of None \<Rightarrow> [] | Some a \<Rightarrow> [a])"

lemma opt_list_simps [simp]: "opt_list None = []" "opt_list (Some a) = [a]"
  by (simp_all add: opt_list_def)

text \<open>
  As long as no bad packet came, there is exactly one token while the first goroutine waits: the
  packet it sends, the packet in \<^verbatim>\<open>dequeue\<close>, the packet being handled, or the signal in \<^verbatim>\<open>next\<close>.
\<close>

definition tokens :: "'p packet_queue \<Rightarrow> nat" where
  "tokens q = length (opt_list (q_hand q)) + length (q_dequeue q) + length (opt_list (q_busy q)) + q_next q"

definition in_order :: "'p packet_queue \<Rightarrow> 'p list" where
  "in_order q = q_done q @ opt_list (q_busy q) @ q_dequeue q @ opt_list (q_hand q) @ q_pending q @ q_enqueue q"

definition queue_inv :: "('p \<Rightarrow> bool) \<Rightarrow> 'p packet_queue \<Rightarrow> bool" where
  "queue_inv bad q \<longleftrightarrow>
     (list_all (\<lambda>p. \<not> bad p) (q_accepted q) \<longrightarrow>
        in_order q = q_accepted q \<and> tokens q = (if q_waiting q then 1 else 0) \<and>
        (\<not> q_waiting q \<longrightarrow> q_pending q = []))"

text \<open>Where the one token is, nothing else is.\<close>

lemma token_at:
  assumes "tokens q = 1"
  shows "q_hand q = Some p \<Longrightarrow> q_dequeue q = [] \<and> q_busy q = None \<and> q_next q = 0"
    and "q_dequeue q = d # ds \<Longrightarrow> ds = [] \<and> q_hand q = None \<and> q_busy q = None \<and> q_next q = 0"
    and "q_busy q = Some b \<Longrightarrow> q_hand q = None \<and> q_dequeue q = [] \<and> q_next q = 0"
    and "0 < q_next q \<Longrightarrow> q_next q = 1 \<and> q_hand q = None \<and> q_dequeue q = [] \<and> q_busy q = None"
    and "q_hand q = None \<Longrightarrow> q_dequeue q = [] \<Longrightarrow> q_busy q = None \<Longrightarrow> 0 < q_next q"
  using assms by (cases "q_dequeue q"; auto simp: tokens_def opt_list_def split: option.splits)+

lemma tokens_zero: "tokens q = 0 \<longleftrightarrow> q_hand q = None \<and> q_dequeue q = [] \<and> q_busy q = None \<and> q_next q = 0"
  by (cases "q_hand q"; cases "q_busy q") (auto simp: tokens_def)

lemma internal_accepted: "queue_internal bad q q' \<Longrightarrow> q_accepted q' = q_accepted q"
  by (cases rule: queue_internal.cases, assumption) auto

lemma queue_inv_internal:
  assumes "queue_internal bad q q'" and "queue_inv bad q"
  shows "queue_inv bad q'"
proof (cases "list_all (\<lambda>p. \<not> bad p) (q_accepted q)")
  case False
  then show ?thesis using internal_accepted [OF assms(1)] by (simp add: queue_inv_def)
next
  case True
  with assms(2) have inv: "in_order q = q_accepted q" "tokens q = (if q_waiting q then 1 else 0)"
    "\<not> q_waiting q \<longrightarrow> q_pending q = []"
    by (auto simp: queue_inv_def)
  have zero: "tokens q = 0" if "\<not> q_waiting q" using inv(2) that by simp
  have waiting: "q_waiting q" if "tokens q \<noteq> 0" using zero that by blast
  have one: "tokens q = 1" if "tokens q \<noteq> 0" using inv(2) waiting [OF that] by simp
  have good: "\<not> bad p" if "p \<in> set (q_dequeue q)" for p
    using True that unfolding inv(1) [symmetric] by (auto simp: list_all_iff in_order_def)
  from assms(1) show ?thesis
  proof cases
    case (take_idle p ps)
    with inv zero show ?thesis by (auto simp: queue_inv_def in_order_def tokens_def tokens_zero)
  next
    case (take_waiting p ps)
    with inv show ?thesis by (auto simp: queue_inv_def in_order_def tokens_def)
  next
    case next_none
    then have "tokens q \<noteq> 0" by (simp add: tokens_def)
    with token_at(4) [OF one] next_none inv waiting show ?thesis
      by (simp add: queue_inv_def in_order_def tokens_def)
  next
    case (next_some p ps)
    then have "tokens q \<noteq> 0" by (simp add: tokens_def)
    with token_at(4) [OF one] next_some inv waiting show ?thesis
      by (simp add: queue_inv_def in_order_def tokens_def)
  next
    case (deliver p)
    then have "tokens q \<noteq> 0" by (simp add: tokens_def)
    with token_at(1) [OF one, of p] deliver inv waiting show ?thesis
      by (simp add: queue_inv_def in_order_def tokens_def)
  next
    case (fetch_bad p ps)
    with good show ?thesis by simp
  next
    case (fetch_good p ps)
    then have "tokens q \<noteq> 0" by (simp add: tokens_def)
    with token_at(2) [OF one, of p ps] fetch_good inv waiting show ?thesis
      by (simp add: queue_inv_def in_order_def tokens_def)
  next
    case (finish p)
    then have "tokens q \<noteq> 0" by (simp add: tokens_def)
    with token_at(3) [OF one, of p] finish inv waiting show ?thesis
      by (simp add: queue_inv_def in_order_def tokens_def)
  qed
qed

interpretation queue: invariant_system queue_init "queue_step bad" "queue_inv bad"
proof unfold_locales
  show "queue_inv bad queue_init" by (simp add: queue_inv_def queue_init_def in_order_def tokens_def)
next
  fix q q'
  assume inv: "queue_inv bad q"
  assume "queue_step bad q q'"
  then show "queue_inv bad q'"
  proof cases
    case (put p)
    with inv show ?thesis by (auto simp: queue_inv_def in_order_def tokens_def)
  next
    case internal
    with inv show ?thesis by (simp add: queue_inv_internal)
  qed
qed

section \<open>Properties\<close>

abbreviation queue_reaches :: "('p \<Rightarrow> bool) \<Rightarrow> 'p packet_queue \<Rightarrow> bool" where
  "queue_reaches bad \<equiv> reachable queue_init (queue_step bad)"

text \<open>Whatever the interleaving of the producers with the two queue goroutines, packets are handled one at a time, in the
  order they were put in, none lost and none twice: those handled are a prefix of those put in, and what is
  missing is exactly what is still inside.\<close>
theorem queue_fifo:
  assumes "queue_reaches bad q" and "list_all (\<lambda>p. \<not> bad p) (q_accepted q)"
  shows "q_accepted q = q_done q @ opt_list (q_busy q) @ q_dequeue q @ opt_list (q_hand q) @ q_pending q @ q_enqueue q \<and>
    length (opt_list (q_busy q)) + length (q_dequeue q) + length (opt_list (q_hand q)) \<le> 1"
  using queue.reachable_inv [OF assms(1)] assms(2) by (auto simp: queue_inv_def in_order_def tokens_def split: if_splits)

text \<open>
  The contract of the queue: a list of packets waiting and a list of packets handled; a packet is
  appended to the first, and the first of them moves to the second.
\<close>

record 'p fifo =
  fifo_waiting :: "'p list"
  fifo_done :: "'p list"

inductive fifo_step :: "'p fifo \<Rightarrow> 'p fifo \<Rightarrow> bool" where
  fifo_put: "fifo_step f (f\<lparr>fifo_waiting := fifo_waiting f @ [p]\<rparr>)"
| fifo_handle: "fifo_waiting f = p # ps \<Longrightarrow> fifo_step f (f\<lparr>fifo_waiting := ps, fifo_done := fifo_done f @ [p]\<rparr>)"

definition fifo_of :: "'p packet_queue \<Rightarrow> 'p fifo" where
  "fifo_of q = \<lparr>fifo_waiting = opt_list (q_busy q) @ q_dequeue q @ opt_list (q_hand q) @ q_pending q @ q_enqueue q,
     fifo_done = q_done q\<rparr>"

lemma never_bad: "list_all (\<lambda>p. \<not> (\<lambda>_. False) p) xs"
  by (simp add: list_all_iff)

interpretation fifo: simulation queue_init "queue_step (\<lambda>_. False)" "queue_inv (\<lambda>_. False)" fifo_of
  "\<lparr>fifo_waiting = [], fifo_done = []\<rparr>" fifo_step
proof unfold_locales
  show "fifo_of queue_init = \<lparr>fifo_waiting = [], fifo_done = []\<rparr>" by (simp add: fifo_of_def queue_init_def)
next
  fix q q' :: "'a packet_queue"
  assume "queue_inv (\<lambda>_. False) q"
  then have t: "tokens q = (if q_waiting q then 1 else 0)" and w: "\<not> q_waiting q \<longrightarrow> q_pending q = []"
    using never_bad by (auto simp: queue_inv_def)
  have one: "tokens q = 1" if "tokens q \<noteq> 0" using t that by (simp split: if_splits)
  assume "queue_step (\<lambda>_. False) q q'"
  then show "fifo_of q = fifo_of q' \<or> fifo_step (fifo_of q) (fifo_of q')"
  proof cases
    case (put p)
    with fifo_put [of "fifo_of q" p] show ?thesis by (simp add: fifo_of_def)
  next
    case internal
    then show ?thesis
    proof cases
      case (finish p)
      with fifo_handle [of "fifo_of q" p] show ?thesis by (simp add: fifo_of_def)
    next
      case (take_idle p ps)
      with t w show ?thesis by (simp add: fifo_of_def)
    next
      case (next_some p ps)
      then have "tokens q \<noteq> 0" by (simp add: tokens_def)
      from token_at(4) [OF one [OF this]] next_some show ?thesis by (simp add: fifo_of_def)
    next
      case (deliver p)
      then have "tokens q \<noteq> 0" by (simp add: tokens_def)
      from token_at(1) [OF one [OF this], of p] deliver show ?thesis by (simp add: fifo_of_def)
    next
      case (fetch_good p ps)
      then have "tokens q \<noteq> 0" by (simp add: tokens_def)
      from token_at(2) [OF one [OF this], of p ps] fetch_good show ?thesis by (simp add: fifo_of_def)
    qed (simp_all add: fifo_of_def)
  qed
qed


text \<open>Every packet has a number of internal steps before it.\<close>

definition queue_work :: "'p packet_queue \<Rightarrow> nat" where
  "queue_work q = 6 * length (q_enqueue q) + 5 * length (q_pending q) + 4 * length (opt_list (q_hand q)) +
     3 * length (q_dequeue q) + 2 * length (opt_list (q_busy q)) + q_next q"

lemma internal_work: "queue_internal bad q q' \<Longrightarrow> queue_work q' < queue_work q"
  by (cases rule: queue_internal.cases, assumption) (auto simp: queue_work_def)

lemma queue_enabled:
  assumes "queue_inv bad q" and "list_all (\<lambda>p. \<not> bad p) (q_accepted q)" and "q_done q \<noteq> q_accepted q"
  shows "\<exists>q'. queue_internal bad q q'"
proof -
  from assms(1,2) have inv: "in_order q = q_accepted q" "tokens q = (if q_waiting q then 1 else 0)"
    "\<not> q_waiting q \<longrightarrow> q_pending q = []" by (auto simp: queue_inv_def)
  show ?thesis
  proof (cases "q_waiting q")
    case True
    then have one: "tokens q = 1" using inv(2) by simp
    show ?thesis
    proof (cases "q_hand q")
      case (Some p)
      with token_at(1) [OF one] show ?thesis by (auto intro: deliver)
    next
      case None
      show ?thesis
      proof (cases "q_busy q")
        case (Some p)
        with token_at(3) [OF one] show ?thesis by (auto intro: finish)
      next
        case busy: None
        show ?thesis
        proof (cases "q_dequeue q")
          case (Cons p ps)
          with busy show ?thesis by (cases "bad p") (auto intro: fetch_bad fetch_good)
        next
          case Nil
          with None busy have "0 < q_next q" using token_at(5) [OF one] Nil by blast
          with None show ?thesis
            using next_none [of q bad] next_some [of q _ _ bad] by (cases "q_pending q") blast+
        qed
      qed
    qed
  next
    case False
    with inv have z: "q_hand q = None" "q_dequeue q = []" "q_busy q = None" "q_pending q = []"
      using tokens_zero [of q] by simp_all
    with inv(1) assms(3) obtain p ps where "q_enqueue q = p # ps"
      by (cases "q_enqueue q") (auto simp: in_order_def)
    with z False show ?thesis by (auto intro: take_idle)
  qed
qed

interpretation draining: draining_system "queue_internal bad"
  "\<lambda>q. queue_inv bad q \<and> list_all (\<lambda>p. \<not> bad p) ps \<and> q_accepted q = ps" queue_work "\<lambda>q. q_done q = ps"
  by unfold_locales (auto dest: internal_work internal_accepted queue_inv_internal intro: queue_enabled)

text \<open>C8: The queue never gets stuck and always empties, whatever its two goroutines do first: without a new packet they make at most
  \<open>queue_work q\<close> steps, they can always go on until every packet put in has been handled, and they stop
  only then.\<close>
theorem queue_drains:
  assumes "queue_reaches bad q" and "list_all (\<lambda>p. \<not> bad p) (q_accepted q)" and "run (queue_internal bad) q qs"
  shows "length qs \<le> queue_work q \<and>
    (\<exists>rs. run (queue_internal bad) q (qs @ rs) \<and> q_done (last (q # qs @ rs)) = q_accepted q) \<and>
    ((\<forall>q'. \<not> queue_internal bad (last (q # qs)) q') \<longrightarrow> q_done (last (q # qs)) = q_accepted q)"
  using draining.runs_drain [where bad = bad and ps = "q_accepted q" and s = q and ts = qs] queue.reachable_inv [OF assms(1)] assms(2,3) by blast

text \<open>After a bad packet the token is gone, and nothing brings it back.\<close>

definition stuck :: "'p packet_queue \<Rightarrow> bool" where
  "stuck q \<longleftrightarrow> q_waiting q \<and> q_hand q = None \<and> q_dequeue q = [] \<and> q_busy q = None \<and> q_next q = 0"

lemma stuck_step: "queue_step bad q q' \<Longrightarrow> stuck q \<Longrightarrow> stuck q' \<and> q_done q' = q_done q"
  by (cases rule: queue_step.cases, assumption) (auto simp: stuck_def elim: queue_internal.cases)

lemma stuck_forever: "reachable q (queue_step bad) q' \<Longrightarrow> stuck q \<Longrightarrow> stuck q' \<and> q_done q' = q_done q"
  by (induction rule: reachable.induct) (auto dest: stuck_step)

text \<open>One bad packet stops the gateway's queue for good: the second goroutine skips it without signalling \<^verbatim>\<open>next\<close>, and from then on
  packets are accepted but none is ever handled.\<close>
theorem bad_packet_stalls:
  assumes "bad p"
  shows "\<exists>q. queue_reaches bad q \<and> q_accepted q = [p] \<and>
    (\<forall>q'. reachable q (queue_step bad) q' \<longrightarrow> q_done q' = [])"
proof -
  let ?q = "queue_init\<lparr>q_accepted := [p], q_waiting := True\<rparr>"
  note [simp] = queue_init_def
  have "queue_reaches bad (queue_init\<lparr>q_enqueue := [p], q_accepted := [p]\<rparr>)"
    using reach_step [OF reach_init [of queue_init "queue_step bad"] put [of _ bad p]] by simp
  from reach_step [OF this internal [OF take_idle [of _ p "[]"]]]
  have "queue_reaches bad (queue_init\<lparr>q_hand := Some p, q_accepted := [p], q_waiting := True\<rparr>)" by simp
  from reach_step [OF this internal [OF deliver [of _ p]]]
  have "queue_reaches bad (queue_init\<lparr>q_dequeue := [p], q_accepted := [p], q_waiting := True\<rparr>)" by simp
  from reach_step [OF this internal [OF fetch_bad [of _ p "[]"]]] assms have "queue_reaches bad ?q" by simp
  moreover have "stuck ?q" by (simp add: stuck_def)
  ultimately show ?thesis using stuck_forever [of ?q bad] by (intro exI [of _ ?q]) auto
qed

lemma queue_one:
  "queue_reaches bad (queue_init\<lparr>q_enqueue := [p], q_accepted := [p]\<rparr>)"
  using reach_step [OF reach_init [of queue_init "queue_step bad"] put [of queue_init bad p]] by (simp add: queue_init_def)

lemma queue_fifo_witness:
  "queue_reaches (\<lambda>p. p = 0) (queue_init\<lparr>q_enqueue := [7 :: nat], q_accepted := [7]\<rparr>) \<and>
   length (opt_list (q_hand (queue_init\<lparr>q_enqueue := [7 :: nat], q_accepted := [7]\<rparr>))) \<le> 1"
  using queue_fifo [OF queue_one [of "\<lambda>p. p = (0 :: nat)" 7]] queue_one [of "\<lambda>p. p = (0 :: nat)" 7] by simp

lemma queue_drains_witness:
  "\<exists>rs. run (queue_internal (\<lambda>p. p = 0)) (queue_init\<lparr>q_enqueue := [7 :: nat], q_accepted := [7]\<rparr>) rs \<and>
    q_done (last (queue_init\<lparr>q_enqueue := [7 :: nat], q_accepted := [7]\<rparr> # rs)) = [7]"
  using queue_drains [OF queue_one [of "\<lambda>p. p = (0 :: nat)" 7], of "[]"] by auto

lemma bad_packet_stalls_witness:
  "\<exists>q. queue_reaches (\<lambda>p. p = (0 :: nat)) q \<and> q_accepted q = [0] \<and>
    (\<forall>q'. reachable q (queue_step (\<lambda>p. p = 0)) q' \<longrightarrow> q_done q' = [])"
  by (rule bad_packet_stalls) (rule refl)


end
