(* ===== verification/GoIO.thy ===== *)
theory GoIO
  imports FimPrelude
begin

text \<open>
  The readers and writers the codecs of the program run on, as much of \<^verbatim>\<open>io\<close>, \<^verbatim>\<open>bytes\<close> and
  \<^verbatim>\<open>net\<close> as the code uses. A reader is the list of pieces in which its bytes arrive and the
  error that follows the last one: a \<^verbatim>\<open>bytes.Buffer\<close> has at most one piece, a connection
  has as many as the network makes of the stream. A writer records what it accepted and
  may stop accepting, as a connection does; a \<^verbatim>\<open>bytes.Buffer\<close> never stops.
\<close>

section \<open>Readers\<close>

record reader =
  rd_chunks :: "byte list list"
  rd_end :: go_error

definition rd_bytes :: "reader \<Rightarrow> byte list" where
  "rd_bytes r = concat (rd_chunks r)"

definition bytes_buffer :: "byte list \<Rightarrow> reader" where
  "bytes_buffer bs = \<lparr>rd_chunks = (if bs = [] then [] else [bs]), rd_end = EOF\<rparr>"

lemma rd_bytes_buffer [simp]: "rd_bytes (bytes_buffer bs) = bs"
  by (simp add: rd_bytes_def bytes_buffer_def)

lemma rd_end_buffer [simp]: "rd_end (bytes_buffer bs) = EOF"
  by (simp add: bytes_buffer_def)

text \<open>
  One call \<^verbatim>\<open>Read(p)\<close> with \<open>len(p) = n\<close>: at most one piece, and at most \<open>n\<close> bytes of it.
\<close>

definition Read :: "nat \<Rightarrow> reader \<Rightarrow> byte list \<times> go_error option \<times> reader" where
  "Read n r =
     (case rd_chunks r of
        [] \<Rightarrow> (if n = 0 then ([], None, r) else ([], Some (rd_end r), r))
      | c # cs \<Rightarrow>
          (if length c \<le> n then (c, None, r\<lparr>rd_chunks := cs\<rparr>)
           else (take n c, None, r\<lparr>rd_chunks := drop n c # cs\<rparr>)))"

text \<open>\<^verbatim>\<open>copy(dst, src)\<close> of a shorter source: the rest of the destination keeps its bytes.\<close>

definition overlay :: "byte list \<Rightarrow> byte list \<Rightarrow> byte list" where
  "overlay dst src = take (length dst) src @ drop (length src) dst"

lemma length_overlay [simp]: "length (overlay dst src) = length dst"
  by (simp add: overlay_def)

lemma overlay_full [simp]: "length src = length dst \<Longrightarrow> overlay dst src = src"
  by (simp add: overlay_def)

lemma Read_buffer:
  "Read n (bytes_buffer bs) =
     (if bs = [] then ([], if n = 0 then None else Some EOF, bytes_buffer [])
      else (take n bs, None, bytes_buffer (drop n bs)))"
  by (auto simp: Read_def bytes_buffer_def)

lemma Read_bytes:
  "Read n r = (d, e, r') \<Longrightarrow> rd_bytes r = d @ rd_bytes r' \<and> rd_end r' = rd_end r \<and> length d \<le> n"
  by (auto simp: Read_def rd_bytes_def split: list.splits if_splits)

lemma Read_error: "Read n r = (d, Some e, r') \<Longrightarrow> e = rd_end r \<and> d = [] \<and> rd_chunks r = [] \<and> r' = r"
  by (auto simp: Read_def split: list.splits if_splits)

section \<open>Reading a fixed number of bytes\<close>

text \<open>\<^verbatim>\<open>io.ReadAtLeast\<close>'s loop, with what it has read so far.\<close>

function read_loop :: "nat \<Rightarrow> byte list \<Rightarrow> reader \<Rightarrow> byte list \<times> go_error option \<times> reader" where
  "read_loop n acc r =
     (if length acc < n then
        (case Read (n - length acc) r of
           (d, None, r') \<Rightarrow> read_loop n (acc @ d) r'
         | (d, Some e, r') \<Rightarrow> (acc @ d, Some e, r'))
      else (acc, None, r))"
  by pat_completeness auto
termination
  by (relation "measures [\<lambda>(n, acc, r). n - length acc, \<lambda>(n, acc, r). length (rd_chunks r)]")
     (auto simp: Read_def split: list.splits if_splits)

declare read_loop.simps [simp del]

definition io_ReadFull :: "nat \<Rightarrow> reader \<Rightarrow> byte list \<times> go_error option \<times> reader" where
  "io_ReadFull n r =
     (case read_loop n [] r of (d, e, r') \<Rightarrow>
        if n \<le> length d then (d, None, r')
        else if d \<noteq> [] \<and> e = Some EOF then (d, Some ErrUnexpectedEOF, r')
        else (d, e, r'))"

lemma read_loop_spec:
  assumes "length acc \<le> n"
  shows "\<exists>r'. read_loop n acc r =
      (if n \<le> length acc + length (rd_bytes r)
       then (acc @ take (n - length acc) (rd_bytes r), None, r')
       else (acc @ rd_bytes r, Some (rd_end r), r')) \<and>
     rd_bytes r' = drop (n - length acc) (rd_bytes r) \<and> rd_end r' = rd_end r"
  using assms
proof (induction n acc r rule: read_loop.induct)
  case (1 n acc r)
  show ?case
  proof (cases "length acc < n")
    case False
    with "1.prems" show ?thesis by (simp add: read_loop.simps [of n acc r])
  next
    case True
    obtain d e r' where R: "Read (n - length acc) r = (d, e, r')" by (cases "Read (n - length acc) r")
    note B = Read_bytes [OF R]
    show ?thesis
    proof (cases e)
      case (Some x)
      with R have "x = rd_end r" "d = []" "rd_chunks r = []" "r' = r" using Read_error by blast+
      then have "rd_bytes r = []" "rd_bytes r' = []" by (simp_all add: rd_bytes_def)
      with True R Some \<open>x = rd_end r\<close> \<open>d = []\<close> \<open>r' = r\<close> show ?thesis
        by (simp add: read_loop.simps [of n acc r])
    next
      case None
      from B True have "length (acc @ d) \<le> n" by auto
      from "1.IH" [OF True R [symmetric] refl None this] obtain q where
        "read_loop n (acc @ d) r' =
          (if n \<le> length (acc @ d) + length (rd_bytes r')
           then ((acc @ d) @ take (n - length (acc @ d)) (rd_bytes r'), None, q)
           else ((acc @ d) @ rd_bytes r', Some (rd_end r'), q))"
        "rd_bytes q = drop (n - length (acc @ d)) (rd_bytes r')" "rd_end q = rd_end r'"
        by auto
      with True R None B show ?thesis
        by (simp add: read_loop.simps [of n acc r] ac_simps)
    qed
  qed
qed

text \<open>
  The error of a read that came up short: what the reader ends with, turned into
  \<^verbatim>\<open>ErrUnexpectedEOF\<close> when some bytes had been read.
\<close>

definition short_error :: "reader \<Rightarrow> go_error" where
  "short_error r = (if rd_bytes r \<noteq> [] \<and> rd_end r = EOF then ErrUnexpectedEOF else rd_end r)"

lemma io_ReadFull_spec:
  "\<exists>r'. io_ReadFull n r =
      (if n \<le> length (rd_bytes r) then (take n (rd_bytes r), None, r')
       else (rd_bytes r, Some (short_error r), r')) \<and>
     rd_bytes r' = drop n (rd_bytes r) \<and> rd_end r' = rd_end r"
  using read_loop_spec [of "[]" n r]
  by (auto simp: io_ReadFull_def short_error_def split: if_splits)

lemma io_ReadFull_ok:
  assumes "rd_bytes r = bs @ rest" and "length bs = n"
  obtains r' where "io_ReadFull n r = (bs, None, r')" "rd_bytes r' = rest" "rd_end r' = rd_end r"
  using io_ReadFull_spec [of n r] assms by auto

lemma io_ReadFull_short:
  assumes "length (rd_bytes r) < n"
  obtains r' where "io_ReadFull n r = (rd_bytes r, Some (short_error r), r')"
    "rd_bytes r' = []" "rd_end r' = rd_end r"
  using io_ReadFull_spec [of n r] assms by auto

lemma io_ReadFull_cases:
  obtains (ok) r' where "n \<le> length (rd_bytes r)"
      "io_ReadFull n r = (take n (rd_bytes r), None, r')"
      "rd_bytes r' = drop n (rd_bytes r)" "rd_end r' = rd_end r"
  | (short) r' where "length (rd_bytes r) < n"
      "io_ReadFull n r = (rd_bytes r, Some (short_error r), r')"
      "rd_bytes r' = []" "rd_end r' = rd_end r"
  using io_ReadFull_spec [of n r] by (cases "n \<le> length (rd_bytes r)") auto

lemma read_loop_buffer:
  assumes "length acc \<le> n"
  shows "read_loop n acc (bytes_buffer bs) =
      (if n \<le> length acc + length bs
       then (acc @ take (n - length acc) bs, None, bytes_buffer (drop (n - length acc) bs))
       else (acc @ bs, Some EOF, bytes_buffer []))"
proof -
  have empty: "read_loop n a (bytes_buffer []) =
      (if n \<le> length a then (a, None, bytes_buffer []) else (a, Some EOF, bytes_buffer []))" for a
    by (simp add: read_loop.simps [of n a "bytes_buffer []"] Read_buffer)
  show ?thesis
  proof (cases "bs = [] \<or> length acc = n")
    case True
    with assms empty [of acc] show ?thesis
      by (cases "bs = []") (auto simp: read_loop.simps [of n acc "bytes_buffer bs"])
  next
    case False
    with assms have "read_loop n acc (bytes_buffer bs) =
        read_loop n (acc @ take (n - length acc) bs) (bytes_buffer (drop (n - length acc) bs))"
      by (simp add: read_loop.simps [of n acc] Read_buffer)
    moreover have "read_loop n (acc @ take (n - length acc) bs) r =
        (acc @ take (n - length acc) bs, None, r)" if "n \<le> length acc + length bs" for r
      using that assms by (simp add: read_loop.simps [of n "acc @ take (n - length acc) bs"])
    ultimately show ?thesis using empty by simp
  qed
qed

lemma io_ReadFull_buffer:
  "io_ReadFull n (bytes_buffer bs) =
     (if n \<le> length bs then (take n bs, None, bytes_buffer (drop n bs))
      else (bs, Some (if bs = [] then EOF else ErrUnexpectedEOF), bytes_buffer []))"
  by (simp add: io_ReadFull_def read_loop_buffer)

section \<open>Writers\<close>

text \<open>
  \<open>wr_room = None\<close> is a \<^verbatim>\<open>bytes.Buffer\<close>; \<open>Some k\<close> is a connection that accepts \<open>k\<close> more
  bytes and then fails.
\<close>

record writer =
  wr_out :: "byte list"
  wr_room :: "nat option"

definition new_buffer :: writer where
  "new_buffer = \<lparr>wr_out = [], wr_room = None\<rparr>"

definition Write :: "byte list \<Rightarrow> writer \<Rightarrow> go_error option \<times> writer" where
  "Write p w =
     (case wr_room w of
        None \<Rightarrow> (None, w\<lparr>wr_out := wr_out w @ p\<rparr>)
      | Some k \<Rightarrow>
          (if length p \<le> k
           then (None, w\<lparr>wr_out := wr_out w @ p, wr_room := Some (k - length p)\<rparr>)
           else (Some ErrIO, w\<lparr>wr_out := wr_out w @ take k p, wr_room := Some 0\<rparr>)))"

text \<open>\<^verbatim>\<open>if err := a(w); err != nil { return err }; return b(w)\<close>\<close>

definition then_write ::
  "(writer \<Rightarrow> go_error option \<times> writer) \<Rightarrow> (writer \<Rightarrow> go_error option \<times> writer) \<Rightarrow>
   writer \<Rightarrow> go_error option \<times> writer" where
  "then_write a b w = (case a w of (Some e, w') \<Rightarrow> (Some e, w') | (None, w') \<Rightarrow> b w')"

lemma Write_Nil [simp]: "Write [] w = (None, w)"
  by (cases w) (simp add: Write_def split: option.splits)

text \<open>
  Writing piece by piece and stopping at the first error leaves the connection exactly as
  one write of the whole would: the fact every encoder below is reduced to.
\<close>

lemma then_write_Write [go_simps]:
  "then_write (Write p) (Write q) = Write (p @ q)"
proof
  fix w
  show "then_write (Write p) (Write q) w = Write (p @ q) w"
    by (cases w) (auto simp: then_write_def Write_def split: option.splits)
qed

lemma then_write_Nil [go_simps]:
  "then_write (Write p) (\<lambda>w. (None, w)) = Write p"
  using then_write_Write [of p "[]"] by (simp add: Write_Nil [abs_def])

lemma Write_buffer [simp]:
  "wr_room w = None \<Longrightarrow> Write p w = (None, w\<lparr>wr_out := wr_out w @ p\<rparr>)"
  by (simp add: Write_def)

lemma Write_new_buffer [simp]: "Write p new_buffer = (None, \<lparr>wr_out = p, wr_room = None\<rparr>)"
  by (simp add: new_buffer_def)

lemma Write_prefix:
  assumes "Write p w = (e, w')"
  shows "\<exists>q r. p = q @ r \<and> wr_out w' = wr_out w @ q \<and> (e = None \<longleftrightarrow> r = [])"
proof (cases "wr_room w")
  case None
  with assms show ?thesis by (intro exI [of _ p] exI [of _ "[]"]) auto
next
  case (Some k)
  with assms show ?thesis
    by (intro exI [of _ "take k p"] exI [of _ "drop k p"])
       (auto simp: Write_def split: if_splits)
qed

end
