(* ===== verification/Codec.thy ===== *)
theory Codec
  imports GoIO
begin

text \<open>
  The interface of the wire formats. An encoder writes to a writer and may stop at its
  error; its law is that it behaves as one write of its serialisation. A decoder takes the
  value off the front of a reader: \<open>stream_codec\<close> promises it on every reader, however the
  bytes arrive, and an error on every shortened input; \<open>buffer_codec\<close> only on a
  \<^verbatim>\<open>bytes.Buffer\<close>, which is all that a decoder built on a single \<^verbatim>\<open>Read\<close> can promise.
  A decoder returns its error, the value it leaves in the receiver, and the reader.
\<close>

section \<open>Encoders\<close>

locale byte_encoder =
  fixes enc :: "'a \<Rightarrow> writer \<Rightarrow> go_error option \<times> writer"
    and ser :: "'a \<Rightarrow> byte list"
  assumes enc_Write: "enc a w = Write (ser a) w"
begin

lemma enc_buffer: "enc a new_buffer = (None, \<lparr>wr_out = ser a, wr_room = None\<rparr>)"
  by (simp add: enc_Write)

lemma enc_partial:
  assumes "enc a w = (e, w')"
  shows "\<exists>p q. ser a = p @ q \<and> wr_out w' = wr_out w @ p \<and> (e = None \<longleftrightarrow> q = [])"
  using assms Write_prefix unfolding enc_Write by blast

lemma enc_seq: "then_write (enc a) (enc b) = Write (ser a @ ser b)"
  by (simp add: enc_Write [abs_def] then_write_Write)

end

section \<open>Decoders\<close>

locale buffer_codec = byte_encoder enc ser
  for enc :: "'a \<Rightarrow> writer \<Rightarrow> go_error option \<times> writer" and ser :: "'a \<Rightarrow> byte list" +
  fixes dec :: "reader \<Rightarrow> go_error option \<times> 'a \<times> reader"
    and ok :: "'a \<Rightarrow> bool"
  assumes dec_buffer: "ok a \<Longrightarrow> dec (bytes_buffer (ser a @ rest)) = (None, a, bytes_buffer rest)"
begin

lemma dec_enc:
  assumes "ok a"
  shows "dec (bytes_buffer (wr_out (snd (enc a new_buffer)) @ rest)) = (None, a, bytes_buffer rest)"
  using assms by (simp add: enc_buffer dec_buffer)

text \<open>No encoding is a proper prefix of another, so a sequence of encodings parses in one way.\<close>

lemma prefix_free:
  assumes "ok a" and "ok b" and "ser a @ xs = ser b @ ys"
  shows "a = b \<and> xs = ys"
proof -
  have "dec (bytes_buffer (ser a @ xs)) = (None, a, bytes_buffer xs)"
    by (rule dec_buffer [OF assms(1)])
  moreover have "dec (bytes_buffer (ser a @ xs)) = (None, b, bytes_buffer ys)"
    unfolding assms(3) by (rule dec_buffer [OF assms(2)])
  ultimately have ab: "a = b" by simp
  with assms(3) show ?thesis by simp
qed

lemma ser_inj: "ok a \<Longrightarrow> ok b \<Longrightarrow> ser a = ser b \<Longrightarrow> a = b"
  using prefix_free [of a b "[]" "[]"] by simp

end

locale stream_codec = byte_encoder enc ser
  for enc :: "'a \<Rightarrow> writer \<Rightarrow> go_error option \<times> writer" and ser :: "'a \<Rightarrow> byte list" +
  fixes dec :: "reader \<Rightarrow> go_error option \<times> 'a \<times> reader"
    and ok :: "'a \<Rightarrow> bool"
  assumes dec_stream: "ok a \<Longrightarrow> rd_bytes r = ser a @ rest \<Longrightarrow>
      \<exists>r'. dec r = (None, a, r') \<and> rd_bytes r' = rest \<and> rd_end r' = rd_end r"
    and dec_short: "ok a \<Longrightarrow> ser a = rd_bytes r @ x # xs \<Longrightarrow> fst (dec r) \<noteq> None"
    and dec_keeps_buffer: "snd (snd (dec (bytes_buffer bs))) =
      bytes_buffer (rd_bytes (snd (snd (dec (bytes_buffer bs)))))"

sublocale stream_codec \<subseteq> buffer_codec enc ser dec ok
proof unfold_locales
  fix a rest
  assume "ok a"
  then obtain r' where d: "dec (bytes_buffer (ser a @ rest)) = (None, a, r')" and "rd_bytes r' = rest"
    using dec_stream [of a "bytes_buffer (ser a @ rest)" rest] by auto
  moreover have "r' = bytes_buffer (rd_bytes r')"
    using dec_keeps_buffer [of "ser a @ rest"] d by simp
  ultimately show "dec (bytes_buffer (ser a @ rest)) = (None, a, bytes_buffer rest)" by simp
qed

text \<open>Decoding a given number of values in sequence, stopping at the first error.\<close>

fun decode_n ::
  "(reader \<Rightarrow> go_error option \<times> 'a \<times> reader) \<Rightarrow> nat \<Rightarrow> reader \<Rightarrow> go_error option \<times> 'a list \<times> reader" where
  "decode_n dec 0 r = (None, [], r)"
| "decode_n dec (Suc n) r =
     (case dec r of
        (Some e, a, r') \<Rightarrow> (Some e, [], r')
      | (None, a, r') \<Rightarrow> (case decode_n dec n r' of (e, as, r'') \<Rightarrow> (e, a # as, r'')))"

context stream_codec begin

lemma decode_n_stream:
  assumes "list_all ok as" and "rd_bytes r = concat (map ser as) @ rest"
  shows "\<exists>r'. decode_n dec (length as) r = (None, as, r') \<and> rd_bytes r' = rest \<and> rd_end r' = rd_end r"
  using assms
proof (induction as arbitrary: r)
  case Nil
  then show ?case by simp
next
  case (Cons a as)
  from Cons.prems have a: "ok a" and as: "list_all ok as"
    and b: "rd_bytes r = ser a @ (concat (map ser as) @ rest)" by simp_all
  from dec_stream [OF a b] obtain q where
    d: "dec r = (None, a, q)" and q: "rd_bytes q = concat (map ser as) @ rest" "rd_end q = rd_end r"
    by blast
  from Cons.IH [OF as q(1)] obtain r' where
    "decode_n dec (length as) q = (None, as, r')" "rd_bytes r' = rest" "rd_end r' = rd_end q"
    by blast
  with d q(2) show ?case by simp
qed

text \<open>
  How the network cuts the stream does not matter: two readers with the same bytes and the
  same ending decode to the same value with the same bytes left.
\<close>

lemma chunking_independent:
  assumes "ok a" and "rd_bytes r = ser a @ rest" and "rd_bytes q = rd_bytes r"
  shows "fst (dec q) = fst (dec r) \<and> fst (snd (dec q)) = fst (snd (dec r)) \<and>
    rd_bytes (snd (snd (dec q))) = rd_bytes (snd (snd (dec r)))"
  using dec_stream [OF assms(1,2)] dec_stream [of a q rest] assms by auto

end

section \<open>Decoders of a fixed number of bytes\<close>

text \<open>
  \<^verbatim>\<open>buf := make([]byte, n); if _, err := io.ReadFull(r, buf); err != nil { return zero, err };
  return conv(buf), nil\<close>
\<close>

definition read_fixed ::
  "nat \<Rightarrow> (byte list \<Rightarrow> 'a) \<Rightarrow> 'a \<Rightarrow> reader \<Rightarrow> go_error option \<times> 'a \<times> reader" where
  "read_fixed n conv zero r =
     (case io_ReadFull n r of
        (buf, Some e, r') \<Rightarrow> (Some e, zero, r')
      | (buf, None, r') \<Rightarrow> (None, conv buf, r'))"

lemma read_fixed_ok:
  assumes "rd_bytes r = bs @ rest" and "length bs = n"
  shows "\<exists>r'. read_fixed n conv zero r = (None, conv bs, r') \<and> rd_bytes r' = rest \<and> rd_end r' = rd_end r"
  by (rule io_ReadFull_ok [OF assms]) (auto simp: read_fixed_def)

lemma read_fixed_short:
  assumes "length (rd_bytes r) < n"
  shows "\<exists>r'. read_fixed n conv zero r = (Some (short_error r), zero, r') \<and>
    rd_bytes r' = [] \<and> rd_end r' = rd_end r"
  by (rule io_ReadFull_short [OF assms]) (auto simp: read_fixed_def)

lemma read_fixed_buffer:
  "read_fixed n conv zero (bytes_buffer bs) =
     (if n \<le> length bs then (None, conv (take n bs), bytes_buffer (drop n bs))
      else (Some (if bs = [] then EOF else ErrUnexpectedEOF), zero, bytes_buffer []))"
  by (simp add: read_fixed_def io_ReadFull_buffer)

lemma read_fixed_keeps_buffer:
  "snd (snd (read_fixed n conv zero (bytes_buffer bs))) =
     bytes_buffer (rd_bytes (snd (snd (read_fixed n conv zero (bytes_buffer bs)))))"
  by (simp add: read_fixed_buffer)

text \<open>Every fixed-width format is a stream codec.\<close>

lemma fixed_width_codec:
  assumes "\<And>a w. enc a w = Write (ser a) w"
    and "\<And>a. ok a \<Longrightarrow> length (ser a) = n"
    and "\<And>a. ok a \<Longrightarrow> conv (ser a) = a"
    and "\<And>r. dec r = read_fixed n conv zero r"
  shows "stream_codec enc ser dec ok"
proof unfold_locales
  fix a r rest
  assume "ok a" and "rd_bytes r = ser a @ rest"
  then show "\<exists>r'. dec r = (None, a, r') \<and> rd_bytes r' = rest \<and> rd_end r' = rd_end r"
    using read_fixed_ok [of r "ser a" rest n conv zero] assms(2-4) by simp
next
  fix a r x xs
  assume "ok a" and "ser a = rd_bytes r @ x # xs"
  then have "length (rd_bytes r) < n" using assms(2) [of a] by simp
  from read_fixed_short [OF this, of conv zero] show "fst (dec r) \<noteq> None" using assms(4) by auto
next
  fix a w
  show "enc a w = Write (ser a) w" by (rule assms(1))
next
  fix bs
  show "snd (snd (dec (bytes_buffer bs))) =
      bytes_buffer (rd_bytes (snd (snd (dec (bytes_buffer bs)))))"
    unfolding assms(4) by (rule read_fixed_keeps_buffer)
qed

section \<open>Two fields in sequence\<close>

text \<open>
  A decoder that reads one field, stops at its error, and then reads a second, with the
  value built from both: a stream codec when the fields are.
\<close>

definition dec_pair ::
  "(reader \<Rightarrow> go_error option \<times> 'x \<times> reader) \<Rightarrow> (reader \<Rightarrow> go_error option \<times> 'y \<times> reader) \<Rightarrow>
   ('x \<Rightarrow> 'y \<Rightarrow> 'a) \<Rightarrow> 'y \<Rightarrow> reader \<Rightarrow> go_error option \<times> 'a \<times> reader" where
  "dec_pair dec1 dec2 mk y0 r =
     (case dec1 r of
        (Some e, x, r') \<Rightarrow> (Some e, mk x y0, r')
      | (None, x, r') \<Rightarrow> (case dec2 r' of (e, y, r'') \<Rightarrow> (e, mk x y, r'')))"

lemma pair_codec:
  assumes c1: "stream_codec enc1 ser1 dec1 ok1" and c2: "stream_codec enc2 ser2 dec2 ok2"
    and enc: "\<And>a w. enc a w = then_write (enc1 (f a)) (enc2 (g a)) w"
    and dec: "\<And>r. dec r = dec_pair dec1 dec2 mk y0 r"
    and mk: "\<And>a. ok a \<Longrightarrow> mk (f a) (g a) = a"
    and ok: "\<And>a. ok a \<Longrightarrow> ok1 (f a) \<and> ok2 (g a)"
  shows "stream_codec enc (\<lambda>a. ser1 (f a) @ ser2 (g a)) dec ok"
proof -
  have e1: "enc1 x = Write (ser1 x)" for x
    by (rule ext) (rule byte_encoder.enc_Write [OF stream_codec.axioms(1) [OF c1]])
  have e2: "enc2 x = Write (ser2 x)" for x
    by (rule ext) (rule byte_encoder.enc_Write [OF stream_codec.axioms(1) [OF c2]])
  show ?thesis
  proof unfold_locales
    fix a w
    show "enc a w = Write (ser1 (f a) @ ser2 (g a)) w"
      unfolding enc e1 e2 then_write_Write by (rule refl)
  next
    fix a r rest
    assume a: "ok a" and b: "rd_bytes r = (ser1 (f a) @ ser2 (g a)) @ rest"
    from a ok have o: "ok1 (f a)" "ok2 (g a)" by auto
    obtain q where q: "dec1 r = (None, f a, q)" "rd_bytes q = ser2 (g a) @ rest" "rd_end q = rd_end r"
      using stream_codec.dec_stream [OF c1 o(1), of r "ser2 (g a) @ rest"] b by auto
    obtain r' where "dec2 q = (None, g a, r')" "rd_bytes r' = rest" "rd_end r' = rd_end q"
      using stream_codec.dec_stream [OF c2 o(2) q(2)] by auto
    with q a show "\<exists>r'. dec r = (None, a, r') \<and> rd_bytes r' = rest \<and> rd_end r' = rd_end r"
      by (simp add: dec dec_pair_def mk)
  next
    fix a r x xs
    assume a: "ok a" and b: "ser1 (f a) @ ser2 (g a) = rd_bytes r @ x # xs"
    from a ok have o: "ok1 (f a)" "ok2 (g a)" by auto
    from b [symmetric] show "fst (dec r) \<noteq> None"
    proof (cases rule: append_cases)
      case (short y ys)
      from stream_codec.dec_short [OF c1 o(1) short] show ?thesis
        by (auto simp: dec dec_pair_def split: prod.splits)
    next
      case (long b')
      obtain q where q: "dec1 r = (None, f a, q)" "rd_bytes q = b'"
        using stream_codec.dec_stream [OF c1 o(1) long(1)] by auto
      have "fst (dec2 q) \<noteq> None"
        by (rule stream_codec.dec_short [OF c2 o(2), of q x xs]) (simp add: q(2) long(2))
      with q show ?thesis by (auto simp: dec dec_pair_def split: prod.splits)
    qed
  next
    fix bs
    obtain e x q where d1: "dec1 (bytes_buffer bs) = (e, x, q)" by (cases "dec1 (bytes_buffer bs)")
    have q: "q = bytes_buffer (rd_bytes q)"
      using stream_codec.dec_keeps_buffer [OF c1, of bs] by (simp add: d1)
    obtain e' y q' where d2: "dec2 q = (e', y, q')" by (cases "dec2 q")
    have "q' = bytes_buffer (rd_bytes q')"
      using stream_codec.dec_keeps_buffer [OF c2, of "rd_bytes q"] by (simp add: q [symmetric] d2)
    with q d1 d2 have "snd (snd (dec (bytes_buffer bs))) \<in> {q, q'}"
      by (auto simp: dec dec_pair_def split: option.splits)
    with q \<open>q' = _\<close> show "snd (snd (dec (bytes_buffer bs))) =
        bytes_buffer (rd_bytes (snd (snd (dec (bytes_buffer bs)))))"
      by (metis insertE singletonD)
  qed
qed

end
