(* ===== verification/WireCommon.thy ===== *)
theory WireCommon
  imports Codec
begin

text \<open>
  \<^verbatim>\<open>wire/common.go\<close>: big-endian integers, length-prefixed byte strings and server ids,
  and of the standard library \<^verbatim>\<open>encoding/binary\<close> and \<^verbatim>\<open>strconv.Atoi\<close> as the file uses them.
\<close>

section \<open>Go strings as bytes\<close>

definition byte_of_char :: "char \<Rightarrow> byte" where
  "byte_of_char c = of_nat (of_char c)"

definition char_of_byte :: "byte \<Rightarrow> char" where
  "char_of_byte b = char_of (unat b)"

definition bytes_of :: "string \<Rightarrow> byte list" where
  "bytes_of s = map byte_of_char s"

definition string_of :: "byte list \<Rightarrow> string" where
  "string_of bs = map char_of_byte bs"

lemma byte_char_inverse [simp]: "char_of_byte (byte_of_char c) = c"
  by (simp add: byte_of_char_def char_of_byte_def unat_of_nat)

lemma char_byte_inverse [simp]: "byte_of_char (char_of_byte b) = b"
proof -
  have "unat b < 256" using unsigned_less [of b] by simp
  then show ?thesis by (simp add: byte_of_char_def char_of_byte_def)
qed

lemma string_bytes_inverse [simp]: "string_of (bytes_of s) = s"
  by (induction s) (simp_all add: string_of_def bytes_of_def)

lemma bytes_string_inverse [simp]: "bytes_of (string_of bs) = bs"
  by (induction bs) (simp_all add: string_of_def bytes_of_def)

lemma length_bytes_of [simp]: "length (bytes_of s) = length s"
  by (simp add: bytes_of_def)

section \<open>Big-endian integers\<close>

definition Uint16 :: "byte list \<Rightarrow> u16" where
  "Uint16 b = ucast (b ! 1) OR push_bit 8 (ucast (b ! 0))"

definition PutUint16 :: "u16 \<Rightarrow> byte list" where
  "PutUint16 v = [ucast (drop_bit 8 v), ucast v]"

definition Uint32 :: "byte list \<Rightarrow> u32" where
  "Uint32 b = ucast (b ! 3) OR push_bit 8 (ucast (b ! 2)) OR
     push_bit 16 (ucast (b ! 1)) OR push_bit 24 (ucast (b ! 0))"

definition PutUint32 :: "u32 \<Rightarrow> byte list" where
  "PutUint32 v = [ucast (drop_bit 24 v), ucast (drop_bit 16 v), ucast (drop_bit 8 v), ucast v]"

definition Uint64 :: "byte list \<Rightarrow> u64" where
  "Uint64 b = ucast (b ! 7) OR push_bit 8 (ucast (b ! 6)) OR
     push_bit 16 (ucast (b ! 5)) OR push_bit 24 (ucast (b ! 4)) OR
     push_bit 32 (ucast (b ! 3)) OR push_bit 40 (ucast (b ! 2)) OR
     push_bit 48 (ucast (b ! 1)) OR push_bit 56 (ucast (b ! 0))"

definition PutUint64 :: "u64 \<Rightarrow> byte list" where
  "PutUint64 v = [ucast (drop_bit 56 v), ucast (drop_bit 48 v), ucast (drop_bit 40 v),
     ucast (drop_bit 32 v), ucast (drop_bit 24 v), ucast (drop_bit 16 v), ucast (drop_bit 8 v), ucast v]"

lemma length_Put [simp]:
  "length (PutUint16 v16) = 2" "length (PutUint32 v32) = 4" "length (PutUint64 v64) = 8"
  by (simp_all add: PutUint16_def PutUint32_def PutUint64_def)

lemma Uint16_Put [simp]: "Uint16 (PutUint16 v) = v"
  by (rule bit_word_eqI)
     (auto simp: Uint16_def PutUint16_def bit_simps not_less le_diff_conv2)

lemma Uint32_Put [simp]: "Uint32 (PutUint32 v) = v"
proof (rule bit_word_eqI)
  fix n assume n: "n < LENGTH(32)"
  then consider "n < 8" | "8 \<le> n" "n < 16" | "16 \<le> n" "n < 24" | "24 \<le> n" "n < 32" by force
  then show "bit (Uint32 (PutUint32 v)) n = bit v n"
    by cases (simp_all add: Uint32_def PutUint32_def bit_simps less_diff_conv2)
qed

lemma Uint64_Put [simp]: "Uint64 (PutUint64 v) = v"
proof (rule bit_word_eqI)
  fix n assume n: "n < LENGTH(64)"
  then consider "n < 8" | "8 \<le> n" "n < 16" | "16 \<le> n" "n < 24" | "24 \<le> n" "n < 32"
    | "32 \<le> n" "n < 40" | "40 \<le> n" "n < 48" | "48 \<le> n" "n < 56" | "56 \<le> n" "n < 64" by force
  then show "bit (Uint64 (PutUint64 v)) n = bit v n"
    by cases (simp_all add: Uint64_def PutUint64_def bit_simps less_diff_conv2)
qed

lemma PutUint16_Uint16:
  assumes "length b = 2"
  shows "PutUint16 (Uint16 b) = b"
proof -
  from assms obtain x y where b: "b = [x, y]" by (auto simp: length_Suc_conv numeral_2_eq_2)
  have "ucast (drop_bit 8 (Uint16 b)) = x"
    by (rule bit_word_eqI) (auto simp: b Uint16_def bit_simps dest: bit_imp_le_length)
  moreover have "ucast (Uint16 b) = y"
    by (rule bit_word_eqI) (auto simp: b Uint16_def bit_simps dest: bit_imp_le_length)
  ultimately show ?thesis by (simp add: PutUint16_def b)
qed

section \<open>Reading\<close>

definition ReadUint8 :: "reader \<Rightarrow> go_error option \<times> byte \<times> reader" where
  "ReadUint8 r = read_fixed 1 (\<lambda>bytes. bytes ! 0) 0 r"

definition ReadUint32 :: "reader \<Rightarrow> go_error option \<times> u32 \<times> reader" where
  "ReadUint32 r = read_fixed 4 Uint32 0 r"

definition ReadUint16 :: "reader \<Rightarrow> go_error option \<times> u16 \<times> reader" where
  "ReadUint16 r = read_fixed 2 Uint16 0 r"

definition ReadUint64 :: "reader \<Rightarrow> go_error option \<times> u64 \<times> reader" where
  "ReadUint64 r = read_fixed 8 Uint64 0 r"

definition ReadFixedBytes :: "nat \<Rightarrow> reader \<Rightarrow> go_error option \<times> byte list \<times> reader" where
  "ReadFixedBytes len r = read_fixed len (\<lambda>buf. buf) [] r"

text \<open>
  The length prefix is trusted: \<^verbatim>\<open>make([]byte, bufLen)\<close> happens before a byte of the body is
  read, for any of the \<open>2 ^ 32\<close> lengths.
\<close>

definition ReadBytes :: "reader \<Rightarrow> go_error option \<times> byte list \<times> reader" where
  "ReadBytes r =
     (case ReadUint32 r of
        (Some err, bufLen, r') \<Rightarrow> (Some err, [], r')
      | (None, bufLen, r') \<Rightarrow> read_fixed (unat bufLen) (\<lambda>buf. buf) [] r')"

definition ReadString :: "reader \<Rightarrow> go_error option \<times> string \<times> reader" where
  "ReadString r =
     (case ReadBytes r of
        (Some err, buf, r') \<Rightarrow> (Some err, [], r')
      | (None, buf, r') \<Rightarrow> (None, string_of buf, r'))"

section \<open>Writing\<close>

definition WriteUint8 :: "byte \<Rightarrow> writer \<Rightarrow> go_error option \<times> writer" where
  "WriteUint8 val w = Write [val] w"

definition WriteUint16 :: "u16 \<Rightarrow> writer \<Rightarrow> go_error option \<times> writer" where
  "WriteUint16 val w = Write (PutUint16 val) w"

definition WriteUint32 :: "u32 \<Rightarrow> writer \<Rightarrow> go_error option \<times> writer" where
  "WriteUint32 val w = Write (PutUint32 val) w"

definition WriteUint64 :: "u64 \<Rightarrow> writer \<Rightarrow> go_error option \<times> writer" where
  "WriteUint64 val w = Write (PutUint64 val) w"

definition WriteBytes :: "byte list \<Rightarrow> writer \<Rightarrow> go_error option \<times> writer" where
  "WriteBytes buf w =
     (let bufLen = length buf
      in then_write (WriteUint32 (of_nat bufLen)) (Write buf) w)"

definition WriteString :: "string \<Rightarrow> writer \<Rightarrow> go_error option \<times> writer" where
  "WriteString str w = WriteBytes (bytes_of str) w"

section \<open>The formats are codecs\<close>

definition ser_bytes :: "byte list \<Rightarrow> byte list" where
  "ser_bytes buf = PutUint32 (of_nat (length buf)) @ buf"

definition fits32 :: "'a list \<Rightarrow> bool" where
  "fits32 xs \<longleftrightarrow> length xs < 2 ^ 32"

lemma unat_of_nat_fits32: "fits32 xs \<Longrightarrow> unat (of_nat (length xs) :: u32) = length xs"
  by (simp add: fits32_def unat_of_nat)

interpretation cu8: stream_codec WriteUint8 "\<lambda>v. [v]" ReadUint8 "\<lambda>_. True"
  by (rule fixed_width_codec [where n = 1 and conv = "\<lambda>b. b ! 0" and zero = 0])
     (simp_all add: WriteUint8_def ReadUint8_def)

interpretation cu16: stream_codec WriteUint16 PutUint16 ReadUint16 "\<lambda>_. True"
  by (rule fixed_width_codec [where n = 2 and conv = Uint16 and zero = 0])
     (simp_all add: WriteUint16_def ReadUint16_def)

interpretation cu32: stream_codec WriteUint32 PutUint32 ReadUint32 "\<lambda>_. True"
  by (rule fixed_width_codec [where n = 4 and conv = Uint32 and zero = 0])
     (simp_all add: WriteUint32_def ReadUint32_def)

interpretation cu64: stream_codec WriteUint64 PutUint64 ReadUint64 "\<lambda>_. True"
  by (rule fixed_width_codec [where n = 8 and conv = Uint64 and zero = 0])
     (simp_all add: WriteUint64_def ReadUint64_def)

lemma WriteBytes_Write: "WriteBytes buf w = Write (ser_bytes buf) w"
  by (simp add: WriteBytes_def ser_bytes_def Let_def cu32.enc_Write [abs_def] then_write_Write)

lemma ReadUint32_ok:
  assumes "rd_bytes r = PutUint32 v @ rest"
  obtains r' where "ReadUint32 r = (None, v, r')" "rd_bytes r' = rest" "rd_end r' = rd_end r"
  using cu32.dec_stream [OF _ assms] by auto

lemma ReadUint32_short: "length (rd_bytes r) < 4 \<Longrightarrow> fst (ReadUint32 r) = Some (short_error r)"
  using read_fixed_short [of r 4 Uint32 0] by (auto simp: ReadUint32_def)

lemma ReadBytes_buffer:
  "ReadBytes (bytes_buffer bs) =
     (if length bs < 4 then (Some (if bs = [] then EOF else ErrUnexpectedEOF), [], bytes_buffer [])
      else let n = unat (Uint32 (take 4 bs)); body = drop 4 bs
        in if n \<le> length body then (None, take n body, bytes_buffer (drop n body))
           else (Some (if body = [] then EOF else ErrUnexpectedEOF), [], bytes_buffer []))"
  by (simp add: ReadBytes_def ReadUint32_def read_fixed_buffer Let_def)

text \<open>A prefix of a length-prefixed string, cut in the length or in the body, is an error.\<close>

lemma ReadBytes_short:
  assumes "fits32 a" and "ser_bytes a = rd_bytes r @ x # xs"
  shows "fst (ReadBytes r) \<noteq> None"
proof (cases "length (rd_bytes r) < 4")
  case True
  then show ?thesis using ReadUint32_short [of r] by (auto simp: ReadBytes_def split: prod.splits option.splits)
next
  case False
  let ?n = "of_nat (length a) :: u32"
  have "rd_bytes r = take 4 (rd_bytes r) @ drop 4 (rd_bytes r)" by simp
  moreover have "take 4 (rd_bytes r) = PutUint32 ?n"
    using arg_cong [OF assms(2), of "take 4"] False by (simp add: ser_bytes_def)
  ultimately have "rd_bytes r = PutUint32 ?n @ drop 4 (rd_bytes r)" by simp
  then obtain r' where r': "ReadUint32 r = (None, ?n, r')" "rd_bytes r' = drop 4 (rd_bytes r)"
    using ReadUint32_ok by blast
  have "length (rd_bytes r') < length a"
    using arg_cong [OF assms(2), of length] False r'(2) by (simp add: ser_bytes_def)
  then have "length (rd_bytes r') < unat ?n" using unat_of_nat_fits32 [OF assms(1)] by simp
  from read_fixed_short [OF this, of "\<lambda>b. b" "[]"] r'(1) show ?thesis by (auto simp: ReadBytes_def)
qed

lemma ReadBytes_stream:
  assumes "fits32 a" and "rd_bytes r = ser_bytes a @ rest"
  shows "\<exists>r'. ReadBytes r = (None, a, r') \<and> rd_bytes r' = rest \<and> rd_end r' = rd_end r"
proof -
  have "rd_bytes r = PutUint32 (of_nat (length a)) @ (a @ rest)"
    using assms(2) by (simp add: ser_bytes_def)
  then obtain q where q: "ReadUint32 r = (None, of_nat (length a), q)" "rd_bytes q = a @ rest"
    "rd_end q = rd_end r" using ReadUint32_ok by blast
  from read_fixed_ok [OF q(2), of "length a" "\<lambda>b. b" "[]"] q(1,3) unat_of_nat_fits32 [OF assms(1)]
  show ?thesis by (auto simp: ReadBytes_def)
qed

interpretation cbytes: stream_codec WriteBytes ser_bytes ReadBytes fits32
proof unfold_locales
  fix bs
  show "snd (snd (ReadBytes (bytes_buffer bs))) = bytes_buffer (rd_bytes (snd (snd (ReadBytes (bytes_buffer bs)))))"
    by (simp add: ReadBytes_buffer Let_def)
qed (simp_all add: WriteBytes_Write ReadBytes_stream ReadBytes_short)

interpretation cstring: stream_codec WriteString "\<lambda>s. ser_bytes (bytes_of s)" ReadString fits32
proof unfold_locales
  fix a :: string and w
  show "WriteString a w = Write (ser_bytes (bytes_of a)) w"
    by (simp add: WriteString_def WriteBytes_Write)
next
  fix a :: string and r rest
  assume "fits32 a" "rd_bytes r = ser_bytes (bytes_of a) @ rest"
  moreover from this have "fits32 (bytes_of a)" by (simp add: fits32_def)
  ultimately obtain r' where "ReadBytes r = (None, bytes_of a, r')" "rd_bytes r' = rest" "rd_end r' = rd_end r"
    using ReadBytes_stream by blast
  then show "\<exists>r'. ReadString r = (None, a, r') \<and> rd_bytes r' = rest \<and> rd_end r' = rd_end r"
    by (simp add: ReadString_def)
next
  fix a :: string and r x xs
  assume "fits32 a" "ser_bytes (bytes_of a) = rd_bytes r @ x # xs"
  moreover from this have "fits32 (bytes_of a)" by (simp add: fits32_def)
  ultimately have "fst (ReadBytes r) \<noteq> None" using ReadBytes_short by blast
  then show "fst (ReadString r) \<noteq> None" by (auto simp: ReadString_def split: prod.splits option.splits)
next
  fix bs
  show "snd (snd (ReadString (bytes_buffer bs))) = bytes_buffer (rd_bytes (snd (snd (ReadString (bytes_buffer bs)))))"
    by (simp add: ReadString_def ReadBytes_buffer Let_def)
qed

section \<open>Decimal numbers\<close>

definition digit_value :: "char \<Rightarrow> nat option" where
  "digit_value c =
     (let d = of_char c in if 48 \<le> d \<and> d \<le> (57 :: nat) then Some (d - 48) else None)"

text \<open>
  The digits of \<^verbatim>\<open>strconv.Atoi\<close> on a 64-bit machine. A value past \<open>2 ^ 64 - 1\<close> stops the scan
  with a range error, before a later bad character is seen.
\<close>

fun atoi_digits :: "string \<Rightarrow> nat \<Rightarrow> go_error option \<times> nat" where
  "atoi_digits [] n = (None, n)"
| "atoi_digits (c # cs) n =
     (case digit_value c of
        None \<Rightarrow> (Some ErrSyntax, 0)
      | Some d \<Rightarrow> (if 10 * n + d > 2 ^ 64 - 1 then (Some ErrRange, 2 ^ 64 - 1) else atoi_digits cs (10 * n + d)))"

definition Atoi :: "string \<Rightarrow> int \<times> go_error option" where
  "Atoi s =
     (let neg = (s \<noteq> [] \<and> hd s = CHR ''-'');
          ds = (if s \<noteq> [] \<and> (hd s = CHR ''-'' \<or> hd s = CHR ''+'') then tl s else s)
      in if ds = [] then (0, Some ErrSyntax)
         else case atoi_digits ds 0 of
             (Some ErrSyntax, _) \<Rightarrow> (0, Some ErrSyntax)
           | (e, n) \<Rightarrow>
               (if \<not> neg \<and> n \<ge> 2 ^ 63 then (2 ^ 63 - 1, Some ErrRange)
                else if neg \<and> n > 2 ^ 63 then (- (2 ^ 63), Some ErrRange)
                else (if neg then - int n else int n, e)))"

text \<open>Printing a number in decimal, as \<^verbatim>\<open>%v\<close> and \<^verbatim>\<open>strconv.Itoa\<close> do.\<close>

function show_nat :: "nat \<Rightarrow> string" where
  "show_nat n = (if n < 10 then [char_of (48 + n)] else show_nat (n div 10) @ [char_of (48 + n mod 10)])"
  by pat_completeness auto
termination
  by (relation "measure id") auto

declare show_nat.simps [simp del]

lemma digit_value_char_of: "d < 10 \<Longrightarrow> digit_value (char_of (48 + d)) = Some d"
  by (simp add: digit_value_def Let_def)

lemma atoi_digits_append:
  "atoi_digits xs n = (None, m) \<Longrightarrow> atoi_digits (xs @ ys) n = atoi_digits ys m"
  by (induction xs n rule: atoi_digits.induct) (auto split: option.splits if_splits)

lemma atoi_show_nat: "n < 2 ^ 64 \<Longrightarrow> atoi_digits (show_nat n) 0 = (None, n)"
proof (induction n rule: show_nat.induct)
  case (1 n)
  show ?case
  proof (cases "n < 10")
    case True
    then show ?thesis by (simp add: show_nat.simps [of n] digit_value_char_of)
  next
    case False
    with 1 have "atoi_digits (show_nat (n div 10)) 0 = (None, n div 10)" by simp
    then have "atoi_digits (show_nat n) 0 = atoi_digits [char_of (48 + n mod 10)] (n div 10)"
      using False by (subst show_nat.simps) (simp add: atoi_digits_append)
    also have "\<dots> = (None, n)" using "1.prems" by (simp add: digit_value_char_of)
    finally show ?thesis .
  qed
qed

lemma show_nat_head: "\<exists>d ds. show_nat n = char_of (48 + d :: nat) # ds \<and> d < 10"
proof (induction n rule: show_nat.induct)
  case (1 n)
  show ?case
  proof (cases "n < 10")
    case True
    then show ?thesis by (intro exI [of _ n]) (simp add: show_nat.simps [of n])
  next
    case False
    with "1.IH" obtain d ds where "show_nat (n div 10) = char_of (48 + d :: nat) # ds" "d < 10" by blast
    with False show ?thesis by (intro exI [of _ d]) (simp add: show_nat.simps [of n])
  qed
qed

lemma length_show_nat: "0 < k \<Longrightarrow> n < 10 ^ k \<Longrightarrow> length (show_nat n) \<le> k"
proof (induction n arbitrary: k rule: show_nat.induct)
  case (1 n)
  show ?case
  proof (cases "n < 10")
    case True
    with "1.prems" show ?thesis by (simp add: show_nat.simps [of n])
  next
    case False
    obtain j where k: "k = Suc j" using "1.prems"(1) gr0_implies_Suc by blast
    with False "1.prems" have "0 < j" by (cases j) auto
    note j = k this
    with "1.prems" have "n div 10 < 10 ^ j" by (simp add: div_less_iff_less_mult mult.commute)
    with "1.IH" [OF False j(2)] have "length (show_nat (n div 10)) \<le> j" by simp
    with False j(1) show ?thesis by (simp add: show_nat.simps [of n])
  qed
qed

lemma atoi_digits_zeros: "atoi_digits (replicate k CHR ''0'' @ s) 0 = atoi_digits s 0"
  by (induction k) (simp_all add: digit_value_def)

lemma not_sign: "d < 10 \<Longrightarrow> char_of (48 + d :: nat) \<noteq> CHR ''-'' \<and> char_of (48 + d :: nat) \<noteq> CHR ''+''"
  using digit_value_char_of [of d] by (auto simp: digit_value_def simp del: of_char_of)

lemma Atoi_padded:
  assumes "n < 2 ^ 63"
  shows "Atoi (replicate k CHR ''0'' @ show_nat n) = (int n, None)"
proof -
  let ?s = "replicate k CHR ''0'' @ show_nat n"
  obtain d ds where s: "show_nat n = char_of (48 + d :: nat) # ds" "d < 10" using show_nat_head by blast
  have hd: "?s \<noteq> []" "hd ?s \<noteq> CHR ''-''" "hd ?s \<noteq> CHR ''+''"
    using s not_sign by (cases k; auto)+
  have "atoi_digits ?s 0 = (None, n)" using atoi_show_nat [of n] assms by (simp add: atoi_digits_zeros)
  with hd assms show ?thesis by (simp add: Atoi_def Let_def)
qed

section \<open>Server ids\<close>

text \<open>A SID is a \<^verbatim>\<open>[8]byte\<close>: the list of its bytes, of length 8 in every value the code builds.\<close>

type_synonym sid = "byte list"

definition NilSID :: sid where
  "NilSID = [0, 0, 0, 0, 0, 0, 0, 0]"

definition wf_SID :: "sid \<Rightarrow> bool" where
  "wf_SID s \<longleftrightarrow> length s = 8"

definition NodeWebsocketGateway :: string where "NodeWebsocketGateway = ''WG''"
definition NodeHttpGateway :: string where "NodeHttpGateway = ''HG''"
definition NodeLogicServer :: string where "NodeLogicServer = ''LS''"

definition SIDBytes :: "byte list \<Rightarrow> sid \<times> go_error option" where
  "SIDBytes b = (if length b \<noteq> 8 then (NilSID, Some ErrSIDLengthWrong) else (overlay NilSID b, None))"

definition ParseSID :: "string \<Rightarrow> sid \<times> go_error option" where
  "ParseSID val = (if length val \<noteq> 8 then (NilSID, Some ErrSIDLengthWrong) else (overlay NilSID (bytes_of val), None))"

definition SID_Type :: "sid \<Rightarrow> string" where
  "SID_Type s = string_of (take 2 s)"

definition SID_Area :: "sid \<Rightarrow> u16" where
  "SID_Area s = (let (area, _) = Atoi (string_of (take 2 (drop 2 s))) in of_int area)"

definition SID_NodeID :: "sid \<Rightarrow> u32" where
  "SID_NodeID s = (let (nid, _) = Atoi (string_of (take 4 (drop 4 s))) in of_int nid)"

definition SID_String :: "sid \<Rightarrow> string" where
  "SID_String s = string_of s"

text \<open>On an error the receiver keeps its bytes.\<close>

definition SID_Decode :: "sid \<Rightarrow> reader \<Rightarrow> go_error option \<times> sid \<times> reader" where
  "SID_Decode s r =
     (case io_ReadFull 8 r of
        (buf, Some err, r') \<Rightarrow> (Some err, s, r')
      | (buf, None, r') \<Rightarrow> (None, overlay s buf, r'))"

definition SID_Encode :: "sid \<Rightarrow> writer \<Rightarrow> go_error option \<times> writer" where
  "SID_Encode s w = then_write (Write s) (\<lambda>w. (None, w)) w"

lemma length_NilSID [simp]: "length NilSID = 8"
  by (simp add: NilSID_def)

lemma ParseSID_SIDBytes: "ParseSID val = SIDBytes (bytes_of val)"
  by (simp add: ParseSID_def SIDBytes_def)

lemma SIDBytes_ok: "snd (SIDBytes b) = None \<longleftrightarrow> length b = 8"
  by (simp add: SIDBytes_def)

lemma wf_SIDBytes: "wf_SID (fst (SIDBytes b))"
  by (simp add: SIDBytes_def wf_SID_def)

lemma SID_Decode_read_fixed:
  assumes "wf_SID s"
  shows "SID_Decode s r = read_fixed 8 (\<lambda>b. b) s r"
  using assms
  by (cases rule: io_ReadFull_cases [of 8 r]) (auto simp: SID_Decode_def read_fixed_def wf_SID_def)

interpretation csid: stream_codec SID_Encode "\<lambda>s. s" "SID_Decode NilSID" wf_SID
  by (rule fixed_width_codec [where n = 8 and conv = "\<lambda>b. b" and zero = NilSID])
     (simp_all add: SID_Encode_def then_write_Nil wf_SID_def SID_Decode_read_fixed)

lemma string_of_take [simp]: "string_of (take n b) = take n (string_of b)"
  and string_of_drop [simp]: "string_of (drop n b) = drop n (string_of b)"
  by (simp_all add: string_of_def take_map drop_map)

text \<open>
  The ids as \<^verbatim>\<open>wire/common_test.go\<close> writes them: a two-letter node type, a two-digit area and
  a four-digit node number.
\<close>

definition pad :: "nat \<Rightarrow> nat \<Rightarrow> string" where
  "pad k n = replicate (k - length (show_nat n)) CHR ''0'' @ show_nat n"

definition sid_text :: "string \<Rightarrow> nat \<Rightarrow> nat \<Rightarrow> string" where
  "sid_text ty area node = ty @ pad 2 area @ pad 4 node"

lemma length_pad: "0 < k \<Longrightarrow> n < 10 ^ k \<Longrightarrow> length (pad k n) = k"
  using length_show_nat [of k n] by (simp add: pad_def)

lemma Atoi_pad: "n < 2 ^ 63 \<Longrightarrow> Atoi (pad k n) = (int n, None)"
  by (simp add: pad_def Atoi_padded)

text \<open>A server id printed from a node type, an area and a node number parses back to its
  three parts: \<^verbatim>\<open>ParseSID\<close> accepts it, \<^verbatim>\<open>Type\<close>, \<^verbatim>\<open>Area\<close> and \<^verbatim>\<open>NodeID\<close> return what was printed, and
  \<^verbatim>\<open>String\<close> prints it again.\<close>
theorem SID_fields_roundtrip:
  assumes "length ty = 2" and "area < 100" and "node < 10000"
  shows "\<exists>s. ParseSID (sid_text ty area node) = (s, None) \<and> wf_SID s \<and> SID_Type s = ty \<and>
    SID_Area s = of_nat area \<and> SID_NodeID s = of_nat node \<and> SID_String s = sid_text ty area node"
proof -
  let ?t = "sid_text ty area node"
  have l: "length (pad 2 area) = 2" "length (pad 4 node) = 4" using assms length_pad by simp_all
  then have len: "length ?t = 8" using assms(1) by (simp add: sid_text_def)
  have parts: "take 2 ?t = ty" "take 2 (drop 2 ?t) = pad 2 area" "take 4 (drop 4 ?t) = pad 4 node"
    using assms(1) l by (simp_all add: sid_text_def)
  have "ParseSID ?t = (bytes_of ?t, None)" "wf_SID (bytes_of ?t)"
    using len by (simp_all add: ParseSID_def wf_SID_def)
  moreover have "SID_Type (bytes_of ?t) = ty" "SID_String (bytes_of ?t) = ?t"
    by (simp_all add: SID_Type_def SID_String_def parts)
  moreover have "SID_Area (bytes_of ?t) = of_nat area" "SID_NodeID (bytes_of ?t) = of_nat node"
    using assms by (simp_all add: SID_Area_def SID_NodeID_def parts Atoi_pad)
  ultimately show ?thesis by blast
qed

lemma SID_fields_roundtrip_witness:
  "\<exists>s. ParseSID (sid_text ''LS'' 1 1) = (s, None) \<and> wf_SID s \<and> SID_Type s = ''LS'' \<and>
    SID_Area s = of_nat 1 \<and> SID_NodeID s = of_nat 1 \<and> SID_String s = sid_text ''LS'' 1 1"
  by (rule SID_fields_roundtrip) simp_all

text \<open>An id whose area is not two digits is accepted all the same: a sign is read, and the
  number wraps.\<close>

lemma SID_Area_negative: "ParseSID ''LS-10001'' = (bytes_of ''LS-10001'', None) \<and> SID_Area (bytes_of ''LS-10001'') = 65535"
  by (simp add: ParseSID_def SID_Area_def Atoi_def digit_value_def Let_def)

end
