(* ===== verification/WireMessage.thy ===== *)
theory WireMessage
  imports WireCommon
begin

text \<open>
  \<^verbatim>\<open>wire/message.go\<close>, first half: protocol ids, ack codes, the ten-byte client header and the
  client message. A header is the list of its bytes; a \<^verbatim>\<open>*Header\<close> method that writes returns
  the new header.
\<close>

section \<open>Protocol ids and ack codes\<close>

type_synonym pid = byte
type_synonym ack_code = byte

definition AckCodeOk :: ack_code where [simp]: "AckCodeOk = 0x00"
definition AckCodeReceiverOffline :: ack_code where [simp]: "AckCodeReceiverOffline = 0x01"
definition AckCodeBeRejected :: ack_code where [simp]: "AckCodeBeRejected = 0x10"
definition AckCodeGroupBeMuted :: ack_code where [simp]: "AckCodeGroupBeMuted = 0x11"
definition AckCodeGroupNoFound :: ack_code where [simp]: "AckCodeGroupNoFound = 0x12"
definition AckCodeHitSensitiveWord :: ack_code where [simp]: "AckCodeHitSensitiveWord = 0x13"
definition AckCodeServerErr :: ack_code where [simp]: "AckCodeServerErr = 0x50"
definition AckCodeSessionLost :: ack_code where [simp]: "AckCodeSessionLost = 0x51"

definition AckCode_String :: "ack_code \<Rightarrow> string" where
  "AckCode_String a =
     (if a = AckCodeOk then ''Ok(0x00)''
      else if a = AckCodeReceiverOffline then ''ReceiverOffline(0x01)''
      else if a = AckCodeBeRejected then ''BeRejected(0x10)''
      else if a = AckCodeGroupBeMuted then ''GroupBeMuted(0x11)''
      else if a = AckCodeGroupNoFound then ''GroupNoFound(0x12)''
      else if a = AckCodeHitSensitiveWord then ''HitSensitiveWord(0x13)''
      else if a = AckCodeServerErr then ''ServerErr(0x50)''
      else if a = AckCodeSessionLost then ''SessionLost(0x51)''
      else [])"

definition PIDLogin :: pid where [simp]: "PIDLogin = 0x01"
definition PIDLoginACK :: pid where [simp]: "PIDLoginACK = 0x02"
definition PIDKickOut :: pid where [simp]: "PIDKickOut = 0x03"
definition PIDLogout :: pid where [simp]: "PIDLogout = 0x04"
definition PIDPing :: pid where [simp]: "PIDPing = 0x05"
definition PIDPong :: pid where [simp]: "PIDPong = 0x06"
definition PIDChat :: pid where [simp]: "PIDChat = 0x11"
definition PIDChatAck :: pid where [simp]: "PIDChatAck = 0x12"
definition PIDChatPush :: pid where [simp]: "PIDChatPush = 0x13"
definition PIDChatPushAck :: pid where [simp]: "PIDChatPushAck = 0x14"
definition PIDChatSync :: pid where [simp]: "PIDChatSync = 0x15"
definition PIDChatGroup :: pid where [simp]: "PIDChatGroup = 0x16"
definition PIDChatGroupAck :: pid where [simp]: "PIDChatGroupAck = 0x17"
definition PIDChatGroupPush :: pid where [simp]: "PIDChatGroupPush = 0x18"
definition PIDChatGroupPushAck :: pid where [simp]: "PIDChatGroupPushAck = 0x19"

definition ProtocolMap :: "(pid, string) gomap" where
  "ProtocolMap =
     [(PIDLogin, ''Login''), (PIDLoginACK, ''LoginACK''), (PIDKickOut, ''KickOut''),
      (PIDLogout, ''Logout''), (PIDPing, ''Ping''), (PIDPong, ''Pong''), (PIDChat, ''Chat''),
      (PIDChatAck, ''ChatAck''), (PIDChatPush, ''ChatPush''), (PIDChatPushAck, ''PushAck''),
      (PIDChatSync, ''ChatSync''), (PIDChatGroup, ''ChatGroupReq''), (PIDChatGroupAck, ''ChatGroupAck''),
      (PIDChatGroupPush, ''ChatGroupPush''), (PIDChatGroupPushAck, ''ChatGroupPushAck'')]"

definition IsProtocol :: "pid \<Rightarrow> bool" where
  "IsProtocol p = (map_of ProtocolMap p \<noteq> None)"

definition PID_String :: "pid \<Rightarrow> string" where
  "PID_String p =
     (case map_of ProtocolMap p of
        Some name \<Rightarrow> show_nat (unat p) @ ''_'' @ name
      | None \<Rightarrow> show_nat (unat p))"

lemma IsProtocol_iff:
  "IsProtocol p \<longleftrightarrow> p \<in> {0x01, 0x02, 0x03, 0x04, 0x05, 0x06, 0x11, 0x12, 0x13, 0x14, 0x15, 0x16, 0x17, 0x18, 0x19}"
  by (simp add: IsProtocol_def ProtocolMap_def)

section \<open>The header\<close>

type_synonym header = "byte list"

definition wf_header :: "header \<Rightarrow> bool" where
  "wf_header h \<longleftrightarrow> length h = 10"

definition zero_header :: header where
  "zero_header = replicate 10 0"

text \<open>\<^verbatim>\<open>h[i:j]\<close>, and \<^verbatim>\<open>copy(h[i:], bs)\<close> of a source that fits.\<close>

definition slice :: "nat \<Rightarrow> nat \<Rightarrow> 'a list \<Rightarrow> 'a list" where
  "slice i j h = take (j - i) (drop i h)"

definition put_at :: "nat \<Rightarrow> 'a list \<Rightarrow> 'a list \<Rightarrow> 'a list" where
  "put_at i bs h = take i h @ bs @ drop (i + length bs) h"

definition GetPID :: "header \<Rightarrow> pid" where
  "GetPID h = h ! 0"

definition GetSequence :: "header \<Rightarrow> u16" where
  "GetSequence h = Uint16 (slice 1 3 h)"

definition SetSequence :: "u16 \<Rightarrow> header \<Rightarrow> header" where
  "SetSequence seq h = put_at 1 (PutUint16 seq) h"

definition GetSequenceAck :: "header \<Rightarrow> u16" where
  "GetSequenceAck h = Uint16 (slice 3 5 h)"

definition SetSequenceAck :: "u16 \<Rightarrow> header \<Rightarrow> header" where
  "SetSequenceAck ack h = put_at 3 (PutUint16 ack) h"

definition GetPayloadLen :: "header \<Rightarrow> u16" where
  "GetPayloadLen h = Uint16 (slice 5 7 h)"

definition SetPayloadLen :: "u16 \<Rightarrow> header \<Rightarrow> header" where
  "SetPayloadLen len h = put_at 5 (PutUint16 len) h"

definition GetAckCode :: "header \<Rightarrow> ack_code" where
  "GetAckCode h = h ! 9"

text \<open>One \<^verbatim>\<open>Read\<close>, whose length nobody looks at: a short read leaves the tail of the receiver.\<close>

definition Header_Decode :: "header \<Rightarrow> reader \<Rightarrow> go_error option \<times> header \<times> reader" where
  "Header_Decode h r = (case Read 10 r of (d, err, r') \<Rightarrow> (err, overlay h d, r'))"

definition Header_Encode :: "header \<Rightarrow> writer \<Rightarrow> go_error option \<times> writer" where
  "Header_Encode h w = Write h w"

definition Header_String :: "header \<Rightarrow> string" where
  "Header_String h = ''PID:'' @ PID_String (GetPID h) @ '',Seq:'' @ show_nat (unat (GetSequence h)) @
     '',SeqAck:'' @ show_nat (unat (GetSequenceAck h)) @ '',AckCode:'' @ AckCode_String (GetAckCode h) @
     '',Len:'' @ show_nat (unat (GetPayloadLen h))"

lemma wf_headerE:
  assumes "wf_header h"
  obtains b0 b1 b2 b3 b4 b5 b6 b7 b8 b9 where "h = [b0, b1, b2, b3, b4, b5, b6, b7, b8, b9]"
  using assms by (auto simp: wf_header_def length_Suc_conv eval_nat_numeral)

lemmas header_access = GetPID_def GetSequence_def GetSequenceAck_def GetPayloadLen_def GetAckCode_def
  SetSequence_def SetSequenceAck_def SetPayloadLen_def slice_def put_at_def

lemma wf_zero_header [simp, intro]: "wf_header zero_header"
  by (simp add: wf_header_def zero_header_def)

lemma wf_header_set [simp, intro]:
  assumes "wf_header h"
  shows "wf_header (SetSequence s h)" "wf_header (SetSequenceAck s h)" "wf_header (SetPayloadLen s h)"
  using assms by (simp_all add: wf_header_def SetSequence_def SetSequenceAck_def SetPayloadLen_def put_at_def)

lemma zero_header_bytes: "zero_header = [0, 0, 0, 0, 0, 0, 0, 0, 0, 0]"
  by (simp add: zero_header_def eval_nat_numeral)

lemma Uint16_zero: "Uint16 [0, 0] = 0"
  by (simp add: Uint16_def)

lemma Uint16_pair [simp]: "Uint16 [ucast (drop_bit 8 v), ucast v] = v"
  using Uint16_Put [of v] by (simp add: PutUint16_def)

text \<open>The fields of a client header do not overlap: each setter changes the field it is named
  after, to the value given, and leaves every other field as it was; the header keeps its ten bytes.\<close>
theorem header_fields_independent:
  assumes "wf_header h"
  shows "GetSequence (SetSequence v h) = v \<and> GetSequenceAck (SetSequence v h) = GetSequenceAck h \<and>
      GetPayloadLen (SetSequence v h) = GetPayloadLen h \<and> GetPID (SetSequence v h) = GetPID h \<and>
      GetAckCode (SetSequence v h) = GetAckCode h \<and> wf_header (SetSequence v h) \<and>
    GetSequenceAck (SetSequenceAck v h) = v \<and> GetSequence (SetSequenceAck v h) = GetSequence h \<and>
      GetPayloadLen (SetSequenceAck v h) = GetPayloadLen h \<and> GetPID (SetSequenceAck v h) = GetPID h \<and>
      GetAckCode (SetSequenceAck v h) = GetAckCode h \<and> wf_header (SetSequenceAck v h) \<and>
    GetPayloadLen (SetPayloadLen v h) = v \<and> GetSequence (SetPayloadLen v h) = GetSequence h \<and>
      GetSequenceAck (SetPayloadLen v h) = GetSequenceAck h \<and> GetPID (SetPayloadLen v h) = GetPID h \<and>
      GetAckCode (SetPayloadLen v h) = GetAckCode h \<and> wf_header (SetPayloadLen v h)"
  using assms by (elim wf_headerE) (simp add: header_access PutUint16_def wf_header_def)

lemma header_fields_independent_witness:
  "GetSequence (SetSequence 513 zero_header) = 513 \<and> GetPayloadLen (SetSequence 513 zero_header) = GetPayloadLen zero_header"
  using header_fields_independent [OF wf_zero_header, of 513] by simp

section \<open>The message\<close>

record message =
  msg_Header :: header
  msg_Payload :: "byte list"

definition zero_message :: message where
  "zero_message = \<lparr>msg_Header = zero_header, msg_Payload = []\<rparr>"

definition NewMessage :: "pid \<Rightarrow> u16 \<Rightarrow> message" where
  "NewMessage protocolID sequence =
     (let header = put_at 1 (PutUint16 sequence) (zero_header[0 := protocolID])
      in zero_message\<lparr>msg_Header := header\<rparr>)"

definition NewErrMessage :: "pid \<Rightarrow> u16 \<Rightarrow> ack_code \<Rightarrow> message" where
  "NewErrMessage protocolID sequence errCode =
     (let header = put_at 1 (PutUint16 sequence) (zero_header[0 := protocolID, 9 := errCode])
      in zero_message\<lparr>msg_Header := header\<rparr>)"

definition Message_Decode :: "message \<Rightarrow> reader \<Rightarrow> go_error option \<times> message \<times> reader" where
  "Message_Decode m r =
     (case Header_Decode (msg_Header m) r of
        (Some err, h, r1) \<Rightarrow> (Some err, m\<lparr>msg_Header := h\<rparr>, r1)
      | (None, h, r1) \<Rightarrow>
          (let m1 = m\<lparr>msg_Header := h\<rparr>
           in if GetPayloadLen h = 0 then (None, m1, r1)
              else let buf = replicate (unat (GetPayloadLen h)) 0
                in case Read (length buf) r1 of
                     (d, err, r2) \<Rightarrow> (err, m1\<lparr>msg_Payload := overlay buf d\<rparr>, r2)))"

definition Message_Encode :: "message \<Rightarrow> writer \<Rightarrow> go_error option \<times> writer" where
  "Message_Encode m w =
     then_write (Header_Encode (msg_Header m))
       (\<lambda>w. if length (msg_Payload m) = 0 then (None, w) else Write (msg_Payload m) w) w"

definition Message_Bytes :: "message \<Rightarrow> byte list" where
  "Message_Bytes m = wr_out (snd (Message_Encode m new_buffer))"

definition Ping :: "byte list" where
  "Ping = [PIDPing, 0, 0, 0, 0, 0, 0, 0, 0, 0]"

definition Pong :: "byte list" where
  "Pong = [PIDPong, 0, 0, 0, 0, 0, 0, 0, 0, 0]"

text \<open>A message whose header tells the length of its payload, which is what the code sends.\<close>

definition wf_message :: "message \<Rightarrow> bool" where
  "wf_message m \<longleftrightarrow> wf_header (msg_Header m) \<and> length (msg_Payload m) = unat (GetPayloadLen (msg_Header m))"

definition ser_message :: "message \<Rightarrow> byte list" where
  "ser_message m = msg_Header m @ msg_Payload m"

lemma Message_Encode_Write: "Message_Encode m w = Write (ser_message m) w"
proof -
  have "(\<lambda>w. if length (msg_Payload m) = 0 then (None, w) else Write (msg_Payload m) w) = Write (msg_Payload m)"
    by (rule ext) auto
  then show ?thesis
    by (simp add: Message_Encode_def Header_Encode_def [abs_def] then_write_Write ser_message_def)
qed

lemma Message_Bytes_ser: "Message_Bytes m = ser_message m"
  by (simp add: Message_Bytes_def Message_Encode_Write)

lemma wf_zero_message [simp]: "wf_header (msg_Header zero_message)" "msg_Payload zero_message = []"
  by (simp_all add: zero_message_def)

lemma Header_Decode_buffer:
  "wf_header h \<Longrightarrow> bs \<noteq> [] \<Longrightarrow>
   Header_Decode h (bytes_buffer bs) = (None, overlay h (take 10 bs), bytes_buffer (drop 10 bs))"
  by (simp add: Header_Decode_def Read_buffer)

lemma Message_Decode_empty: "fst (Message_Decode m (bytes_buffer [])) = Some EOF"
  by (simp add: Message_Decode_def Header_Decode_def Read_buffer)

text \<open>
  Decoding from a buffer, with every way it can come up short: only an empty buffer, or a
  buffer that is empty when the payload is due, is an error.
\<close>

lemma Message_Decode_buffer:
  assumes "wf_header (msg_Header m)" and "bs \<noteq> []"
  shows "Message_Decode m (bytes_buffer bs) =
    (let h = overlay (msg_Header m) (take 10 bs); n = unat (GetPayloadLen h); rest = drop 10 bs
     in if n = 0 then (None, m\<lparr>msg_Header := h\<rparr>, bytes_buffer rest)
        else if rest = [] then (Some EOF, m\<lparr>msg_Header := h, msg_Payload := replicate n 0\<rparr>, bytes_buffer [])
        else (None, m\<lparr>msg_Header := h, msg_Payload := overlay (replicate n 0) (take n rest)\<rparr>, bytes_buffer (drop n rest)))"
  using assms
  by (simp add: Message_Decode_def Header_Decode_buffer Read_buffer Let_def unat_eq_zero overlay_def)

lemma Message_Decode_parts:
  assumes "wf_header (msg_Header m)" and "bs \<noteq> []"
    and "overlay (msg_Header m) (take 10 bs) = h" and "drop 10 bs = rest"
  shows "Message_Decode m (bytes_buffer bs) =
    (let n = unat (GetPayloadLen h)
     in if n = 0 then (None, m\<lparr>msg_Header := h\<rparr>, bytes_buffer rest)
        else if rest = [] then (Some EOF, m\<lparr>msg_Header := h, msg_Payload := replicate n 0\<rparr>, bytes_buffer [])
        else (None, m\<lparr>msg_Header := h, msg_Payload := overlay (replicate n 0) (take n rest)\<rparr>, bytes_buffer (drop n rest)))"
  using Message_Decode_buffer [OF assms(1,2)] by (simp only: assms(3,4) Let_def)

lemma Message_Decode_ser:
  assumes "wf_message m" and "wf_header (msg_Header z)" and "msg_Payload z = []"
  shows "Message_Decode z (bytes_buffer (ser_message m @ rest)) = (None, m, bytes_buffer rest)"
proof -
  have l: "length (msg_Header m) = 10" "length (msg_Header z) = 10"
    using assms by (simp_all add: wf_message_def wf_header_def)
  have ne: "ser_message m @ rest \<noteq> []" using l by (auto simp: ser_message_def)
  have h: "overlay (msg_Header z) (take 10 (ser_message m @ rest)) = msg_Header m"
    "drop 10 (ser_message m @ rest) = msg_Payload m @ rest"
    using l by (simp_all add: ser_message_def)
  have p: "length (msg_Payload m) = unat (GetPayloadLen (msg_Header m))" using assms(1) by (simp add: wf_message_def)
  show ?thesis
  proof (cases "msg_Payload m = []")
    case True
    with p assms(3) show ?thesis
      by (subst Message_Decode_parts [OF assms(2) ne h]) (simp add: Let_def)
  next
    case False
    then have "0 < unat (GetPayloadLen (msg_Header m))" unfolding p [symmetric] by simp
    with False show ?thesis
      by (subst Message_Decode_parts [OF assms(2) ne h]) (simp add: Let_def p [symmetric] overlay_def)
  qed
qed

interpretation cmsg: buffer_codec Message_Encode ser_message "Message_Decode zero_message" wf_message
  by unfold_locales (simp_all add: Message_Encode_Write Message_Decode_ser)

lemma wf_Ping_Pong: "wf_message \<lparr>msg_Header = Ping, msg_Payload = []\<rparr>" "wf_message \<lparr>msg_Header = Pong, msg_Payload = []\<rparr>"
  by (simp_all add: wf_message_def wf_header_def Ping_def Pong_def header_access Uint16_def)

lemma NewMessage_fields [simp]:
  "GetPID (msg_Header (NewMessage p s)) = p" "GetSequence (msg_Header (NewMessage p s)) = s"
  "wf_message (NewMessage p s)" "msg_Payload (NewMessage p s) = []"
  by (simp_all add: NewMessage_def zero_message_def zero_header_bytes header_access
      PutUint16_def wf_message_def wf_header_def Uint16_zero)

text \<open>Constructors of client messages: \<^verbatim>\<open>NewMessage\<close> and \<^verbatim>\<open>NewErrMessage\<close> carry the protocol id,
  the sequence number and the ack code they were given, acknowledge nothing, and announce the empty
  payload they hold.\<close>
theorem new_message_fields:
  "GetPID (msg_Header (NewMessage p s)) = p \<and> GetSequence (msg_Header (NewMessage p s)) = s \<and>
    GetSequenceAck (msg_Header (NewMessage p s)) = 0 \<and> GetAckCode (msg_Header (NewMessage p s)) = AckCodeOk \<and>
    wf_message (NewMessage p s) \<and> msg_Payload (NewMessage p s) = [] \<and>
   GetPID (msg_Header (NewErrMessage p s a)) = p \<and> GetSequence (msg_Header (NewErrMessage p s a)) = s \<and>
    GetSequenceAck (msg_Header (NewErrMessage p s a)) = 0 \<and> GetAckCode (msg_Header (NewErrMessage p s a)) = a \<and>
    wf_message (NewErrMessage p s a) \<and> msg_Payload (NewErrMessage p s a) = []"
  by (simp add: NewMessage_def NewErrMessage_def zero_message_def zero_header_bytes header_access
      PutUint16_def wf_message_def wf_header_def Uint16_zero)

text \<open>C12: A client message survives the wire: what \<^verbatim>\<open>Encode\<close> writes, with any bytes behind it, \<^verbatim>\<open>Decode\<close>
  reads back as the same message, leaving exactly those bytes in the buffer. \<^verbatim>\<open>Encode\<close> reports an error
  iff the writer did not take everything, and then has written a proper prefix.\<close>
theorem message_roundtrip:
  assumes "wf_message m"
  shows "Message_Decode zero_message (bytes_buffer (Message_Bytes m @ rest)) = (None, m, bytes_buffer rest) \<and>
    (\<exists>p q. Message_Bytes m = p @ q \<and> wr_out (snd (Message_Encode m w)) = wr_out w @ p \<and>
      (fst (Message_Encode m w) = None \<longleftrightarrow> q = []))"
  using cmsg.dec_buffer [OF assms, of rest] cmsg.enc_partial [of m w "fst (Message_Encode m w)" "snd (Message_Encode m w)"]
  by (simp add: Message_Bytes_ser)

lemma message_roundtrip_witness:
  "fst (Message_Decode zero_message (bytes_buffer (Message_Bytes \<lparr>msg_Header = Pong, msg_Payload = []\<rparr> @ [7]))) = None"
  using message_roundtrip [OF wf_Ping_Pong(2), of "[7]"] by simp

lemma truncated_header_accepted:
  assumes "bs \<noteq> []" and l: "length bs < 7" and z: "length bs \<le> 5 \<or> bs ! 5 = 0"
  shows "Message_Decode zero_message (bytes_buffer bs) =
        (None, \<lparr>msg_Header = bs @ replicate (10 - length bs) 0, msg_Payload = []\<rparr>, bytes_buffer [])"
proof -
  have ov: "overlay (msg_Header zero_message) (take 10 bs) = bs @ replicate (10 - length bs) 0"
    using l by (simp add: overlay_def zero_message_def zero_header_def)
  have "slice 5 7 (bs @ replicate (10 - length bs) 0) = [0, 0]"
    using l z by (auto simp: slice_def list_eq_iff_nth_eq nth_append less_Suc_eq numeral_2_eq_2)
  then have "GetPayloadLen (bs @ replicate (10 - length bs) 0) = 0"
    by (simp add: GetPayloadLen_def Uint16_def)
  then show ?thesis
    using l by (subst Message_Decode_parts [OF wf_zero_message(1) assms(1) ov refl]) (simp add: Let_def zero_message_def)
qed

lemma truncated_payload_accepted:
  assumes "bs \<noteq> []" and h: "wf_header h" and l: "length bs \<le> unat (GetPayloadLen h)"
  shows "Message_Decode zero_message (bytes_buffer (h @ bs)) =
        (None, \<lparr>msg_Header = h, msg_Payload = bs @ replicate (unat (GetPayloadLen h) - length bs) 0\<rparr>, bytes_buffer [])"
proof -
  have ov: "overlay (msg_Header zero_message) (take 10 (h @ bs)) = h" "drop 10 (h @ bs) = bs" "h @ bs \<noteq> []"
    using h assms(1) by (simp_all add: wf_header_def zero_message_def zero_header_def)
  have "0 < unat (GetPayloadLen h)" using l assms(1) by (cases bs) auto
  with l assms(1) show ?thesis
    by (subst Message_Decode_parts [OF wf_zero_message(1) ov(3) ov(1,2)])
      (auto simp add: Let_def overlay_def zero_message_def)
qed

text \<open>\<^verbatim>\<open>Decode\<close> does not notice a message that was cut short: any non-empty part of a header is
  accepted, with zeros for the missing bytes, and so is any non-empty part of the announced payload.\<close>
theorem truncated_message_accepted:
  assumes "bs \<noteq> []"
  shows "(length bs < 7 \<and> (length bs \<le> 5 \<or> bs ! 5 = 0) \<longrightarrow>
      Message_Decode zero_message (bytes_buffer bs) =
        (None, \<lparr>msg_Header = bs @ replicate (10 - length bs) 0, msg_Payload = []\<rparr>, bytes_buffer [])) \<and>
    (wf_header h \<and> length bs \<le> unat (GetPayloadLen h) \<longrightarrow>
      Message_Decode zero_message (bytes_buffer (h @ bs)) =
        (None, \<lparr>msg_Header = h, msg_Payload = bs @ replicate (unat (GetPayloadLen h) - length bs) 0\<rparr>, bytes_buffer []))"
  by (intro conjI impI) (use assms truncated_header_accepted truncated_payload_accepted in auto)

lemma truncated_message_accepted_witness:
  "Message_Decode zero_message (bytes_buffer [0x11, 0, 9]) =
    (None, \<lparr>msg_Header = [0x11, 0, 9] @ replicate (10 - length [0x11 :: byte, 0, 9]) 0, msg_Payload = []\<rparr>, bytes_buffer [])"
  using truncated_message_accepted [of "[0x11, 0, 9]"] by simp

end
