(* ===== verification/WireEntity.thy ===== *)
theory WireEntity
  imports WireMessage
begin

text \<open>
  The entities of \<^verbatim>\<open>wire/entity.pb.go\<close> and \<^verbatim>\<open>wire/common.pb.go\<close> that a client message can
  carry, as data, and the part of \<^verbatim>\<open>wire/message.go\<close> that packs and unpacks them. Protocol
  buffers is a third-party package: \<open>proto_api\<close> is its \<^verbatim>\<open>Marshal\<close> and \<^verbatim>\<open>Unmarshal\<close>, and
  \<open>proto_pkg\<close> what its documentation promises.
\<close>

section \<open>Entities\<close>

definition DeviceType_value :: "(string, i32) gomap" where
  "DeviceType_value = [(''PHONE'', 0), (''PAD'', 1), (''PC'', 2), (''WEB'', 3), (''BACKEND'', 4)]"

datatype ChatType = SELF | CHAT | GROUP | OtherChatType i32

record Payload =
  pl_MsgType :: u32
  pl_Content :: string
  pl_Extra :: string

record ChatReq =
  cr_To :: string
  cr_NotStore :: bool
  cr_Payload :: "Payload option"

record ChatAck =
  ca_MsgId :: u64
  ca_SendTime :: u64

record ChatPush =
  cp_MsgId :: u64
  cp_From :: string
  cp_To :: string
  cp_SendTime :: u64
  cp_Payload :: "Payload option"
  cp_ChatType :: ChatType

record ChatPushAck =
  cpa_MsgIds :: "u64 list"

record ChatSync =
  cs_MsgId :: u64
  cs_ChatType :: ChatType
  cs_To :: string
  cs_Device :: i32
  cs_SendTime :: u64
  cs_Payload :: "Payload option"

record LoginReq =
  lr_GatewayId :: string
  lr_PeerId :: string
  lr_AppKey :: string
  lr_Username :: string
  lr_Device :: i32
  lr_RemoteIp :: string

record LoginAck =
  la_PeerId :: string
  la_UserUid :: string

record KickOut =
  ko_PeerId :: string

record LogoutReq =
  lo_PeerId :: string

datatype entity =
    E_LoginReq LoginReq | E_LoginAck LoginAck | E_KickOut KickOut | E_LogoutReq LogoutReq
  | E_ChatReq ChatReq | E_ChatAck ChatAck | E_ChatPush ChatPush | E_ChatPushAck ChatPushAck
  | E_ChatSync ChatSync

text \<open>\<^verbatim>\<open>new(T)\<close> for the type of an entity: all fields zero.\<close>

definition new_LoginReq :: entity where
  [simp]: "new_LoginReq = E_LoginReq \<lparr>lr_GatewayId = [], lr_PeerId = [], lr_AppKey = [], lr_Username = [], lr_Device = 0, lr_RemoteIp = []\<rparr>"

definition new_LoginAck :: entity where
  [simp]: "new_LoginAck = E_LoginAck \<lparr>la_PeerId = [], la_UserUid = []\<rparr>"

definition new_KickOut :: entity where
  [simp]: "new_KickOut = E_KickOut \<lparr>ko_PeerId = []\<rparr>"

definition new_LogoutReq :: entity where
  [simp]: "new_LogoutReq = E_LogoutReq \<lparr>lo_PeerId = []\<rparr>"

definition new_ChatReq :: entity where
  [simp]: "new_ChatReq = E_ChatReq \<lparr>cr_To = [], cr_NotStore = False, cr_Payload = None\<rparr>"

definition new_ChatAck :: entity where
  [simp]: "new_ChatAck = E_ChatAck \<lparr>ca_MsgId = 0, ca_SendTime = 0\<rparr>"

definition new_ChatPush :: entity where
  [simp]: "new_ChatPush = E_ChatPush \<lparr>cp_MsgId = 0, cp_From = [], cp_To = [], cp_SendTime = 0, cp_Payload = None, cp_ChatType = SELF\<rparr>"

definition new_ChatPushAck :: entity where
  [simp]: "new_ChatPushAck = E_ChatPushAck \<lparr>cpa_MsgIds = []\<rparr>"

definition new_ChatSync :: entity where
  [simp]: "new_ChatSync = E_ChatSync \<lparr>cs_MsgId = 0, cs_ChatType = SELF, cs_To = [], cs_Device = 0, cs_SendTime = 0, cs_Payload = None\<rparr>"

text \<open>The empty message of the type of an entity.\<close>

fun new_of :: "entity \<Rightarrow> entity" where
  "new_of (E_LoginReq _) = new_LoginReq"
| "new_of (E_LoginAck _) = new_LoginAck"
| "new_of (E_KickOut _) = new_KickOut"
| "new_of (E_LogoutReq _) = new_LogoutReq"
| "new_of (E_ChatReq _) = new_ChatReq"
| "new_of (E_ChatAck _) = new_ChatAck"
| "new_of (E_ChatPush _) = new_ChatPush"
| "new_of (E_ChatPushAck _) = new_ChatPushAck"
| "new_of (E_ChatSync _) = new_ChatSync"

section \<open>Protocol buffers\<close>

record proto_api =
  Marshal :: "entity \<Rightarrow> byte list option"
  Unmarshal :: "byte list \<Rightarrow> entity \<Rightarrow> entity option"

text \<open>
  Documented behaviour: what \<^verbatim>\<open>Marshal\<close> produced for a message, \<^verbatim>\<open>Unmarshal\<close> reads into an empty
  message of the same type as an equal message.
\<close>

definition proto_ok :: "proto_api \<Rightarrow> bool" where
  "proto_ok P \<longleftrightarrow> (\<forall>e b. Marshal P e = Some b \<longrightarrow> Unmarshal P b (new_of e) = Some e)"

text \<open>A concrete package for the witnesses: it handles the one-string messages, as plain bytes.\<close>

fun plain_marshal :: "entity \<Rightarrow> byte list option" where
  "plain_marshal (E_KickOut k) = Some (bytes_of (ko_PeerId k))"
| "plain_marshal (E_LogoutReq l) = Some (bytes_of (lo_PeerId l))"
| "plain_marshal _ = None"

fun plain_unmarshal :: "byte list \<Rightarrow> entity \<Rightarrow> entity option" where
  "plain_unmarshal b (E_KickOut k) = Some (E_KickOut \<lparr>ko_PeerId = string_of b\<rparr>)"
| "plain_unmarshal b (E_LogoutReq l) = Some (E_LogoutReq \<lparr>lo_PeerId = string_of b\<rparr>)"
| "plain_unmarshal b _ = None"

definition plain_proto :: proto_api where
  "plain_proto = \<lparr>Marshal = plain_marshal, Unmarshal = plain_unmarshal\<rparr>"

lemma plain_proto_ok: "proto_ok plain_proto"
proof -
  have "plain_unmarshal b (new_of e) = Some e" if "plain_marshal e = Some b" for e b
    using that by (cases e) auto
  then show ?thesis by (simp add: proto_ok_def plain_proto_def)
qed

section \<open>Packing and unpacking\<close>

definition GetEmptyMessage :: "pid \<Rightarrow> entity option \<times> go_error option" where
  "GetEmptyMessage p =
     (if p = PIDLogin then (Some new_LoginReq, None)
      else if p = PIDLoginACK then (Some new_LoginAck, None)
      else if p = PIDKickOut then (Some new_KickOut, None)
      else if p = PIDLogout then (Some new_LogoutReq, None)
      else if p = PIDChatGroup \<or> p = PIDChat then (Some new_ChatReq, None)
      else if p = PIDChatGroupAck \<or> p = PIDChatAck then (Some new_ChatAck, None)
      else if p = PIDChatGroupPush \<or> p = PIDChatPush then (Some new_ChatPush, None)
      else if p = PIDChatGroupPushAck \<or> p = PIDChatPushAck then (Some new_ChatPushAck, None)
      else if p = PIDChatSync then (Some new_ChatSync, None)
      else (None, Some ErrPIDNoFound))"

definition Message_Write :: "proto_api \<Rightarrow> message \<Rightarrow> entity \<Rightarrow> go_error option \<times> message" where
  "Message_Write P m payload =
     (case Marshal P payload of
        None \<Rightarrow> (Some ErrProto, m)
      | Some out \<Rightarrow>
          (let m1 = m\<lparr>msg_Payload := out\<rparr>
           in (None, m1\<lparr>msg_Header := SetPayloadLen (of_nat (length out)) (msg_Header m1)\<rparr>)))"

definition GetPayloadEntity :: "proto_api \<Rightarrow> message \<Rightarrow> entity option \<times> go_error option" where
  "GetPayloadEntity P m =
     (case GetEmptyMessage (GetPID (msg_Header m)) of
        (_, Some err) \<Rightarrow> (None, Some err)
      | (None, None) \<Rightarrow> (None, None)
      | (Some message, None) \<Rightarrow>
          (case Unmarshal P (msg_Payload m) message of
             None \<Rightarrow> (None, Some ErrProto)
           | Some entity \<Rightarrow> (Some entity, None)))"

text \<open>The protocol ids with a message type are exactly the known protocols other than ping and pong;
  for every other id \<^verbatim>\<open>GetEmptyMessage\<close> reports \<^verbatim>\<open>ErrPIDNoFound\<close>, and it returns exactly one of a message
  and an error.\<close>
theorem empty_message_protocols:
  "(snd (GetEmptyMessage p) = None \<longleftrightarrow> IsProtocol p \<and> p \<noteq> PIDPing \<and> p \<noteq> PIDPong) \<and>
   (snd (GetEmptyMessage p) = None \<longleftrightarrow> fst (GetEmptyMessage p) \<noteq> None) \<and>
   snd (GetEmptyMessage p) \<in> {None, Some ErrPIDNoFound}"
  by (auto simp: GetEmptyMessage_def IsProtocol_iff)

lemma Message_Write_ok:
  assumes "Marshal P e = Some b" and "wf_header (msg_Header m)"
  shows "fst (Message_Write P m e) = None"
    and "msg_Payload (snd (Message_Write P m e)) = b"
    and "GetPID (msg_Header (snd (Message_Write P m e))) = GetPID (msg_Header m)"
    and "GetSequence (msg_Header (snd (Message_Write P m e))) = GetSequence (msg_Header m)"
    and "GetPayloadLen (msg_Header (snd (Message_Write P m e))) = of_nat (length b)"
    and "wf_header (msg_Header (snd (Message_Write P m e)))"
  using assms
  by (elim wf_headerE; simp add: Message_Write_def Let_def header_access PutUint16_def wf_header_def)+

lemma wf_Message_Write:
  assumes "Marshal P e = Some b" and "wf_header (msg_Header m)" and "length b < 65536"
  shows "wf_message (snd (Message_Write P m e))"
  using Message_Write_ok [OF assms(1,2)] assms(3)
  by (simp add: wf_message_def unat_of_nat)

lemma GetPayloadEntity_Write:
  assumes "proto_ok P" and "Marshal P e = Some b"
    and "GetEmptyMessage (GetPID (msg_Header m)) = (Some (new_of e), None)" and "msg_Payload m = b"
  shows "GetPayloadEntity P m = (Some e, None)"
  using assms by (simp add: GetPayloadEntity_def proto_ok_def)

lemma wf_NewMessage: "wf_header (msg_Header (NewMessage p s))"
  by (simp add: NewMessage_def zero_message_def zero_header_def wf_header_def put_at_def)

lemma GetPID_NewMessage: "GetPID (msg_Header (NewMessage p s)) = p"
  and GetSequence_NewMessage: "GetSequence (msg_Header (NewMessage p s)) = s"
  by (simp_all add: NewMessage_def zero_message_def zero_header_bytes header_access PutUint16_def)

text \<open>C13: An entity survives the whole path: put into a new message of its protocol, encoded, decoded on
  the other side and unpacked, it is the same entity, with the protocol id and the sequence number it was
  sent with, provided its encoding fits the header's 16-bit length.\<close>
theorem entity_roundtrip:
  assumes "proto_ok P" and "Marshal P e = Some b" and "length b < 65536"
    and "GetEmptyMessage p = (Some (new_of e), None)"
  shows "\<exists>m. Message_Decode zero_message (bytes_buffer (Message_Bytes (snd (Message_Write P (NewMessage p s) e)))) = (None, m, bytes_buffer []) \<and>
    GetPayloadEntity P m = (Some e, None) \<and> GetPID (msg_Header m) = p \<and> GetSequence (msg_Header m) = s"
proof -
  let ?m = "snd (Message_Write P (NewMessage p s) e)"
  note W = Message_Write_ok [OF assms(2) wf_NewMessage, of p s]
  have "Message_Decode zero_message (bytes_buffer (Message_Bytes ?m)) = (None, ?m, bytes_buffer [])"
    using cmsg.dec_buffer [OF wf_Message_Write [OF assms(2) wf_NewMessage assms(3)], of p s "[]"]
    by (simp add: Message_Bytes_ser)
  moreover have "GetPID (msg_Header ?m) = p" "GetSequence (msg_Header ?m) = s"
    using W(3,4) by (simp_all add: GetPID_NewMessage GetSequence_NewMessage)
  moreover from this have "GetPayloadEntity P ?m = (Some e, None)"
    using assms W(2) by (intro GetPayloadEntity_Write) simp_all
  ultimately show ?thesis by blast
qed

lemma entity_roundtrip_witness:
  "\<exists>m. Message_Decode zero_message (bytes_buffer (Message_Bytes (snd (Message_Write plain_proto (NewMessage PIDKickOut 9) (E_KickOut \<lparr>ko_PeerId = ''p1''\<rparr>))))) = (None, m, bytes_buffer []) \<and>
    GetPayloadEntity plain_proto m = (Some (E_KickOut \<lparr>ko_PeerId = ''p1''\<rparr>), None) \<and>
    GetPID (msg_Header m) = PIDKickOut \<and> GetSequence (msg_Header m) = 9"
  by (rule entity_roundtrip [OF plain_proto_ok, where b = "bytes_of ''p1''"])
     (simp_all add: plain_proto_def GetEmptyMessage_def)

text \<open>\<^verbatim>\<open>Write\<close> stores the payload length modulo \<open>2 ^ 16\<close> without an error: an entity of 65536 bytes or more
  is sent whole, but its reader takes only the remainder of the length as payload and finds the rest of the
  payload where the next message should be.\<close>
theorem oversized_payload_desynchronises:
  assumes "Marshal P e = Some b" and "65536 \<le> length b" and "length b mod 65536 \<noteq> 0"
  shows "fst (Message_Write P (NewMessage p s) e) = None \<and>
    (\<exists>m. Message_Decode zero_message (bytes_buffer (Message_Bytes (snd (Message_Write P (NewMessage p s) e)))) =
        (None, m, bytes_buffer (drop (length b mod 65536) b)) \<and>
      msg_Payload m = take (length b mod 65536) b \<and> drop (length b mod 65536) b \<noteq> [])"
proof -
  let ?m = "snd (Message_Write P (NewMessage p s) e)" and ?n = "length b mod 65536"
  note W = Message_Write_ok [OF assms(1) wf_NewMessage, of p s]
  let ?h = "msg_Header ?m" and ?m' = "\<lparr>msg_Header = msg_Header ?m, msg_Payload = take ?n b\<rparr>"
  have "unat (GetPayloadLen ?h) = ?n" unfolding W(5) by (simp add: unat_of_nat)
  then have wf: "wf_message ?m'" using W(6) by (simp add: wf_message_def)
  have "Message_Bytes ?m = ser_message ?m' @ drop ?n b" by (simp add: Message_Bytes_ser ser_message_def W(2))
  with cmsg.dec_buffer [OF wf, of "drop ?n b"]
  have "Message_Decode zero_message (bytes_buffer (Message_Bytes ?m)) = (None, ?m', bytes_buffer (drop ?n b))" by simp
  moreover have "drop ?n b \<noteq> []" using assms(2) by (simp add: not_le less_le_trans [of _ 65536])
  ultimately show ?thesis using W(1) by auto
qed

lemma oversized_payload_desynchronises_witness:
  "fst (Message_Write plain_proto (NewMessage PIDKickOut 9) (E_KickOut \<lparr>ko_PeerId = replicate 65537 CHR ''a''\<rparr>)) = None"
  using oversized_payload_desynchronises
    [of plain_proto "E_KickOut \<lparr>ko_PeerId = replicate 65537 CHR ''a''\<rparr>" "bytes_of (replicate 65537 CHR ''a'')" PIDKickOut 9]
  by (simp add: plain_proto_def)

end
