(* ===== verification/Ksuid.thy ===== *)
theory Ksuid
  imports WireCommon
begin

text \<open>
  The third-party package \<^verbatim>\<open>github.com/segmentio/ksuid\<close> as a parameter: \<open>ksuid_api\<close> holds the
  functions the program calls, the locale \<open>ksuid_pkg\<close> what the package documents of them, and
  the end of the theory a concrete package for the witnesses. \<^verbatim>\<open>DecodeKSUID\<close> of
  \<^verbatim>\<open>wire/message.go\<close> is the code's own.
\<close>

record 'k ksuid_api =
  ks_len :: nat \<comment> \<open>\<^verbatim>\<open>len(ksuid.Nil)\<close>\<close>
  ks_Nil :: 'k
  ks_Bytes :: "'k \<Rightarrow> byte list"
  ks_FromBytes :: "byte list \<Rightarrow> 'k option"
  ks_String :: "'k \<Rightarrow> string"
  ks_Parse :: "string \<Rightarrow> 'k option"

definition DecodeKSUID :: "'k ksuid_api \<Rightarrow> reader \<Rightarrow> go_error option \<times> 'k \<times> reader" where
  "DecodeKSUID K r =
     (case ReadFixedBytes (ks_len K) r of
        (Some err, bytes, r') \<Rightarrow> (Some err, ks_Nil K, r')
      | (None, bytes, r') \<Rightarrow>
          (case ks_FromBytes K bytes of
             None \<Rightarrow> (Some ErrKsuid, ks_Nil K, r')
           | Some i \<Rightarrow> (None, i, r')))"

text \<open>
  An id is a fixed number of bytes; \<^verbatim>\<open>FromBytes\<close> accepts exactly the byte strings of that length
  and is the inverse of \<^verbatim>\<open>Bytes\<close>; \<^verbatim>\<open>Parse\<close> reads back what \<^verbatim>\<open>String\<close> prints.
\<close>

locale ksuid_pkg =
  fixes K :: "'k ksuid_api"
  assumes len_20: "ks_len K = 20"
    and length_Bytes: "length (ks_Bytes K i) = ks_len K"
    and FromBytes_Bytes: "ks_FromBytes K (ks_Bytes K i) = Some i"
    and FromBytes_length: "ks_FromBytes K b \<noteq> None \<longleftrightarrow> length b = ks_len K"
    and Parse_String: "ks_Parse K (ks_String K i) = Some i"
begin

definition write_id :: "'k \<Rightarrow> writer \<Rightarrow> go_error option \<times> writer" where
  "write_id i = Write (ks_Bytes K i)"

lemma DecodeKSUID_fixed:
  "DecodeKSUID K r = read_fixed (ks_len K) (\<lambda>b. the (ks_FromBytes K b)) (ks_Nil K) r"
proof -
  have "ks_FromBytes K (take (ks_len K) (rd_bytes r)) \<noteq> None" if "ks_len K \<le> length (rd_bytes r)"
    using that FromBytes_length [of "take (ks_len K) (rd_bytes r)"] by simp
  then show ?thesis
    by (cases rule: io_ReadFull_cases [of "ks_len K" r])
       (auto simp: DecodeKSUID_def ReadFixedBytes_def read_fixed_def)
qed

lemma id_codec_laws: "stream_codec write_id (ks_Bytes K) (DecodeKSUID K) (\<lambda>_. True)"
proof (rule fixed_width_codec)
  show "write_id a w = Write (ks_Bytes K a) w" for a w by (simp only: write_id_def)
  show "length (ks_Bytes K a) = ks_len K" for a by (rule length_Bytes)
  show "the (ks_FromBytes K (ks_Bytes K a)) = a" for a by (simp only: FromBytes_Bytes option.sel)
  show "DecodeKSUID K r = read_fixed (ks_len K) (\<lambda>b. the (ks_FromBytes K b)) (ks_Nil K) r" for r
    by (rule DecodeKSUID_fixed)
qed

sublocale id_codec: stream_codec write_id "ks_Bytes K" "DecodeKSUID K" "\<lambda>_. True"
  by (rule id_codec_laws)

lemma DecodeKSUID_buffer:
  "DecodeKSUID K (bytes_buffer bs) =
     (if length bs < 20 then (Some (if bs = [] then EOF else ErrUnexpectedEOF), ks_Nil K, bytes_buffer [])
      else (None, the (ks_FromBytes K (take 20 bs)), bytes_buffer (drop 20 bs)))"
  by (simp add: DecodeKSUID_fixed read_fixed_buffer len_20)

lemma String_inj: "ks_String K i = ks_String K j \<Longrightarrow> i = j"
  by (metis Parse_String option.inject)

end

section \<open>A concrete package\<close>

text \<open>Ids as the twenty bytes they are documented to be, printed byte by byte.\<close>

typedef id20 = "{b :: byte list. length b = 20}"
  morphisms id20_bytes Id20
  by (rule exI [of _ "replicate 20 0"]) simp

lemma length_id20 [simp]: "length (id20_bytes i) = 20"
  using id20_bytes [of i] by simp

lemma Id20_bytes [simp]: "Id20 (id20_bytes i) = i"
  by (rule id20_bytes_inverse)

lemma id20_bytes_Id20 [simp]: "length b = 20 \<Longrightarrow> id20_bytes (Id20 b) = b"
  by (simp add: Id20_inverse)

instantiation id20 :: equal
begin

definition equal_id20 :: "id20 \<Rightarrow> id20 \<Rightarrow> bool" where
  "equal_id20 i j \<longleftrightarrow> id20_bytes i = id20_bytes j"

instance
  by standard (auto simp: equal_id20_def id20_bytes_inject)

end

definition id20_of :: "byte \<Rightarrow> id20" where
  "id20_of n = Id20 (replicate 19 0 @ [n])"

lemma id20_of_inj [simp]: "id20_of m = id20_of n \<longleftrightarrow> m = n"
proof -
  have "id20_bytes (id20_of n) = replicate 19 0 @ [n]" for n
    by (simp add: id20_of_def)
  then show ?thesis by (metis append1_eq_conv)
qed

definition id20_api :: "id20 ksuid_api" where
  "id20_api =
     \<lparr>ks_len = 20, ks_Nil = id20_of 0, ks_Bytes = id20_bytes,
      ks_FromBytes = (\<lambda>b. if length b = 20 then Some (Id20 b) else None),
      ks_String = (\<lambda>i. string_of (id20_bytes i)),
      ks_Parse = (\<lambda>s. if length s = 20 then Some (Id20 (bytes_of s)) else None)\<rparr>"

lemma length_string_of [simp]: "length (string_of b) = length b"
  by (simp add: string_of_def)

interpretation id20: ksuid_pkg id20_api
  by unfold_locales (simp_all add: id20_api_def)

end
