(* ===== verification/WireRelay.thy ===== *)
theory WireRelay
  imports WireEntity Ksuid
begin

text \<open>
  \<^verbatim>\<open>wire/message.go\<close>, second half: the packet gateways and logic servers exchange. The payload
  is a pointer, so it may be nil: encoding such a packet panics.
\<close>

record 'k relay_packet =
  rp_Uuid :: 'k
  rp_Username :: string
  rp_Device :: byte
  rp_Location :: 'k
  rp_Receivers :: "'k list"
  rp_Payload :: "message option"

definition zero_relay :: "'k ksuid_api \<Rightarrow> 'k relay_packet" where
  "zero_relay K = \<lparr>rp_Uuid = ks_Nil K, rp_Username = [], rp_Device = 0, rp_Location = ks_Nil K,
     rp_Receivers = [], rp_Payload = None\<rparr>"

definition NewEmptyRelayMessage :: "'k ksuid_api \<Rightarrow> 'k \<Rightarrow> 'k relay_packet" where
  "NewEmptyRelayMessage K location = (zero_relay K)\<lparr>rp_Location := location, rp_Receivers := []\<rparr>"

definition NewRelayMessage :: "'k ksuid_api \<Rightarrow> 'k \<Rightarrow> string \<Rightarrow> byte \<Rightarrow> 'k \<Rightarrow> 'k relay_packet" where
  "NewRelayMessage K uuid username device location =
     (zero_relay K)\<lparr>rp_Uuid := uuid, rp_Username := username, rp_Device := device,
       rp_Location := location, rp_Receivers := []\<rparr>"

section \<open>Decoding\<close>

text \<open>\<^verbatim>\<open>for i := 0; i < length; i++ { m.Receivers[i], _ = DecodeKSUID(r) }\<close>: errors are dropped.\<close>

fun read_receivers :: "'k ksuid_api \<Rightarrow> nat \<Rightarrow> reader \<Rightarrow> 'k list \<times> reader" where
  "read_receivers K 0 r = ([], r)"
| "read_receivers K (Suc n) r =
     (case DecodeKSUID K r of (_, i, r') \<Rightarrow>
      case read_receivers K n r' of (is, r'') \<Rightarrow> (i # is, r''))"

definition RelayPacket_Decode ::
  "'k ksuid_api \<Rightarrow> 'k relay_packet \<Rightarrow> reader \<Rightarrow> go_error option \<times> 'k relay_packet \<times> reader" where
  "RelayPacket_Decode K m r =
     (case DecodeKSUID K r of (err, uuid, r) \<Rightarrow> let m = m\<lparr>rp_Uuid := uuid\<rparr> in
      if err \<noteq> None then (err, m, r) else
      case ReadString r of (err, username, r) \<Rightarrow> let m = m\<lparr>rp_Username := username\<rparr> in
      if err \<noteq> None then (err, m, r) else
      case ReadUint8 r of (err, device, r) \<Rightarrow> let m = m\<lparr>rp_Device := device\<rparr> in
      if err \<noteq> None then (err, m, r) else
      case DecodeKSUID K r of (err, location, r) \<Rightarrow> let m = m\<lparr>rp_Location := location\<rparr> in
      if err \<noteq> None then (err, m, r) else
      case ReadUint32 r of (err, len, r) \<Rightarrow>
      if err \<noteq> None then (err, m, r) else
      case read_receivers K (unat len) r of (receivers, r) \<Rightarrow>
      let m = m\<lparr>rp_Receivers := receivers\<rparr> in
      case Message_Decode zero_message r of (err, payload, r) \<Rightarrow>
      (err, m\<lparr>rp_Payload := Some payload\<rparr>, r))"

section \<open>Encoding\<close>

fun write_receivers :: "'k ksuid_api \<Rightarrow> 'k list \<Rightarrow> writer \<Rightarrow> go_error option \<times> writer" where
  "write_receivers K [] w = (None, w)"
| "write_receivers K (i # is) w = then_write (Write (ks_Bytes K i)) (write_receivers K is) w"

definition RelayPacket_Encode ::
  "'k ksuid_api \<Rightarrow> 'k relay_packet \<Rightarrow> writer \<Rightarrow> (go_error option \<times> writer) outcome" where
  "RelayPacket_Encode K m w =
     (case then_write (Write (ks_Bytes K (rp_Uuid m)))
          (then_write (WriteString (rp_Username m))
          (then_write (WriteUint8 (rp_Device m))
          (then_write (Write (ks_Bytes K (rp_Location m)))
          (then_write (WriteUint32 (of_nat (length (rp_Receivers m))))
             (write_receivers K (rp_Receivers m)))))) w of
        (Some err, w') \<Rightarrow> Ret (Some err, w')
      | (None, w') \<Rightarrow>
          (case rp_Payload m of
             None \<Rightarrow> Panic NilDeref
           | Some payload \<Rightarrow> Ret (Message_Encode payload w')))"

definition RelayPacket_Bytes :: "'k ksuid_api \<Rightarrow> 'k relay_packet \<Rightarrow> byte list outcome" where
  "RelayPacket_Bytes K m = obind (RelayPacket_Encode K m new_buffer) (\<lambda>(err, buf). Ret (wr_out buf))"

section \<open>The format\<close>

definition ser_prefix :: "'k ksuid_api \<Rightarrow> 'k relay_packet \<Rightarrow> byte list" where
  "ser_prefix K m = ks_Bytes K (rp_Uuid m) @ ser_bytes (bytes_of (rp_Username m)) @ [rp_Device m] @
     ks_Bytes K (rp_Location m) @ PutUint32 (of_nat (length (rp_Receivers m)))"

definition ser_head :: "'k ksuid_api \<Rightarrow> 'k relay_packet \<Rightarrow> byte list" where
  "ser_head K m = ser_prefix K m @ concat (map (ks_Bytes K) (rp_Receivers m))"

text \<open>The packets the code sends: a name and a receiver list that a 32-bit length can count, and a
  payload whose header is right.\<close>

definition relay_ok :: "'k relay_packet \<Rightarrow> message \<Rightarrow> bool" where
  "relay_ok m p \<longleftrightarrow> fits32 (rp_Username m) \<and> fits32 (rp_Receivers m) \<and> rp_Payload m = Some p \<and> wf_message p"

lemma write_receivers_Write: "write_receivers K is = Write (concat (map (ks_Bytes K) is))"
proof (induction "is")
  case Nil
  then show ?case by (simp add: fun_eq_iff)
next
  case (Cons i "is")
  have "write_receivers K (i # is) = then_write (Write (ks_Bytes K i)) (write_receivers K is)"
    by (rule ext) simp
  also have "\<dots> = Write (concat (map (ks_Bytes K) (i # is)))"
    unfolding Cons by (simp add: then_write_Write)
  finally show ?case .
qed

lemma RelayPacket_Encode_Write:
  "rp_Payload m = Some p \<Longrightarrow> RelayPacket_Encode K m w = Ret (Write (ser_head K m @ ser_message p) w)"
proof -
  assume p: "rp_Payload m = Some p"
  let ?head = "then_write (Write (ks_Bytes K (rp_Uuid m)))
          (then_write (WriteString (rp_Username m))
          (then_write (WriteUint8 (rp_Device m))
          (then_write (Write (ks_Bytes K (rp_Location m)))
          (then_write (WriteUint32 (of_nat (length (rp_Receivers m))))
             (write_receivers K (rp_Receivers m))))))"
  have head: "?head = Write (ser_head K m)"
    by (simp add: cstring.enc_Write [abs_def] cu8.enc_Write [abs_def] cu32.enc_Write [abs_def]
        write_receivers_Write then_write_Write ser_head_def ser_prefix_def)
  have "RelayPacket_Encode K m w = Ret (then_write ?head (Message_Encode p) w)"
    by (auto simp: RelayPacket_Encode_def p then_write_def [of "?head"] split: prod.splits option.splits)
  then show ?thesis by (simp add: head cmsg.enc_Write [abs_def] then_write_Write)
qed

lemma RelayPacket_Bytes_ser: "rp_Payload m = Some p \<Longrightarrow> RelayPacket_Bytes K m = Ret (ser_head K m @ ser_message p)"
  by (simp add: RelayPacket_Bytes_def RelayPacket_Encode_Write)

lemma RelayPacket_Bytes_nil: "rp_Payload m = None \<Longrightarrow> RelayPacket_Bytes K m = Panic NilDeref"
  by (simp add: RelayPacket_Bytes_def RelayPacket_Encode_def cstring.enc_Write [abs_def] cu8.enc_Write [abs_def]
      cu32.enc_Write [abs_def] write_receivers_Write then_write_Write)

context ksuid_pkg begin

lemma read_receivers_ser:
  "read_receivers K (length is) (bytes_buffer (concat (map (ks_Bytes K) is) @ rest)) = (is, bytes_buffer rest)"
  by (induction "is") (simp_all add: id_codec.dec_buffer)

lemma read_receivers_empty:
  "read_receivers K n (bytes_buffer []) = (replicate n (ks_Nil K), bytes_buffer [])"
  by (induction n) (simp_all add: DecodeKSUID_buffer)

lemma read_receivers_short:
  "length bs < 20 * n \<Longrightarrow> snd (read_receivers K n (bytes_buffer bs)) = bytes_buffer []"
proof (induction n arbitrary: bs)
  case 0
  then show ?case by simp
next
  case (Suc n)
  show ?case
  proof (cases "length bs < 20")
    case True
    then show ?thesis by (simp add: DecodeKSUID_buffer read_receivers_empty)
  next
    case False
    with Suc.prems have "length (drop 20 bs) < 20 * n" by simp
    from Suc.IH [OF this] False show ?thesis
      by (cases "read_receivers K n (bytes_buffer (drop 20 bs))") (simp add: DecodeKSUID_buffer)
  qed
qed

lemma read_receivers_cut:
  assumes "bs @ zs = concat (map (ks_Bytes K) is)"
  shows "snd (read_receivers K (length is) (bytes_buffer bs)) = bytes_buffer []"
proof (cases "zs = []")
  case True
  with assms read_receivers_ser [of "is" "[]"] show ?thesis by simp
next
  case False
  have "length (concat (map (ks_Bytes K) is)) = 20 * length is"
    by (induction "is") (simp_all add: length_Bytes len_20)
  then have "length bs < 20 * length is"
    using arg_cong [OF assms, of length] False by (cases zs) auto
  then show ?thesis by (rule read_receivers_short)
qed

lemma RelayPacket_Decode_ser:
  assumes "relay_ok m p"
  shows "RelayPacket_Decode K (zero_relay K) (bytes_buffer (ser_head K m @ ser_message p @ rest)) =
    (None, m, bytes_buffer rest)"
proof -
  have n: "unat (of_nat (length (rp_Receivers m)) :: u32) = length (rp_Receivers m)"
    using assms by (simp add: relay_ok_def unat_of_nat_fits32)
  show ?thesis
    using assms
    by (simp add: RelayPacket_Decode_def ser_head_def ser_prefix_def relay_ok_def Let_def n
        id_codec.dec_buffer cstring.dec_buffer cu8.dec_buffer [simplified] cu32.dec_buffer
        read_receivers_ser cmsg.dec_buffer zero_relay_def)
qed

text \<open>A packet cut anywhere before its payload: some stage of the decoder comes up short.\<close>

lemma RelayPacket_Decode_cut:
  assumes ok: "relay_ok m p" and cut: "bs @ zs = ser_head K m"
  shows "fst (RelayPacket_Decode K z (bytes_buffer bs)) \<noteq> None"
proof -
  let ?n = "of_nat (length (rp_Receivers m)) :: u32"
  let ?un = "bytes_of (rp_Username m)"
  have F: "fits32 (rp_Username m)" "fits32 ?un" using ok by (simp_all add: relay_ok_def fits32_def)
  have N: "unat ?n = length (rp_Receivers m)" using ok by (simp add: relay_ok_def unat_of_nat_fits32)
  have "bs @ zs = ks_Bytes K (rp_Uuid m) @ (ser_bytes ?un @ [rp_Device m] @ ks_Bytes K (rp_Location m) @
      PutUint32 ?n @ concat (map (ks_Bytes K) (rp_Receivers m)))"
    using cut by (simp add: ser_head_def ser_prefix_def)
  then show ?thesis
  proof (cases rule: append_cases)
    case (short x xs)
    from id_codec.dec_short [of "rp_Uuid m" "bytes_buffer bs", simplified, OF short] show ?thesis
      by (auto simp: RelayPacket_Decode_def Let_def split: prod.splits)
  next
    case (long b1)
    note d1 = id_codec.dec_buffer [OF TrueI, of "rp_Uuid m" b1, folded long(1)]
    from long(2) show ?thesis
    proof (cases rule: append_cases)
      case (short x xs)
      from cstring.dec_short [OF F(1), of "bytes_buffer b1", simplified, OF short] d1 show ?thesis
        by (auto simp: RelayPacket_Decode_def Let_def split: prod.splits)
    next
      case (long b2)
      note d2 = cstring.dec_buffer [OF F(1), of b2, folded long(1)]
      from long(2) show ?thesis
      proof (cases rule: append_cases)
        case (short x xs)
        from cu8.dec_short [of "rp_Device m" "bytes_buffer b2", simplified, OF short] d1 d2 show ?thesis
          by (auto simp: RelayPacket_Decode_def Let_def split: prod.splits)
      next
        case (long b3)
        note d3 = cu8.dec_buffer [OF TrueI, of "rp_Device m" b3, folded long(1)]
        from long(2) show ?thesis
        proof (cases rule: append_cases)
          case (short x xs)
          from id_codec.dec_short [of "rp_Location m" "bytes_buffer b3", simplified, OF short] d1 d2 d3 show ?thesis
            by (auto simp: RelayPacket_Decode_def Let_def split: prod.splits)
        next
          case (long b4)
          note d4 = id_codec.dec_buffer [OF TrueI, of "rp_Location m" b4, folded long(1)]
          from long(2) show ?thesis
          proof (cases rule: append_cases)
            case (short x xs)
            from cu32.dec_short [of ?n "bytes_buffer b4", simplified, OF short] d1 d2 d3 d4 show ?thesis
              by (auto simp: RelayPacket_Decode_def Let_def split: prod.splits)
          next
            case (long b5)
            note d5 = cu32.dec_buffer [OF TrueI, of ?n b5, folded long(1)]
            have "snd (read_receivers K (length (rp_Receivers m)) (bytes_buffer b5)) = bytes_buffer []"
              by (rule read_receivers_cut [OF long(2)])
            with d1 d2 d3 d4 d5 Message_Decode_empty [of zero_message] N show ?thesis
              by (auto simp: RelayPacket_Decode_def Let_def split: prod.splits)
          qed
        qed
      qed
    qed
  qed
qed

end

text \<open>C10: A relay packet survives the link between gateway and logic server: the bytes of a packet with a
  payload decode to the same packet, sender, location, receivers in order and payload, and nothing of what
  follows is consumed. A packet without a payload cannot be encoded: \<^verbatim>\<open>Bytes\<close> panics.\<close>
theorem relay_roundtrip:
  assumes "ksuid_pkg K" and "relay_ok m p"
  shows "\<exists>b. RelayPacket_Bytes K m = Ret b \<and>
    RelayPacket_Decode K (zero_relay K) (bytes_buffer (b @ rest)) = (None, m, bytes_buffer rest) \<and>
    RelayPacket_Bytes K (m\<lparr>rp_Payload := None\<rparr>) = Panic NilDeref"
  using ksuid_pkg.RelayPacket_Decode_ser [OF assms, of rest] assms(2)
  by (simp add: RelayPacket_Bytes_ser RelayPacket_Bytes_nil relay_ok_def)

definition example_relay :: "id20 relay_packet" where
  "example_relay = \<lparr>rp_Uuid = id20_of 1, rp_Username = ''bob'', rp_Device = 3, rp_Location = id20_of 2,
     rp_Receivers = [id20_of 5, id20_of 6], rp_Payload = Some \<lparr>msg_Header = Ping, msg_Payload = []\<rparr>\<rparr>"

lemma example_relay_ok: "relay_ok example_relay \<lparr>msg_Header = Ping, msg_Payload = []\<rparr>"
  by (simp add: relay_ok_def example_relay_def fits32_def wf_Ping_Pong)

lemma relay_roundtrip_witness:
  "\<exists>b. RelayPacket_Bytes id20_api example_relay = Ret b \<and>
    RelayPacket_Decode id20_api (zero_relay id20_api) (bytes_buffer (b @ [1])) = (None, example_relay, bytes_buffer [1]) \<and>
    RelayPacket_Bytes id20_api (example_relay\<lparr>rp_Payload := None\<rparr>) = Panic NilDeref"
  by (rule relay_roundtrip [OF id20.ksuid_pkg_axioms example_relay_ok])

text \<open>A relay packet that lost its tail before the payload begins is rejected: whatever part of the sender,
  the name, the device, the location, the receiver count or the receivers is missing, \<^verbatim>\<open>Decode\<close> returns an
  error, although the errors of the single receivers are dropped.\<close>
theorem relay_cut_rejected:
  assumes "ksuid_pkg K" and "relay_ok m p" and "bs @ zs = ser_head K m"
  shows "fst (RelayPacket_Decode K (zero_relay K) (bytes_buffer bs)) \<noteq> None"
  by (rule ksuid_pkg.RelayPacket_Decode_cut [OF assms])

lemma relay_cut_rejected_witness:
  "fst (RelayPacket_Decode id20_api (zero_relay id20_api) (bytes_buffer (take 70 (ser_head id20_api example_relay)))) \<noteq> None"
  by (rule relay_cut_rejected [OF id20.ksuid_pkg_axioms example_relay_ok append_take_drop_id])

section \<open>Decoded packets are well formed\<close>

lemma Message_Decode_wf:
  assumes "Message_Decode zero_message r = (None, m, r')"
  shows "wf_message m"
proof -
  obtain d e q where q: "Read 10 r = (d, e, q)" by (cases "Read 10 r")
  have "wf_header (overlay zero_header d)" by (simp add: wf_header_def zero_header_def)
  with assms q show ?thesis
    by (auto simp: Message_Decode_def Header_Decode_def zero_message_def Let_def wf_message_def unat_eq_0
        split: option.splits if_splits prod.splits)
qed

lemma ReadString_fits:
  assumes "ReadString r = (None, s, r')"
  shows "fits32 s"
proof -
  obtain n q b q' where "ReadUint32 r = (None, n, q)" "read_fixed (unat n) (\<lambda>buf. buf) [] q = (None, b, q')" "s = string_of b"
    using assms by (auto simp: ReadString_def ReadBytes_def split: prod.splits option.splits)
  moreover have "length b = unat n"
    using calculation(2) by (cases rule: io_ReadFull_cases [of "unat n" q]) (auto simp: read_fixed_def)
  ultimately show ?thesis using unsigned_less [of n, where 'a = nat] by (simp add: fits32_def)
qed

lemma length_read_receivers: "length (fst (read_receivers K n r)) = n"
  by (induction n arbitrary: r) (auto split: prod.splits, metis fst_conv)

text \<open>C11: Whatever bytes arrive and in whatever pieces, a packet that decodes is well formed: its payload has the length its header
  declares, its texts and receivers fit their length fields, so it can be encoded again, and its encoding
  decodes to the same packet. No packet read from the link is one that cannot be passed on.\<close>
theorem decoded_packet_well_formed:
  assumes "ksuid_pkg K" and "RelayPacket_Decode K (zero_relay K) r = (None, m, r')"
  shows "\<exists>p b. relay_ok m p \<and> RelayPacket_Bytes K m = Ret b \<and>
    RelayPacket_Decode K (zero_relay K) (bytes_buffer b) = (None, m, bytes_buffer [])"
proof -
  from assms(2) obtain r1 u r2 r3 len r4 rs r5 p where d: "ReadString r1 = (None, u, r2)" "ReadUint32 r3 = (None, len, r4)"
    "read_receivers K (unat len) r4 = (rs, r5)" "Message_Decode zero_message r5 = (None, p, r')"
    "rp_Username m = u" "rp_Receivers m = rs" "rp_Payload m = Some p"
    by (auto simp: RelayPacket_Decode_def Let_def zero_relay_def split: prod.splits if_splits)
  have "length rs = unat len" using length_read_receivers [of K "unat len" r4] d(3) by simp
  then have "fits32 rs" using unsigned_less [of len, where 'a = nat] by (simp add: fits32_def)
  then have "relay_ok m p" using d ReadString_fits [OF d(1)] Message_Decode_wf [OF d(4)] by (simp add: relay_ok_def)
  with ksuid_pkg.RelayPacket_Decode_ser [OF assms(1) this, of "[]"] show ?thesis
    by (auto simp: RelayPacket_Bytes_ser relay_ok_def)
qed

lemma decoded_packet_well_formed_witness:
  "\<exists>p. relay_ok example_relay p"
proof -
  obtain b where "RelayPacket_Decode id20_api (zero_relay id20_api) (bytes_buffer (b @ [])) = (None, example_relay, bytes_buffer [])"
    using ksuid_pkg.RelayPacket_Decode_ser [OF id20.ksuid_pkg_axioms example_relay_ok, of "[]"] by (metis append.right_neutral)
  from decoded_packet_well_formed [OF id20.ksuid_pkg_axioms this] show ?thesis by blast
qed

end
