(* ===== verification/PeerFrame.thy ===== *)
theory PeerFrame
  imports WireRelay
begin

text \<open>
  The frame layer of \<^verbatim>\<open>peer/tcp_peer.go\<close>: operation codes, the five-byte header, frames and
  the two handshake messages. Both sides read it with \<^verbatim>\<open>io.ReadFull\<close>, so it is a stream codec.
\<close>

section \<open>Header\<close>

type_synonym opcode = byte
type_synonym pheader = "byte list"

definition OpHandshake :: opcode where [simp]: "OpHandshake = 1"
definition OpHandshakeAck :: opcode where [simp]: "OpHandshakeAck = 2"
definition OpPing :: opcode where [simp]: "OpPing = 3"
definition OpPong :: opcode where [simp]: "OpPong = 4"
definition OpMessage :: opcode where [simp]: "OpMessage = 5"
definition OpClose :: opcode where [simp]: "OpClose = 6"

definition CodeHandshakeOk :: u16 where [simp]: "CodeHandshakeOk = 200"
definition CodeHandshakeSIDNull :: u16 where [simp]: "CodeHandshakeSIDNull = 301"
definition CodeHandshakeSIDInvaild :: u16 where [simp]: "CodeHandshakeSIDInvaild = 302"
definition CodeHandshakeDuplicatedSID :: u16 where [simp]: "CodeHandshakeDuplicatedSID = 303"

definition zero_pheader :: pheader where
  "zero_pheader = [0, 0, 0, 0, 0]"

definition PHeader_Decode :: "pheader \<Rightarrow> reader \<Rightarrow> go_error option \<times> pheader \<times> reader" where
  "PHeader_Decode h r = (case io_ReadFull 5 r of (d, err, r') \<Rightarrow> (err, overlay h d, r'))"

definition PHeader_Encode :: "pheader \<Rightarrow> writer \<Rightarrow> go_error option \<times> writer" where
  "PHeader_Encode h w = Write h w"

definition GetOpCode :: "pheader \<Rightarrow> opcode" where
  "GetOpCode h = h ! 0"

definition PGetPayloadLen :: "pheader \<Rightarrow> u32" where
  "PGetPayloadLen h = Uint32 (slice 1 5 h)"

definition SetOpCode :: "byte \<Rightarrow> pheader \<Rightarrow> pheader" where
  "SetOpCode opCode h = h[0 := opCode]"

definition PSetPayloadLen :: "u32 \<Rightarrow> pheader \<Rightarrow> pheader" where
  "PSetPayloadLen len h = put_at 1 (PutUint32 len) h"

definition NewHeader :: "opcode \<Rightarrow> u32 \<Rightarrow> pheader" where
  "NewHeader opCode plen = PSetPayloadLen plen [opCode, 0, 0, 0, 0]"

lemma NewHeader_bytes: "NewHeader op n = op # PutUint32 n"
  by (simp add: NewHeader_def PSetPayloadLen_def put_at_def)

lemma NewHeader_fields [simp]: "GetOpCode (NewHeader op n) = op" "PGetPayloadLen (NewHeader op n) = n"
    "length (NewHeader op n) = 5"
  by (simp_all add: NewHeader_bytes GetOpCode_def PGetPayloadLen_def slice_def)

section \<open>Frames\<close>

record frame =
  fr_Header :: pheader
  fr_Payload :: "byte list"

definition zero_frame :: frame where
  "zero_frame = \<lparr>fr_Header = zero_pheader, fr_Payload = []\<rparr>"

definition NewFrame :: "opcode \<Rightarrow> byte list \<Rightarrow> frame" where
  "NewFrame opCode payload =
     \<lparr>fr_Header = NewHeader opCode (of_nat (length payload)), fr_Payload = payload\<rparr>"

definition NewFrameWithEncoder ::
  "opcode \<Rightarrow> (writer \<Rightarrow> go_error option \<times> writer) \<Rightarrow> frame option \<times> go_error option" where
  "NewFrameWithEncoder opCode encoder =
     (case encoder new_buffer of
        (Some err, buf) \<Rightarrow> (None, Some err)
      | (None, buf) \<Rightarrow>
          (let payload = wr_out buf
           in (Some \<lparr>fr_Header = NewHeader opCode (of_nat (length payload)), fr_Payload = payload\<rparr>, None)))"

definition Frame_Decode :: "frame \<Rightarrow> reader \<Rightarrow> go_error option \<times> frame \<times> reader" where
  "Frame_Decode f r =
     (case PHeader_Decode (fr_Header f) r of
        (Some err, h, r1) \<Rightarrow> (Some err, f\<lparr>fr_Header := h\<rparr>, r1)
      | (None, h, r1) \<Rightarrow>
          (let f1 = f\<lparr>fr_Header := h\<rparr>; plen = PGetPayloadLen h
           in if plen = 0 then (None, f1, r1)
              else case ReadFixedBytes (unat plen) r1 of
                (err, payload, r2) \<Rightarrow> (err, f1\<lparr>fr_Payload := payload\<rparr>, r2)))"

definition Frame_Encode :: "frame \<Rightarrow> writer \<Rightarrow> go_error option \<times> writer" where
  "Frame_Encode f w = then_write (PHeader_Encode (fr_Header f)) (Write (fr_Payload f)) w"

definition WritePayload ::
  "frame \<Rightarrow> (writer \<Rightarrow> go_error option \<times> writer) \<Rightarrow> go_error option \<times> frame" where
  "WritePayload f body =
     (case body new_buffer of
        (Some err, buf) \<Rightarrow> (Some err, f)
      | (None, buf) \<Rightarrow>
          (None, f\<lparr>fr_Payload := wr_out buf, fr_Header := PSetPayloadLen (of_nat (length (wr_out buf))) (fr_Header f)\<rparr>))"

definition wf_frame :: "frame \<Rightarrow> bool" where
  "wf_frame f \<longleftrightarrow> length (fr_Header f) = 5 \<and> length (fr_Payload f) = unat (PGetPayloadLen (fr_Header f))"

definition ser_frame :: "frame \<Rightarrow> byte list" where
  "ser_frame f = fr_Header f @ fr_Payload f"

lemma wf_NewFrame [simp]: "fits32 p \<Longrightarrow> wf_frame (NewFrame op p)"
  by (simp add: wf_frame_def NewFrame_def unat_of_nat_fits32)

lemma NewFrame_fields [simp]:
  "fr_Payload (NewFrame op p) = p" "GetOpCode (fr_Header (NewFrame op p)) = op"
  "PGetPayloadLen (fr_Header (NewFrame op p)) = of_nat (length p)"
  by (simp_all add: NewFrame_def)

lemma PHeader_Decode_ok:
  assumes "length h = 5" and "length h0 = 5" and "rd_bytes r = h @ rest"
  obtains r' where "PHeader_Decode h0 r = (None, h, r')" "rd_bytes r' = rest" "rd_end r' = rd_end r"
  using io_ReadFull_ok [OF assms(3,1)] assms(1,2) by (metis (no_types) PHeader_Decode_def case_prod_conv overlay_full)

lemma PHeader_Decode_short:
  "length (rd_bytes r) < 5 \<Longrightarrow> fst (PHeader_Decode h r) = Some (short_error r)"
  by (erule io_ReadFull_short) (simp add: PHeader_Decode_def)

lemma PHeader_Decode_buffer:
  "length h = 5 \<Longrightarrow> PHeader_Decode h (bytes_buffer bs) =
    (if 5 \<le> length bs then (None, take 5 bs, bytes_buffer (drop 5 bs))
     else (Some (if bs = [] then EOF else ErrUnexpectedEOF), overlay h bs, bytes_buffer []))"
  by (simp add: PHeader_Decode_def io_ReadFull_buffer)

lemma length_zero_frame [simp]: "length (fr_Header zero_frame) = 5" "fr_Payload zero_frame = []"
  by (simp_all add: zero_frame_def zero_pheader_def)

lemma Frame_Encode_Write: "Frame_Encode f w = Write (ser_frame f) w"
  by (simp add: Frame_Encode_def PHeader_Encode_def [abs_def] then_write_Write ser_frame_def)

lemma Frame_Decode_stream:
  assumes "wf_frame f" and "rd_bytes r = ser_frame f @ rest"
  shows "\<exists>r'. Frame_Decode zero_frame r = (None, f, r') \<and> rd_bytes r' = rest \<and> rd_end r' = rd_end r"
proof -
  have b: "rd_bytes r = fr_Header f @ (fr_Payload f @ rest)" using assms(2) by (simp add: ser_frame_def)
  have l: "length (fr_Header f) = 5" "length (fr_Payload f) = unat (PGetPayloadLen (fr_Header f))"
    using assms(1) by (simp_all add: wf_frame_def)
  obtain q where q: "PHeader_Decode (fr_Header zero_frame) r = (None, fr_Header f, q)"
    "rd_bytes q = fr_Payload f @ rest" "rd_end q = rd_end r"
    by (rule PHeader_Decode_ok [OF l(1) length_zero_frame(1) b])
  show ?thesis
  proof (cases "PGetPayloadLen (fr_Header f) = 0")
    case True
    with l(2) q show ?thesis by (simp add: Frame_Decode_def Let_def)
  next
    case False
    from read_fixed_ok [OF q(2) l(2), of "\<lambda>b. b" "[]"] False q(1,3) show ?thesis
      by (auto simp: Frame_Decode_def Let_def ReadFixedBytes_def)
  qed
qed

lemma Frame_Decode_short:
  assumes "wf_frame f" and "ser_frame f = rd_bytes r @ x # xs"
  shows "fst (Frame_Decode zero_frame r) \<noteq> None"
proof -
  have l: "length (fr_Header f) = 5" "length (fr_Payload f) = unat (PGetPayloadLen (fr_Header f))"
    using assms(1) by (simp_all add: wf_frame_def)
  from assms(2) [symmetric, unfolded ser_frame_def] show ?thesis
  proof (cases rule: append_cases)
    case (short y ys)
    then have "length (rd_bytes r) < 5" using l(1) by simp
    from PHeader_Decode_short [OF this, of "fr_Header zero_frame"] show ?thesis
      by (cases "PHeader_Decode (fr_Header zero_frame) r") (simp add: Frame_Decode_def)
  next
    case (long b)
    obtain q where q: "PHeader_Decode (fr_Header zero_frame) r = (None, fr_Header f, q)" "rd_bytes q = b"
      by (rule PHeader_Decode_ok [OF l(1) length_zero_frame(1) long(1)])
    have "length (rd_bytes q) < unat (PGetPayloadLen (fr_Header f))"
      using arg_cong [OF long(2), of length] l(2) q(2) by simp
    from read_fixed_short [OF this, of "\<lambda>b. b" "[]"] q(1) this show ?thesis
      by (auto simp: Frame_Decode_def Let_def ReadFixedBytes_def)
  qed
qed

interpretation cframe: stream_codec Frame_Encode ser_frame "Frame_Decode zero_frame" wf_frame
proof unfold_locales
  fix bs
  show "snd (snd (Frame_Decode zero_frame (bytes_buffer bs))) =
      bytes_buffer (rd_bytes (snd (snd (Frame_Decode zero_frame (bytes_buffer bs)))))"
    by (simp add: Frame_Decode_def PHeader_Decode_buffer ReadFixedBytes_def read_fixed_buffer Let_def)
qed (simp_all add: Frame_Encode_Write Frame_Decode_stream Frame_Decode_short)

section \<open>Handshake messages\<close>

record 'k HandshakeReq =
  hr_SID :: 'k
  hr_Meta :: "byte list"

record HandshakeAck =
  ha_Code :: u16
  ha_Error :: string

definition HandshakeReq_Decode ::
  "'k ksuid_api \<Rightarrow> 'k HandshakeReq \<Rightarrow> reader \<Rightarrow> go_error option \<times> 'k HandshakeReq \<times> reader" where
  "HandshakeReq_Decode K h r =
     (case DecodeKSUID K r of
        (Some err, sid, r') \<Rightarrow> (Some err, h\<lparr>hr_SID := sid\<rparr>, r')
      | (None, sid, r') \<Rightarrow>
          (case ReadBytes r' of (err, meta, r'') \<Rightarrow> (err, h\<lparr>hr_SID := sid, hr_Meta := meta\<rparr>, r'')))"

definition HandshakeReq_Encode ::
  "'k ksuid_api \<Rightarrow> 'k HandshakeReq \<Rightarrow> writer \<Rightarrow> go_error option \<times> writer" where
  "HandshakeReq_Encode K h w = then_write (Write (ks_Bytes K (hr_SID h))) (WriteBytes (hr_Meta h)) w"

definition HandshakeAck_Decode :: "HandshakeAck \<Rightarrow> reader \<Rightarrow> go_error option \<times> HandshakeAck \<times> reader" where
  "HandshakeAck_Decode h r =
     (case ReadUint16 r of
        (Some err, code, r') \<Rightarrow> (Some err, h\<lparr>ha_Code := code\<rparr>, r')
      | (None, code, r') \<Rightarrow>
          (case ReadString r' of (err, error, r'') \<Rightarrow> (err, h\<lparr>ha_Code := code, ha_Error := error\<rparr>, r'')))"

definition HandshakeAck_Encode :: "HandshakeAck \<Rightarrow> writer \<Rightarrow> go_error option \<times> writer" where
  "HandshakeAck_Encode h w = then_write (WriteUint16 (ha_Code h)) (WriteString (ha_Error h)) w"

definition zero_req :: "'k ksuid_api \<Rightarrow> 'k HandshakeReq" where
  "zero_req K = \<lparr>hr_SID = ks_Nil K, hr_Meta = []\<rparr>"

definition zero_ack :: HandshakeAck where
  "zero_ack = \<lparr>ha_Code = 0, ha_Error = []\<rparr>"

definition mustGetHandshakeReq :: "'k ksuid_api \<Rightarrow> frame \<Rightarrow> 'k HandshakeReq option \<times> go_error option" where
  "mustGetHandshakeReq K f =
     (if GetOpCode (fr_Header f) \<noteq> OpHandshake then (None, Some (Errorf ''not Handshake''))
      else case HandshakeReq_Decode K (zero_req K) (bytes_buffer (fr_Payload f)) of
             (Some err, handshake, _) \<Rightarrow> (None, Some err)
           | (None, handshake, _) \<Rightarrow> (Some handshake, None))"

definition mustGetHandshakeAck :: "frame \<Rightarrow> HandshakeAck option \<times> go_error option" where
  "mustGetHandshakeAck f =
     (if GetOpCode (fr_Header f) \<noteq> OpHandshakeAck then (None, Some (Errorf ''not HandshakeAck''))
      else case HandshakeAck_Decode zero_ack (bytes_buffer (fr_Payload f)) of
             (Some err, handshakeAck, _) \<Rightarrow> (None, Some err)
           | (None, handshakeAck, _) \<Rightarrow> (Some handshakeAck, None))"

definition ack_ok :: "HandshakeAck \<Rightarrow> bool" where
  "ack_ok h \<longleftrightarrow> fits32 (ha_Error h)"

definition req_ok :: "'k HandshakeReq \<Rightarrow> bool" where
  "req_ok h \<longleftrightarrow> fits32 (hr_Meta h)"

interpretation cack: stream_codec HandshakeAck_Encode
  "\<lambda>h. PutUint16 (ha_Code h) @ ser_bytes (bytes_of (ha_Error h))" "HandshakeAck_Decode zero_ack" ack_ok
  by (rule pair_codec [OF cu16.stream_codec_axioms cstring.stream_codec_axioms,
        where mk = "\<lambda>c e. \<lparr>ha_Code = c, ha_Error = e\<rparr>" and ?y0.0 = "[]"])
     (auto simp: HandshakeAck_Encode_def HandshakeAck_Decode_def dec_pair_def zero_ack_def ack_ok_def
       split: prod.splits option.splits)

context ksuid_pkg begin

sublocale req_codec: stream_codec "HandshakeReq_Encode K"
  "\<lambda>h. ks_Bytes K (hr_SID h) @ ser_bytes (hr_Meta h)" "HandshakeReq_Decode K (zero_req K)" req_ok
  by (rule pair_codec [OF id_codec.stream_codec_axioms cbytes.stream_codec_axioms,
        where mk = "\<lambda>c e. \<lparr>hr_SID = c, hr_Meta = e\<rparr>" and ?y0.0 = "[]"])
     (auto simp: HandshakeReq_Encode_def HandshakeReq_Decode_def dec_pair_def zero_req_def req_ok_def write_id_def
       split: prod.splits option.splits)

end

text \<open>C14: The frame layer does not depend on how TCP delivers its bytes: from any reader whose bytes are the
  encodings of well-formed frames and something more, in whatever pieces they arrive, \<^verbatim>\<open>Decode\<close> reads back the
  same frames in order and leaves the rest; a stream that ends inside a frame is an error.\<close>
theorem frame_stream_roundtrip:
  assumes "list_all wf_frame fs"
  shows "(rd_bytes r = concat (map ser_frame fs) @ rest \<longrightarrow>
      (\<exists>r'. decode_n (Frame_Decode zero_frame) (length fs) r = (None, fs, r') \<and> rd_bytes r' = rest)) \<and>
    (\<forall>f x xs. f \<in> set fs \<longrightarrow> ser_frame f = rd_bytes r @ x # xs \<longrightarrow> fst (Frame_Decode zero_frame r) \<noteq> None)"
proof (intro conjI impI allI)
  assume "rd_bytes r = concat (map ser_frame fs) @ rest"
  from cframe.decode_n_stream [OF assms this]
  show "\<exists>r'. decode_n (Frame_Decode zero_frame) (length fs) r = (None, fs, r') \<and> rd_bytes r' = rest" by blast
next
  fix f x xs
  assume "f \<in> set fs" and "ser_frame f = rd_bytes r @ x # xs"
  with assms show "fst (Frame_Decode zero_frame r) \<noteq> None"
    using cframe.dec_short by (auto simp: list_all_iff)
qed

definition example_frames :: "frame list" where
  "example_frames = [NewFrame OpPing [], NewFrame OpMessage [1, 2, 3]]"

lemma example_frames_wf: "list_all wf_frame example_frames"
  by (simp add: example_frames_def fits32_def)

lemma frame_stream_roundtrip_witness:
  "\<exists>r'. decode_n (Frame_Decode zero_frame) (length example_frames)
      \<lparr>rd_chunks = map (\<lambda>b. [b]) (concat (map ser_frame example_frames) @ [9]), rd_end = ErrIO\<rparr> =
    (None, example_frames, r') \<and> rd_bytes r' = [9]"
  using frame_stream_roundtrip [OF example_frames_wf,
      of "\<lparr>rd_chunks = map (\<lambda>b. [b]) (concat (map ser_frame example_frames) @ [9]), rd_end = ErrIO\<rparr>" "[9]"]
  by (simp add: rd_bytes_def)

end
