(* ===== verification/PeerConn.thy ===== *)
theory PeerConn
  imports PeerFrame
begin

text \<open>
  What \<^verbatim>\<open>peer/tcp_peer.go\<close> does on one connection: the handshake of both sides and the read
  loop. A connection is the reader of its incoming bytes, the writer of its outgoing ones and
  whether this side has closed it. A read that fails, by a deadline too, is the error its
  reader ends with.
\<close>

record conn =
  cn_in :: reader
  cn_out :: writer
  cn_closed :: bool

text \<open>\<^verbatim>\<open>SetWriteDeadline\<close> and every write fail on a connection this side has closed.\<close>

definition conn_write ::
  "(writer \<Rightarrow> go_error option \<times> writer) \<Rightarrow> conn \<Rightarrow> go_error option \<times> conn" where
  "conn_write f c =
     (if cn_closed c then (Some ErrIO, c)
      else case f (cn_out c) of (err, w) \<Rightarrow> (err, c\<lparr>cn_out := w\<rparr>))"

definition conn_Close :: "conn \<Rightarrow> conn" where
  "conn_Close c = c\<lparr>cn_closed := True\<rparr>"

section \<open>Handshake, accepting side\<close>

text \<open>The deferred function of \<^verbatim>\<open>Upgrade\<close>: whatever happened before, an ack is written.\<close>

definition send_ack :: "u16 \<Rightarrow> go_error option \<Rightarrow> conn \<Rightarrow> conn" where
  "send_ack code validErr c =
     (let ack = \<lparr>ha_Code = code, ha_Error = (case validErr of None \<Rightarrow> [] | Some e \<Rightarrow> err_text e)\<rparr>
      in case NewFrameWithEncoder OpHandshakeAck (HandshakeAck_Encode ack) of
           (None, _) \<Rightarrow> c
         | (Some resp, _) \<Rightarrow> snd (conn_write (Frame_Encode resp) c))"

definition Upgrade ::
  "'k ksuid_api \<Rightarrow> ('k HandshakeReq \<Rightarrow> u16 \<times> go_error option) \<Rightarrow> conn \<Rightarrow>
   'k HandshakeReq option \<times> go_error option \<times> conn" where
  "Upgrade K OnHandshake c =
     (case Frame_Decode zero_frame (cn_in c) of
        (Some err, frame, r) \<Rightarrow> (None, Some err, send_ack CodeHandshakeOk None (c\<lparr>cn_in := r\<rparr>))
      | (None, frame, r) \<Rightarrow>
          (case mustGetHandshakeReq K frame of
             (req, Some err) \<Rightarrow> (req, Some err, send_ack CodeHandshakeOk None (c\<lparr>cn_in := r\<rparr>))
           | (None, None) \<Rightarrow> (None, None, c\<lparr>cn_in := r\<rparr>)
           | (Some req, None) \<Rightarrow>
               (case OnHandshake req of
                  (code, validErr) \<Rightarrow> (Some req, None, send_ack code validErr (c\<lparr>cn_in := r\<rparr>)))))"

section \<open>Handshake, connecting side\<close>

text \<open>
  \<open>dial\<close> is the result of \<^verbatim>\<open>net.DialTimeout\<close>. On an error after it the connection is returned
  with the error, and left open.
\<close>

definition ConnectServer ::
  "'k ksuid_api \<Rightarrow> go_error + conn \<Rightarrow> 'k \<Rightarrow> byte list \<Rightarrow> conn option \<times> go_error option" where
  "ConnectServer K dial clientID meta =
     (case dial of
        Inl err \<Rightarrow> (None, Some err)
      | Inr c \<Rightarrow>
          (case NewFrameWithEncoder OpHandshake (HandshakeReq_Encode K \<lparr>hr_SID = clientID, hr_Meta = meta\<rparr>) of
             (None, err) \<Rightarrow> (Some c, err)
           | (Some req, _) \<Rightarrow>
               (case conn_write (Frame_Encode req) c of
                  (Some err, c) \<Rightarrow> (Some c, Some err)
                | (None, c) \<Rightarrow>
                    (case Frame_Decode zero_frame (cn_in c) of
                       (Some err, resp, r) \<Rightarrow> (Some (c\<lparr>cn_in := r\<rparr>), Some err)
                     | (None, resp, r) \<Rightarrow>
                         (case mustGetHandshakeAck resp of
                            (_, Some err) \<Rightarrow> (Some (c\<lparr>cn_in := r\<rparr>), Some err)
                          | (None, None) \<Rightarrow> (Some (c\<lparr>cn_in := r\<rparr>), None)
                          | (Some ack, None) \<Rightarrow>
                              (if ha_Code ack \<noteq> 200
                               then (Some (c\<lparr>cn_in := r\<rparr>),
                                     Some (Errorf (''Handshake Failed, Ack code: '' @ show_nat (unat (ha_Code ack)) @
                                       '', reason :'' @ ha_Error ack)))
                               else (Some (c\<lparr>cn_in := r\<rparr>), None)))))))"

definition ack_bytes :: "u16 \<Rightarrow> go_error option \<Rightarrow> byte list" where
  "ack_bytes code validErr =
     ser_frame (NewFrame OpHandshakeAck (PutUint16 code @
       ser_bytes (bytes_of (case validErr of None \<Rightarrow> [] | Some e \<Rightarrow> err_text e))))"

definition req_bytes :: "'k ksuid_api \<Rightarrow> 'k \<Rightarrow> byte list \<Rightarrow> byte list" where
  "req_bytes K sid meta = ser_frame (NewFrame OpHandshake (ks_Bytes K sid @ ser_bytes meta))"

lemma NewFrameWithEncoder_Write:
  "f new_buffer = (None, \<lparr>wr_out = b, wr_room = None\<rparr>) \<Longrightarrow> NewFrameWithEncoder op f = (Some (NewFrame op b), None)"
  by (simp add: NewFrameWithEncoder_def NewFrame_def Let_def)

lemma send_ack_Write:
  "send_ack code validErr c = snd (conn_write (Write (ack_bytes code validErr)) c)"
proof -
  let ?ack = "\<lparr>ha_Code = code, ha_Error = (case validErr of None \<Rightarrow> [] | Some e \<Rightarrow> err_text e)\<rparr>"
  have "HandshakeAck_Encode ?ack new_buffer =
      (None, \<lparr>wr_out = PutUint16 code @ ser_bytes (bytes_of (ha_Error ?ack)), wr_room = None\<rparr>)"
    using cack.enc_buffer [of ?ack] by simp
  from NewFrameWithEncoder_Write [of "HandshakeAck_Encode ?ack", OF this, of OpHandshakeAck]
  show ?thesis
    unfolding send_ack_def Let_def ack_bytes_def by (simp add: cframe.enc_Write [abs_def])
qed

lemma send_ack_open:
  "\<not> cn_closed c \<Longrightarrow> wr_room (cn_out c) = None \<Longrightarrow>
   wr_out (cn_out (send_ack code validErr c)) = wr_out (cn_out c) @ ack_bytes code validErr"
  by (simp add: send_ack_Write conn_write_def)

lemma fits32_mono: "length xs \<le> n \<Longrightarrow> n < 2 ^ 32 \<Longrightarrow> fits32 xs"
  by (simp add: fits32_def)

text \<open>The error texts of this program are short.\<close>

definition short_text :: "go_error option \<Rightarrow> bool" where
  "short_text e \<longleftrightarrow> (case e of None \<Rightarrow> True | Some x \<Rightarrow> length (err_text x) < 65536)"

context ksuid_pkg begin

lemma mustGetHandshakeReq_ok:
  assumes "fits32 meta"
  shows "mustGetHandshakeReq K (NewFrame OpHandshake (ks_Bytes K sid @ ser_bytes meta)) =
    (Some \<lparr>hr_SID = sid, hr_Meta = meta\<rparr>, None)"
  using req_codec.dec_buffer [of "\<lparr>hr_SID = sid, hr_Meta = meta\<rparr>" "[]"] assms
  by (simp add: mustGetHandshakeReq_def req_ok_def)

lemma Upgrade_req:
  assumes "length meta < 2 ^ 31" and "rd_bytes (cn_in c) = req_bytes K sid meta @ rest"
  shows "\<exists>r. Upgrade K f c = (Some \<lparr>hr_SID = sid, hr_Meta = meta\<rparr>, None,
      send_ack (fst (f \<lparr>hr_SID = sid, hr_Meta = meta\<rparr>)) (snd (f \<lparr>hr_SID = sid, hr_Meta = meta\<rparr>)) (c\<lparr>cn_in := r\<rparr>)) \<and>
    rd_bytes r = rest \<and> rd_end r = rd_end (cn_in c)"
proof -
  let ?b = "ks_Bytes K sid @ ser_bytes meta"
  have "fits32 ?b" "fits32 meta" using assms(1) by (simp_all add: fits32_def ser_bytes_def length_Bytes len_20)
  then obtain r where "Frame_Decode zero_frame (cn_in c) = (None, NewFrame OpHandshake ?b, r)"
    "rd_bytes r = rest" "rd_end r = rd_end (cn_in c)"
    using cframe.dec_stream [OF wf_NewFrame, of ?b "cn_in c" OpHandshake rest] assms(2)
    by (auto simp: req_bytes_def)
  moreover obtain code e where "f \<lparr>hr_SID = sid, hr_Meta = meta\<rparr> = (code, e)"
    by (cases "f \<lparr>hr_SID = sid, hr_Meta = meta\<rparr>")
  ultimately show ?thesis
    using mustGetHandshakeReq_ok [OF \<open>fits32 meta\<close>, of sid] by (auto simp: Upgrade_def intro!: exI [of _ r])
qed

end

lemma mustGetHandshakeAck_ok:
  assumes "short_text e"
  shows "mustGetHandshakeAck (NewFrame OpHandshakeAck (PutUint16 code @
       ser_bytes (bytes_of (case e of None \<Rightarrow> [] | Some e \<Rightarrow> err_text e)))) =
    (Some \<lparr>ha_Code = code, ha_Error = (case e of None \<Rightarrow> [] | Some e \<Rightarrow> err_text e)\<rparr>, None)"
proof -
  have "ack_ok \<lparr>ha_Code = code, ha_Error = (case e of None \<Rightarrow> [] | Some e \<Rightarrow> err_text e)\<rparr>"
    using assms by (auto simp: ack_ok_def short_text_def fits32_def split: option.splits)
  from cack.dec_buffer [OF this, of "[]"] show ?thesis
    by (simp add: mustGetHandshakeAck_def)
qed

lemma ConnectServer_ack:
  assumes "short_text e" and "rd_bytes (cn_in c) = ack_bytes code e @ rest"
    and "\<not> cn_closed c" and "wr_room (cn_out c) = None"
  shows "\<exists>r. fst (ConnectServer K (Inr c) sid meta) =
      Some (c\<lparr>cn_out := (cn_out c)\<lparr>wr_out := wr_out (cn_out c) @ req_bytes K sid meta\<rparr>, cn_in := r\<rparr>) \<and>
    rd_bytes r = rest \<and> (snd (ConnectServer K (Inr c) sid meta) = None \<longleftrightarrow> code = 200)"
proof -
  let ?m = "\<lparr>hr_SID = sid, hr_Meta = meta\<rparr>"
  let ?b = "PutUint16 code @ ser_bytes (bytes_of (case e of None \<Rightarrow> [] | Some e \<Rightarrow> err_text e))"
  have "HandshakeReq_Encode K ?m new_buffer = (None, \<lparr>wr_out = ks_Bytes K sid @ ser_bytes meta, wr_room = None\<rparr>)"
    by (simp add: HandshakeReq_Encode_def WriteBytes_Write [abs_def] then_write_Write)
  note N = NewFrameWithEncoder_Write [of "HandshakeReq_Encode K ?m", OF this, of OpHandshake]
  have "fits32 ?b" using assms(1) by (auto simp: fits32_def ser_bytes_def short_text_def split: option.splits)
  then obtain r where r: "Frame_Decode zero_frame (cn_in c) = (None, NewFrame OpHandshakeAck ?b, r)" "rd_bytes r = rest"
    using cframe.dec_stream [OF wf_NewFrame, of ?b "cn_in c" OpHandshakeAck rest] assms(2)
    by (auto simp: ack_bytes_def)
  have W: "conn_write (Frame_Encode (NewFrame OpHandshake (ks_Bytes K sid @ ser_bytes meta))) c =
      (None, c\<lparr>cn_out := (cn_out c)\<lparr>wr_out := wr_out (cn_out c) @ req_bytes K sid meta\<rparr>\<rparr>)"
    using assms(3,4) by (simp add: conn_write_def cframe.enc_Write Write_buffer req_bytes_def)
  show ?thesis
    unfolding ConnectServer_def
    using r mustGetHandshakeAck_ok [OF assms(1), of code]
    by (cases "code = 200") (auto simp del: OpHandshake_def OpHandshakeAck_def simp: N W intro!: exI [of _ r])
qed

text \<open>C23: The two sides of a handshake agree on what was asked: when the bytes a client's \<^verbatim>\<open>ConnectServer\<close>
  writes reach a server, in any pieces, \<^verbatim>\<open>Upgrade\<close> hands exactly the client's id and meta data to
  \<^verbatim>\<open>OnHandshake\<close> and answers with its code; and the client that reads this answer succeeds iff the code is 200.\<close>
theorem handshake_agreement:
  assumes "ksuid_pkg K" and "length meta < 2 ^ 31" and "short_text (snd (f \<lparr>hr_SID = sid, hr_Meta = meta\<rparr>))"
    and "\<not> cn_closed c" and "wr_room (cn_out c) = None" and "\<not> cn_closed s" and "wr_room (cn_out s) = None"
    and "rd_bytes (cn_in s) = req_bytes K sid meta"
    and "rd_bytes (cn_in c) = ack_bytes (fst (f \<lparr>hr_SID = sid, hr_Meta = meta\<rparr>)) (snd (f \<lparr>hr_SID = sid, hr_Meta = meta\<rparr>))"
  shows "\<exists>s' c'. Upgrade K f s = (Some \<lparr>hr_SID = sid, hr_Meta = meta\<rparr>, None, s') \<and>
    wr_out (cn_out s') = wr_out (cn_out s) @ rd_bytes (cn_in c) \<and>
    fst (ConnectServer K (Inr c) sid meta) = Some c' \<and>
    wr_out (cn_out c') = wr_out (cn_out c) @ rd_bytes (cn_in s) \<and>
    (snd (ConnectServer K (Inr c) sid meta) = None \<longleftrightarrow> fst (f \<lparr>hr_SID = sid, hr_Meta = meta\<rparr>) = CodeHandshakeOk)"
proof -
  from ksuid_pkg.Upgrade_req [OF assms(1,2), of s sid "[]" f] assms(8) obtain r where
    U: "Upgrade K f s = (Some \<lparr>hr_SID = sid, hr_Meta = meta\<rparr>, None,
      send_ack (fst (f \<lparr>hr_SID = sid, hr_Meta = meta\<rparr>)) (snd (f \<lparr>hr_SID = sid, hr_Meta = meta\<rparr>)) (s\<lparr>cn_in := r\<rparr>))"
    by auto
  from ConnectServer_ack [OF assms(3), of c _ "[]" K sid meta] assms(4,5,9) obtain q where
    "fst (ConnectServer K (Inr c) sid meta) =
      Some (c\<lparr>cn_out := (cn_out c)\<lparr>wr_out := wr_out (cn_out c) @ req_bytes K sid meta\<rparr>, cn_in := q\<rparr>)"
    "snd (ConnectServer K (Inr c) sid meta) = None \<longleftrightarrow> fst (f \<lparr>hr_SID = sid, hr_Meta = meta\<rparr>) = 200"
    by auto
  with U assms(6-9) show ?thesis by (simp add: send_ack_open)
qed

text \<open>A first frame that is not a handshake request is refused by the server with an error, but the client is
  told code 200 all the same, so a client that listens to the answer believes it is connected.\<close>
theorem refused_frame_acked_ok:
  assumes "wf_frame f" and "GetOpCode (fr_Header f) \<noteq> OpHandshake" and "rd_bytes (cn_in s) = ser_frame f @ rest"
    and "\<not> cn_closed s" and "wr_room (cn_out s) = None"
  shows "\<exists>s'. Upgrade K h s = (None, Some (Errorf ''not Handshake''), s') \<and>
    wr_out (cn_out s') = wr_out (cn_out s) @ ack_bytes CodeHandshakeOk None \<and>
    (\<forall>c. rd_bytes (cn_in c) = ack_bytes CodeHandshakeOk None \<and> \<not> cn_closed c \<and> wr_room (cn_out c) = None \<longrightarrow>
      snd (ConnectServer K (Inr c) sid meta) = None)"
proof -
  obtain r where "Frame_Decode zero_frame (cn_in s) = (None, f, r)"
    using cframe.dec_stream [OF assms(1,3)] by blast
  then have "Upgrade K h s = (None, Some (Errorf ''not Handshake''), send_ack CodeHandshakeOk None (s\<lparr>cn_in := r\<rparr>))"
    using assms(2) by (simp add: Upgrade_def mustGetHandshakeReq_def)
  moreover have "snd (ConnectServer K (Inr c) sid meta) = None"
    if "rd_bytes (cn_in c) = ack_bytes CodeHandshakeOk None" "\<not> cn_closed c" "wr_room (cn_out c) = None" for c
    using ConnectServer_ack [of None c CodeHandshakeOk "[]" K sid meta] that by (auto simp: short_text_def)
  ultimately show ?thesis using assms(4,5) by (simp add: send_ack_open)
qed

definition open_conn :: "byte list \<Rightarrow> conn" where
  "open_conn bs = \<lparr>cn_in = \<lparr>rd_chunks = [bs], rd_end = EOF\<rparr>, cn_out = new_buffer, cn_closed = False\<rparr>"

lemma open_conn_simps [simp]: "rd_bytes (cn_in (open_conn bs)) = bs" "\<not> cn_closed (open_conn bs)"
    "wr_room (cn_out (open_conn bs)) = None" "wr_out (cn_out (open_conn bs)) = []"
  by (simp_all add: open_conn_def rd_bytes_def new_buffer_def)

lemma handshake_agreement_witness:
  "\<exists>s' c'. Upgrade id20_api (\<lambda>_. (CodeHandshakeOk, None)) (open_conn (req_bytes id20_api (id20_of 7) [103])) =
      (Some \<lparr>hr_SID = id20_of 7, hr_Meta = [103]\<rparr>, None, s') \<and>
    fst (ConnectServer id20_api (Inr (open_conn (ack_bytes CodeHandshakeOk None))) (id20_of 7) [103]) = Some c'"
  using handshake_agreement [OF id20.ksuid_pkg_axioms, of "[103]" "\<lambda>_. (CodeHandshakeOk, None)" "id20_of 7"
      "open_conn (ack_bytes CodeHandshakeOk None)" "open_conn (req_bytes id20_api (id20_of 7) [103])"]
  by (auto simp: short_text_def)

lemma refused_frame_acked_ok_witness:
  "\<exists>s'. Upgrade id20_api (\<lambda>_. (CodeHandshakeOk, None)) (open_conn (ser_frame (NewFrame OpPing []))) =
    (None, Some (Errorf ''not Handshake''), s')"
  using refused_frame_acked_ok [of "NewFrame OpPing []" "open_conn (ser_frame (NewFrame OpPing []))" "[]" id20_api
      "\<lambda>_. (CodeHandshakeOk, None)" "id20_of 0" "[]"]
  by (auto simp: fits32_def)

section \<open>The read loop\<close>

text \<open>
  \<^verbatim>\<open>WriteControl\<close> and \<^verbatim>\<open>writeFrame\<close> hold the peer's lock, so their bytes are not interleaved;
  the pooled \<^verbatim>\<open>bufio\<close> writer of \<^verbatim>\<open>writeFrame\<close> collects the frame and flushes it.
\<close>

definition WriteControl :: "opcode \<Rightarrow> byte list \<Rightarrow> conn \<Rightarrow> go_error option \<times> conn" where
  "WriteControl opCode payload c = conn_write (Frame_Encode (NewFrame opCode payload)) c"

definition writeFrame :: "frame \<Rightarrow> conn \<Rightarrow> go_error option \<times> conn" where
  "writeFrame frame c =
     (case Frame_Encode frame new_buffer of
        (Some err, bw) \<Rightarrow> (Some err, c)
      | (None, bw) \<Rightarrow> conn_write (Write (wr_out bw)) c)"

datatype read_exit = ReadError go_error | PeerClosed | PongError go_error | PayloadError go_error

text \<open>
  The loop of \<^verbatim>\<open>readHandler\<close>: the payloads it sends to \<^verbatim>\<open>onMsg\<close> in order, why it stops, and
  the connection it leaves. The payload of a ping or pong is not read.
\<close>

function read_frames :: "conn \<Rightarrow> byte list list \<times> read_exit \<times> conn" where
  "read_frames c =
     (case PHeader_Decode zero_pheader (cn_in c) of
        (Some err, header, r) \<Rightarrow> ([], ReadError err, c\<lparr>cn_in := r\<rparr>)
      | (None, header, r) \<Rightarrow>
          (let c1 = c\<lparr>cn_in := r\<rparr>
           in if PeerFrame.GetOpCode header = OpClose then ([], PeerClosed, c1)
              else if PeerFrame.GetOpCode header = OpPing then
                (case WriteControl OpPong [] c1 of
                   (Some err, c2) \<Rightarrow> ([], PongError err, c2)
                 | (None, c2) \<Rightarrow> read_frames c2)
              else if PeerFrame.GetOpCode header = OpPong then read_frames c1
              else let payloadLen = PGetPayloadLen header
                in if payloadLen = 0 then read_frames c1
                   else case io_ReadFull (unat payloadLen) r of
                     (payload, Some err, r2) \<Rightarrow> ([], PayloadError err, c\<lparr>cn_in := r2\<rparr>)
                   | (payload, None, r2) \<Rightarrow>
                       (case read_frames (c\<lparr>cn_in := r2\<rparr>) of (ms, ex, c') \<Rightarrow> (payload # ms, ex, c'))))"
  by pat_completeness auto

lemma PHeader_Decode_shrinks:
  "PHeader_Decode h r = (None, h', r') \<Longrightarrow> length (rd_bytes r') < length (rd_bytes r)"
  by (cases rule: io_ReadFull_cases [of 5 r]) (auto simp: PHeader_Decode_def)

lemma io_ReadFull_shrinks:
  "io_ReadFull n r = (d, e, r') \<Longrightarrow> length (rd_bytes r') \<le> length (rd_bytes r)"
  by (cases rule: io_ReadFull_cases [of n r]) auto

lemma conn_write_in [simp]: "cn_in (snd (conn_write f c)) = cn_in c" "cn_closed (snd (conn_write f c)) = cn_closed c"
  by (auto simp: conn_write_def split: prod.splits)

lemma WriteControl_in: "WriteControl op p c = (e, c') \<Longrightarrow> cn_in c' = cn_in c \<and> cn_closed c' = cn_closed c"
  unfolding WriteControl_def by (metis conn_write_in snd_conv)

lemma ping_shrinks:
  assumes "(None, h', r') = PHeader_Decode h (cn_in c)"
    and "(None, c2) = WriteControl op p (c\<lparr>cn_in := r'\<rparr>)"
  shows "length (rd_bytes (cn_in c2)) < length (rd_bytes (cn_in c))"
  using PHeader_Decode_shrinks [OF assms(1) [symmetric]] WriteControl_in [OF assms(2) [symmetric]] by simp

termination read_frames
  by (relation "measure (\<lambda>c. length (rd_bytes (cn_in c)))")
     (auto dest: PHeader_Decode_shrinks [OF sym] io_ReadFull_shrinks [OF sym] ping_shrinks le_less_trans)

declare read_frames.simps [simp del]

text \<open>One turn of the loop, by the opcode of the header it reads.\<close>

definition is_ping :: "frame \<Rightarrow> bool" where
  "is_ping f \<longleftrightarrow> GetOpCode (fr_Header f) = OpPing"

definition pong_bytes :: "byte list" where
  "pong_bytes = ser_frame (NewFrame OpPong [])"

text \<open>What a well-behaved peer sends before it closes: control frames without a payload, and data.\<close>

definition loop_frame :: "frame \<Rightarrow> bool" where
  "loop_frame f \<longleftrightarrow> wf_frame f \<and> GetOpCode (fr_Header f) \<noteq> OpClose \<and>
     (GetOpCode (fr_Header f) \<in> {OpPing, OpPong} \<longrightarrow> fr_Payload f = [])"

definition payloads :: "frame list \<Rightarrow> byte list list" where
  "payloads fs = filter (\<lambda>p. p \<noteq> []) (map fr_Payload fs)"

definition conn_writable :: "conn \<Rightarrow> bool" where
  "conn_writable c \<longleftrightarrow> \<not> cn_closed c \<and> wr_room (cn_out c) = None"

definition sent :: "byte list \<Rightarrow> conn \<Rightarrow> conn" where
  "sent bs c = c\<lparr>cn_out := (cn_out c)\<lparr>wr_out := wr_out (cn_out c) @ bs\<rparr>\<rparr>"

lemma sent_simps [simp]: "cn_in (sent bs c) = cn_in c" "cn_closed (sent bs c) = cn_closed c"
    "wr_out (cn_out (sent bs c)) = wr_out (cn_out c) @ bs" "wr_room (cn_out (sent bs c)) = wr_room (cn_out c)"
    "sent [] c = c" "sent b (sent a c) = sent (a @ b) c" "conn_writable (sent bs c) = conn_writable c"
    "(sent bs c)\<lparr>cn_in := r\<rparr> = sent bs (c\<lparr>cn_in := r\<rparr>)" "conn_writable (c\<lparr>cn_in := r\<rparr>) = conn_writable c"
  by (simp_all add: sent_def conn_writable_def)

lemma conn_write_sent: "conn_writable c \<Longrightarrow> conn_write (Write bs) c = (None, sent bs c)"
  by (simp add: conn_write_def conn_writable_def sent_def)

lemma WriteControl_sent: "conn_writable c \<Longrightarrow> WriteControl op p c = (None, sent (ser_frame (NewFrame op p)) c)"
  by (simp add: WriteControl_def cframe.enc_Write [abs_def] conn_write_sent)

lemma writeFrame_sent: "conn_writable c \<Longrightarrow> writeFrame f c = (None, sent (ser_frame f) c)"
  by (simp add: writeFrame_def cframe.enc_Write conn_write_sent)

lemma wf_frame_header: "wf_frame f \<Longrightarrow> length (fr_Header f) = 5"
  by (simp add: wf_frame_def)

lemma read_frames_header:
  assumes "length h = 5" and "rd_bytes (cn_in c) = h @ rest"
  obtains r where "PHeader_Decode zero_pheader (cn_in c) = (None, h, r)" "rd_bytes r = rest" "rd_end r = rd_end (cn_in c)"
  by (rule PHeader_Decode_ok [OF assms(1) _ assms(2), of zero_pheader]) (simp_all add: zero_pheader_def)

lemma read_frames_close:
  assumes "length h = 5" and "GetOpCode h = OpClose" and "rd_bytes (cn_in c) = h @ rest"
  shows "\<exists>r. read_frames c = ([], PeerClosed, c\<lparr>cn_in := r\<rparr>) \<and> rd_bytes r = rest"
  by (rule read_frames_header [OF assms(1,3)]) (use assms(2) in \<open>auto simp: read_frames.simps [of c]\<close>)

lemma read_frames_ping:
  assumes "length h = 5" and "GetOpCode h = OpPing" and "rd_bytes (cn_in c) = h @ rest" and "conn_writable c"
  shows "\<exists>r. read_frames c = read_frames (sent pong_bytes (c\<lparr>cn_in := r\<rparr>)) \<and>
    rd_bytes r = rest \<and> rd_end r = rd_end (cn_in c)"
  by (rule read_frames_header [OF assms(1,3)])
     (use assms(2,4) in \<open>auto simp: read_frames.simps [of c] WriteControl_sent pong_bytes_def\<close>)

lemma read_frames_pong:
  assumes "length h = 5" and "GetOpCode h = OpPong" and "rd_bytes (cn_in c) = h @ rest"
  shows "\<exists>r. read_frames c = read_frames (c\<lparr>cn_in := r\<rparr>) \<and> rd_bytes r = rest \<and> rd_end r = rd_end (cn_in c)"
  by (rule read_frames_header [OF assms(1,3)]) (use assms(2) in \<open>auto simp: read_frames.simps [of c]\<close>)

lemma read_frames_data:
  assumes "wf_frame f" and "GetOpCode (fr_Header f) \<notin> {OpClose, OpPing, OpPong}"
    and "rd_bytes (cn_in c) = ser_frame f @ rest"
  shows "\<exists>r. read_frames c =
      (case read_frames (c\<lparr>cn_in := r\<rparr>) of (ms, ex, c') \<Rightarrow> (payloads [f] @ ms, ex, c')) \<and>
    rd_bytes r = rest \<and> rd_end r = rd_end (cn_in c)"
proof -
  have b: "rd_bytes (cn_in c) = fr_Header f @ (fr_Payload f @ rest)" using assms(3) by (simp add: ser_frame_def)
  obtain r where r: "PHeader_Decode zero_pheader (cn_in c) = (None, fr_Header f, r)"
    "rd_bytes r = fr_Payload f @ rest" "rd_end r = rd_end (cn_in c)"
    by (rule read_frames_header [OF wf_frame_header [OF assms(1)] b])
  have l: "length (fr_Payload f) = unat (PGetPayloadLen (fr_Header f))" using assms(1) by (simp add: wf_frame_def)
  show ?thesis
  proof (cases "PGetPayloadLen (fr_Header f) = 0")
    case True
    then have "read_frames c = read_frames (c\<lparr>cn_in := r\<rparr>)" "fr_Payload f = []"
      using r(1) assms(2) l by (simp_all add: read_frames.simps [of c])
    with r show ?thesis by (auto simp: payloads_def split: prod.splits intro!: exI [of _ r])
  next
    case False
    then have "fr_Payload f \<noteq> []" using l by (auto simp: unat_eq_zero)
    obtain q where q: "io_ReadFull (unat (PGetPayloadLen (fr_Header f))) r = (fr_Payload f, None, q)"
      "rd_bytes q = rest" "rd_end q = rd_end r"
      by (rule io_ReadFull_ok [OF r(2) l])
    with False r assms(2) \<open>fr_Payload f \<noteq> []\<close> show ?thesis
      by (auto simp: read_frames.simps [of c] payloads_def Let_def intro!: exI [of _ q])
  qed
qed

lemma read_frames_one:
  assumes "loop_frame f" and "rd_bytes (cn_in c) = ser_frame f @ rest" and "conn_writable c"
  shows "\<exists>r. read_frames c =
      (case read_frames (sent (if is_ping f then pong_bytes else []) (c\<lparr>cn_in := r\<rparr>)) of
         (ms, ex, c') \<Rightarrow> (payloads [f] @ ms, ex, c')) \<and>
    rd_bytes r = rest \<and> rd_end r = rd_end (cn_in c)"
proof (cases "GetOpCode (fr_Header f) \<in> {OpPing, OpPong}")
  case True
  then have p: "fr_Payload f = []" and h: "length (fr_Header f) = 5"
    using assms(1) by (auto simp: loop_frame_def wf_frame_def)
  then have b: "rd_bytes (cn_in c) = fr_Header f @ rest" using assms(2) by (simp add: ser_frame_def)
  show ?thesis
  proof (cases "is_ping f")
    case True
    with read_frames_ping [OF h _ b assms(3)] p show ?thesis
      by (auto simp: is_ping_def payloads_def split: prod.splits)
  next
    case False
    with True read_frames_pong [OF h _ b] p show ?thesis
      by (auto simp: is_ping_def payloads_def split: prod.splits)
  qed
next
  case False
  with read_frames_data [OF _ _ assms(2)] assms(1) show ?thesis
    by (simp add: loop_frame_def is_ping_def)
qed

definition pongs :: "frame list \<Rightarrow> byte list" where
  "pongs fs = concat (replicate (length (filter is_ping fs)) pong_bytes)"

lemma payloads_Cons: "payloads (f # fs) = payloads [f] @ payloads fs"
  by (simp add: payloads_def)

lemma pongs_Cons: "pongs (f # fs) = (if is_ping f then pong_bytes else []) @ pongs fs"
  by (simp add: pongs_def)

lemma read_frames_list:
  assumes "list_all loop_frame fs" and "rd_bytes (cn_in c) = concat (map ser_frame fs) @ rest" and "conn_writable c"
  shows "\<exists>r. read_frames c =
      (case read_frames (sent (pongs fs) (c\<lparr>cn_in := r\<rparr>)) of (ms, ex, c') \<Rightarrow> (payloads fs @ ms, ex, c')) \<and>
    rd_bytes r = rest \<and> rd_end r = rd_end (cn_in c)"
  using assms
proof (induction fs arbitrary: c)
  case Nil
  then show ?case by (auto simp: payloads_def pongs_def split: prod.splits intro!: exI [of _ "cn_in c"])
next
  case (Cons f fs)
  let ?p = "if is_ping f then pong_bytes else []"
  from Cons.prems read_frames_one [of f c "concat (map ser_frame fs) @ rest"] obtain r where
    r: "read_frames c = (case read_frames (sent ?p (c\<lparr>cn_in := r\<rparr>)) of (ms, ex, c') \<Rightarrow> (payloads [f] @ ms, ex, c'))"
    "rd_bytes r = concat (map ser_frame fs) @ rest" "rd_end r = rd_end (cn_in c)"
    by auto
  let ?c = "sent ?p (c\<lparr>cn_in := r\<rparr>)"
  from Cons.IH [of ?c] Cons.prems r(2) obtain q where
    q: "read_frames ?c = (case read_frames (sent (pongs fs) (?c\<lparr>cn_in := q\<rparr>)) of (ms, ex, c') \<Rightarrow> (payloads fs @ ms, ex, c'))"
    "rd_bytes q = rest" "rd_end q = rd_end (cn_in ?c)"
    by auto
  have "sent (pongs fs) (?c\<lparr>cn_in := q\<rparr>) = sent (pongs (f # fs)) (c\<lparr>cn_in := q\<rparr>)"
    by (simp add: pongs_Cons sent_def)
  with q r show ?case by (auto simp: payloads_Cons [of f fs] split: prod.splits intro!: exI [of _ q])
qed

lemma read_frames_until_close:
  assumes "list_all loop_frame fs" and "conn_writable c"
    and "rd_bytes (cn_in c) = concat (map ser_frame fs) @ ser_frame (NewFrame OpClose []) @ rest"
  shows "\<exists>r. read_frames c = (payloads fs, PeerClosed, sent (pongs fs) (c\<lparr>cn_in := r\<rparr>)) \<and> rd_bytes r = rest"
proof -
  obtain r where
    r: "read_frames c = (case read_frames (sent (pongs fs) (c\<lparr>cn_in := r\<rparr>)) of (ms, ex, c') \<Rightarrow> (payloads fs @ ms, ex, c'))"
    "rd_bytes r = fr_Header (NewFrame OpClose []) @ rest"
    using read_frames_list [OF assms(1,3,2)] by (auto simp: ser_frame_def)
  obtain q where "read_frames (sent (pongs fs) (c\<lparr>cn_in := r\<rparr>)) = ([], PeerClosed, sent (pongs fs) (c\<lparr>cn_in := q\<rparr>))"
    "rd_bytes q = rest"
    using read_frames_close [of "fr_Header (NewFrame OpClose [])" "sent (pongs fs) (c\<lparr>cn_in := r\<rparr>)" rest] r(2)
    by (auto simp: wf_frame_header fits32_def)
  with r show ?thesis by auto
qed

lemma read_frames_until_eof:
  assumes "list_all loop_frame fs" and "conn_writable c"
    and "rd_bytes (cn_in c) = concat (map ser_frame fs)"
  shows "\<exists>r. read_frames c = (payloads fs, ReadError (rd_end (cn_in c)), sent (pongs fs) (c\<lparr>cn_in := r\<rparr>))"
proof -
  obtain r where
    r: "read_frames c = (case read_frames (sent (pongs fs) (c\<lparr>cn_in := r\<rparr>)) of (ms, ex, c') \<Rightarrow> (payloads fs @ ms, ex, c'))"
    "rd_bytes r = []" "rd_end r = rd_end (cn_in c)"
    using read_frames_list [OF assms(1) _ assms(2), of "[]"] assms(3) by auto
  obtain h q where "PHeader_Decode zero_pheader r = (Some (rd_end r), h, q)"
    using PHeader_Decode_short [of r zero_pheader] r(2)
    by (cases "PHeader_Decode zero_pheader r") (auto simp: short_error_def)
  then have "read_frames (sent (pongs fs) (c\<lparr>cn_in := r\<rparr>)) = ([], ReadError (rd_end r), sent (pongs fs) (c\<lparr>cn_in := q\<rparr>))"
    by (subst read_frames.simps) (simp add: sent_def)
  with r show ?thesis by auto
qed

text \<open>The read loop of a peer delivers exactly the non-empty data payloads, in order, and answers each ping
  with one pong, however the frames before the close frame are cut into reads; a close frame ends it, and
  nothing after the close frame is looked at. When the stream ends between two frames instead, it has
  delivered the same messages and stops with the error of the stream.\<close>
theorem read_loop_delivers:
  assumes "list_all loop_frame fs" and "conn_writable c"
  shows "(rd_bytes (cn_in c) = concat (map ser_frame fs) @ ser_frame (NewFrame OpClose []) @ rest \<longrightarrow>
      (\<exists>r. read_frames c = (payloads fs, PeerClosed, sent (pongs fs) (c\<lparr>cn_in := r\<rparr>)) \<and> rd_bytes r = rest)) \<and>
    (rd_bytes (cn_in c) = concat (map ser_frame fs) \<longrightarrow>
      (\<exists>r. read_frames c = (payloads fs, ReadError (rd_end (cn_in c)), sent (pongs fs) (c\<lparr>cn_in := r\<rparr>))))"
  using read_frames_until_close [OF assms] read_frames_until_eof [OF assms] by blast

text \<open>A ping or pong with a payload, which \<^verbatim>\<open>WriteControl\<close> lets a peer send, is not skipped by the read loop: its payload
  is parsed as the frames that follow, so the bytes of an application payload are delivered as a message of their own.\<close>
theorem ping_payload_injected:
  assumes "op \<in> {OpPing, OpPong}" and "fits32 m" and "m \<noteq> []" and "conn_writable c"
    and "rd_bytes (cn_in c) = ser_frame (NewFrame op (ser_frame (NewFrame OpMessage m))) @ ser_frame (NewFrame OpClose []) @ rest"
  shows "\<exists>c'. read_frames c = ([m], PeerClosed, c')"
proof -
  let ?n = "NewFrame OpMessage m"
  let ?h = "fr_Header (NewFrame op (ser_frame ?n))"
  let ?rest = "ser_frame ?n @ ser_frame (NewFrame OpClose []) @ rest"
  have h: "length ?h = 5" "rd_bytes (cn_in c) = ?h @ ?rest" "GetOpCode ?h = op"
    using assms(5) by (simp_all add: ser_frame_def NewFrame_def)
  have l: "list_all loop_frame [?n]" using assms(2) by (simp add: loop_frame_def)
  have p: "payloads [?n] = [m]" using assms(3) by (simp add: payloads_def)
  have close: "\<exists>c'. read_frames d = ([m], PeerClosed, c')" if "rd_bytes (cn_in d) = ?rest" "conn_writable d" for d
    using read_frames_until_close [OF l that(2), of rest] that(1) p by auto
  show ?thesis
  proof (cases "op = OpPing")
    case True
    then obtain r where "read_frames c = read_frames (sent pong_bytes (c\<lparr>cn_in := r\<rparr>))" "rd_bytes r = ?rest"
      using read_frames_ping [OF h(1) _ h(2) assms(4)] h(3) by auto
    with close [of "sent pong_bytes (c\<lparr>cn_in := r\<rparr>)"] assms(4) show ?thesis by (simp add: sent_def conn_writable_def)
  next
    case False
    then obtain r where "read_frames c = read_frames (c\<lparr>cn_in := r\<rparr>)" "rd_bytes r = ?rest"
      using read_frames_pong [OF h(1) _ h(2)] h(3) assms(1) by auto
    with close [of "c\<lparr>cn_in := r\<rparr>"] assms(4) show ?thesis by simp
  qed
qed

definition loop_example :: "frame list" where
  "loop_example = [NewFrame OpPing [], NewFrame OpMessage [7, 8], NewFrame OpMessage [], NewFrame OpMessage [9]]"

lemma conn_writable_open [simp]: "conn_writable (open_conn bs)"
  by (simp add: conn_writable_def)

lemma read_loop_delivers_witness:
  "\<exists>r. read_frames (open_conn (concat (map ser_frame loop_example) @ ser_frame (NewFrame OpClose []) @ [1, 2])) =
      ([[7, 8], [9]], PeerClosed,
       sent pong_bytes ((open_conn (concat (map ser_frame loop_example) @ ser_frame (NewFrame OpClose []) @ [1, 2]))\<lparr>cn_in := r\<rparr>)) \<and>
    rd_bytes r = [1, 2]"
proof -
  have "list_all loop_frame loop_example" by (simp add: loop_example_def loop_frame_def fits32_def)
  from read_loop_delivers [OF this,
      of "open_conn (concat (map ser_frame loop_example) @ ser_frame (NewFrame OpClose []) @ [1, 2])" "[1, 2]"]
  show ?thesis by (simp add: payloads_def pongs_def loop_example_def is_ping_def)
qed

lemma ping_payload_injected_witness:
  "\<exists>c'. read_frames (open_conn (ser_frame (NewFrame OpPing (ser_frame (NewFrame OpMessage [42]))) @
      ser_frame (NewFrame OpClose []) @ [])) = ([[42]], PeerClosed, c')"
  by (rule ping_payload_injected [of OpPing]) (simp_all add: fits32_def)

end
