(* ===== verification/WsClient.thy ===== *)
theory WsClient
  imports PeerConn
begin

text \<open>
  The websocket client of \<^verbatim>\<open>peer/ws_client.go\<close>: its state, the messages of one websocket payload,
  the read loop, pushing and closing. The websocket package, the rate limiter and the option
  merger are third-party code: the first is the record \<open>ws_api\<close>, the second makes, of a rate, a predicate on the
  number of payloads taken so far, the third a function. A version is the text it was parsed from.
\<close>

section \<open>State\<close>

datatype ws_op = WsContinuation | WsText | WsBinary | WsClose | WsPing | WsPong

record ws_header =
  wh_OpCode :: ws_op
  wh_Length :: nat
  wh_Masked :: bool
  wh_Mask :: "byte list"

record ws_api =
  ws_ReadHeader :: "reader \<Rightarrow> go_error option \<times> ws_header \<times> reader"
  ws_Cipher :: "byte list \<Rightarrow> byte list \<Rightarrow> byte list"
  ws_ServerMessage :: "ws_op \<Rightarrow> byte list \<Rightarrow> byte list"

record client_attrs =
  at_Username :: string
  at_Device :: byte
  at_RemoteIP :: string
  at_Version :: string

record client_conf =
  cf_PongWait :: int \<comment> \<open>seconds\<close>
  cf_RemotePing :: bool
  cf_ReaderBufferSize :: int
  cf_Rate :: int

text \<open>\<open>bufsize\<close> is the default size of the websocket package's read buffer.\<close>

definition DefConf :: "int \<Rightarrow> client_conf" where
  "DefConf bufsize = \<lparr>cf_PongWait = 60, cf_RemotePing = True, cf_ReaderBufferSize = bufsize, cf_Rate = 10\<rparr>"

definition Reset :: "int \<Rightarrow> client_conf \<Rightarrow> client_conf" where
  "Reset bufsize c = c\<lparr>cf_PongWait := 0, cf_RemotePing := False, cf_ReaderBufferSize := bufsize, cf_Rate := 10\<rparr>"

record 'k ClientMessage =
  cm_ID :: 'k
  cm_Attrs :: "client_attrs option"
  cm_Payload :: message

text \<open>\<open>cl_onMsg\<close> and \<open>cl_onDisconnect\<close> record what was sent to the two channels of the listener.\<close>

record 'k ws_client =
  cl_ID :: 'k
  cl_Attrs :: "client_attrs option"
  cl_conf :: "client_conf option"
  cl_conn :: "conn option"
  cl_state :: lifecycle
  cl_onMsg :: "'k ClientMessage list"
  cl_onDisconnect :: nat

text \<open>The log fields dereference the attributes.\<close>

definition NewClient ::
  "'k \<Rightarrow> (client_conf option \<Rightarrow> client_conf option) \<Rightarrow> conn option \<Rightarrow> client_conf option \<Rightarrow> client_attrs option \<Rightarrow>
   'k ws_client outcome" where
  "NewClient uuid merge conn conf attrs =
     (if attrs = None then Panic NilDeref
      else Ret \<lparr>cl_ID = uuid, cl_Attrs = attrs, cl_conf = merge conf, cl_conn = conn, cl_state = Closed,
                cl_onMsg = [], cl_onDisconnect = 0\<rparr>)"

section \<open>Writing\<close>

text \<open>A method of a \<^verbatim>\<open>nil\<close> connection panics; \<open>client_write\<close> is the body of both writers.\<close>

definition client_write :: "byte list \<Rightarrow> 'k ws_client \<Rightarrow> (go_error option \<times> 'k ws_client) outcome" where
  "client_write bs p =
     (case cl_conn p of
        None \<Rightarrow> Panic NilDeref
      | Some c \<Rightarrow> (case conn_write (Write bs) c of (err, c') \<Rightarrow> Ret (err, p\<lparr>cl_conn := Some c'\<rparr>)))"

definition Client_WriteControl ::
  "ws_api \<Rightarrow> ws_op \<Rightarrow> byte list \<Rightarrow> 'k ws_client \<Rightarrow> (go_error option \<times> 'k ws_client) outcome" where
  "Client_WriteControl W opCode payload p = client_write (ws_ServerMessage W opCode payload) p"

definition writeMessage :: "ws_api \<Rightarrow> byte list \<Rightarrow> 'k ws_client \<Rightarrow> (go_error option \<times> 'k ws_client) outcome" where
  "writeMessage W payload p = client_write (ws_ServerMessage W WsBinary payload) p"

definition Client_Push :: "ws_api \<Rightarrow> byte list \<Rightarrow> 'k ws_client \<Rightarrow> (go_error option \<times> 'k ws_client) outcome" where
  "Client_Push W payload p =
     (if cl_state p \<noteq> Started then Ret (Some ErrClientIsClosed, p) else writeMessage W payload p)"

lemma client_write_in:
  "client_write bs p = Ret (e, p') \<Longrightarrow> \<exists>c c'. cl_conn p = Some c \<and> p' = p\<lparr>cl_conn := Some c'\<rparr> \<and> cn_in c' = cn_in c"
  unfolding client_write_def
  by (auto split: option.splits prod.splits) (metis conn_write_in(1) snd_conv)

section \<open>Lifecycle\<close>

text \<open>The reader goroutine \<^verbatim>\<open>Start\<close> spawns runs later; the log line dereferences the attributes.\<close>

definition Client_Start :: "'k ws_client \<Rightarrow> (go_error option \<times> 'k ws_client) outcome" where
  "Client_Start p =
     (case cas (cl_state p) Closed Started of
        (False, _) \<Rightarrow> Ret (Some ErrClientIsStarted, p)
      | (True, st) \<Rightarrow> if cl_Attrs p = None then Panic NilDeref else Ret (None, p\<lparr>cl_state := st\<rparr>))"

definition Client_Close :: "ws_api \<Rightarrow> 'k ws_client \<Rightarrow> 'k ws_client outcome" where
  "Client_Close W p =
     (case cas (cl_state p) Started Closing of
        (False, _) \<Rightarrow> Ret p
      | (True, st) \<Rightarrow>
          obind (Client_WriteControl W WsClose [] (p\<lparr>cl_state := st\<rparr>)) (\<lambda>(err, p1).
          let p2 = (if err \<noteq> None then p1 else p1\<lparr>cl_conn := map_option conn_Close (cl_conn p1)\<rparr>)
          in Ret (p2\<lparr>cl_state := snd (cas (cl_state p2) Closing Closed)\<rparr>)))"

definition clean :: "'k ws_client \<Rightarrow> 'k ws_client" where
  "clean p = p\<lparr>cl_conn := None, cl_Attrs := None\<rparr>"

text \<open>The deferred function of \<^verbatim>\<open>readHandler\<close>.\<close>

definition client_exit :: "'k ws_client \<Rightarrow> 'k ws_client outcome" where
  "client_exit p =
     (case cas (cl_state p) Started Closing of
        (False, _) \<Rightarrow> Ret p
      | (True, st) \<Rightarrow>
          (case cl_conn p of
             None \<Rightarrow> Panic NilDeref
           | Some c \<Rightarrow>
               let p1 = p\<lparr>cl_state := st, cl_conn := Some (conn_Close c), cl_onDisconnect := Suc (cl_onDisconnect p)\<rparr>;
                   p2 = clean p1
               in Ret (p2\<lparr>cl_state := snd (cas (cl_state p2) Closing Closed)\<rparr>)))"

section \<open>Messages of a payload\<close>

text \<open>The loop of \<^verbatim>\<open>handleMessage\<close>, over the buffer it reads from.\<close>

function handle_messages :: "ws_api \<Rightarrow> 'k ws_client \<Rightarrow> reader \<Rightarrow> 'k ws_client outcome" where
  "handle_messages W p buf =
     (case Message_Decode zero_message buf of
        (Some err, msg, buf') \<Rightarrow> Ret p
      | (None, msg, buf') \<Rightarrow>
          if GetPID (msg_Header msg) = PIDPing
          then obind (writeMessage W Pong p) (\<lambda>(_, p'). handle_messages W p' buf')
          else handle_messages W
                 (p\<lparr>cl_onMsg := cl_onMsg p @ [\<lparr>cm_ID = cl_ID p, cm_Attrs = cl_Attrs p, cm_Payload = msg\<rparr>]\<rparr>) buf')"
  by pat_completeness auto

text \<open>Every read takes a piece or some bytes off the reader.\<close>

definition rd_size :: "reader \<Rightarrow> nat" where
  "rd_size r = length (rd_chunks r) + length (rd_bytes r)"

lemma Read_shrinks: "Read n r = (d, e, r') \<Longrightarrow> rd_size r' \<le> rd_size r"
  "Read n r = (d, None, r') \<Longrightarrow> 0 < n \<Longrightarrow> rd_size r' < rd_size r"
  by (auto simp: Read_def rd_size_def rd_bytes_def split: list.splits if_splits)

lemma Message_Decode_shrinks:
  assumes "Message_Decode m r = (None, m', r')"
  shows "rd_size r' < rd_size r"
proof -
  obtain d e q where q: "Read 10 r = (d, e, q)" by (cases "Read 10 r")
  with assms have "e = None" by (cases e) (auto simp: Message_Decode_def Header_Decode_def)
  with q have "rd_size q < rd_size r" by (auto dest: Read_shrinks(2))
  moreover have "rd_size r' \<le> rd_size q"
    using assms q \<open>e = None\<close>
    by (auto simp: Message_Decode_def Header_Decode_def Let_def split: if_splits prod.splits dest: Read_shrinks(1))
  ultimately show ?thesis by simp
qed

termination handle_messages
  by (relation "measure (\<lambda>(W, p, buf). rd_size buf)") (auto dest: Message_Decode_shrinks [OF sym])

declare handle_messages.simps [simp del]

definition handleMessage :: "ws_api \<Rightarrow> byte list \<Rightarrow> 'k ws_client \<Rightarrow> 'k ws_client outcome" where
  "handleMessage W payload p = handle_messages W p (bytes_buffer payload)"

lemma handle_messages_in:
  "handle_messages W p buf = Ret p' \<Longrightarrow> cl_conn p = Some c \<Longrightarrow> \<exists>c'. cl_conn p' = Some c' \<and> cn_in c' = cn_in c"
proof (induction W p buf arbitrary: c rule: handle_messages.induct)
  case (1 W p buf)
  obtain e m r where d: "Message_Decode zero_message buf = (e, m, r)" by (cases "Message_Decode zero_message buf")
  show ?case
  proof (cases "e = None \<and> GetPID (msg_Header m) = PIDPing")
    case True
    with d "1.prems" obtain e2 q where q: "writeMessage W Pong p = Ret (e2, q)" "handle_messages W q r = Ret p'"
      by (auto simp: handle_messages.simps [of W p buf] obind_eq_Ret)
    with "1.prems"(2) obtain c2 where "cl_conn q = Some c2" "cn_in c2 = cn_in c"
      using client_write_in unfolding writeMessage_def by fastforce
    with "1.IH"(1) [of e "(m, r)" m r "(e2, q)" e2 q c2] True d q show ?thesis by auto
  next
    case False
    with d "1.prems" "1.IH"(2) [of e "(m, r)" m r] show ?thesis
      by (auto simp: handle_messages.simps [of W p buf] split: option.splits if_splits)
  qed
qed

lemma handleMessage_in:
  "handleMessage W b p = Ret p' \<Longrightarrow> cl_conn p = Some c \<Longrightarrow> \<exists>c'. cl_conn p' = Some c' \<and> cn_in c' = cn_in c"
  unfolding handleMessage_def by (rule handle_messages_in)

section \<open>The read loop\<close>

text \<open>
  The loop of \<^verbatim>\<open>readHandler\<close>, with as many turns as \<open>fuel\<close> allows; \<open>limited n\<close> is whether the \<open>n\<close>-th
  payload was over the rate. The log line of a payload over the rate slices its first ten bytes. There is memory
  for every payload: a length for which \<^verbatim>\<open>make\<close> itself panics is not modelled.
\<close>

fun read_messages ::
  "ws_api \<Rightarrow> (nat \<Rightarrow> bool) \<Rightarrow> nat \<Rightarrow> nat \<Rightarrow> 'k ws_client \<Rightarrow> 'k ws_client outcome option" where
  "read_messages W limited 0 n p = None"
| "read_messages W limited (Suc fuel) n p =
     (case cl_conn p of
        None \<Rightarrow> Some (Panic NilDeref)
      | Some c \<Rightarrow>
          (case ws_ReadHeader W (cn_in c) of
             (Some err, header, r) \<Rightarrow> Some (Ret (p\<lparr>cl_conn := Some (c\<lparr>cn_in := r\<rparr>)\<rparr>))
           | (None, header, r) \<Rightarrow>
               (let p1 = p\<lparr>cl_conn := Some (c\<lparr>cn_in := r\<rparr>)\<rparr>
                in if wh_OpCode header = WsClose then Some (Ret p1)
                   else if wh_OpCode header = WsPing then
                     (case Client_WriteControl W WsPong [] p1 of
                        Panic x \<Rightarrow> Some (Panic x)
                      | Ret (Some err, p2) \<Rightarrow> Some (Ret p2)
                      | Ret (None, p2) \<Rightarrow> read_messages W limited fuel n p2)
                   else if wh_Length header = 0 then read_messages W limited fuel n p1
                   else case io_ReadFull (wh_Length header) r of
                     (payload, Some err, r2) \<Rightarrow> Some (Ret (p\<lparr>cl_conn := Some (c\<lparr>cn_in := r2\<rparr>)\<rparr>))
                   | (payload, None, r2) \<Rightarrow>
                       (let p2 = p\<lparr>cl_conn := Some (c\<lparr>cn_in := r2\<rparr>)\<rparr>
                        in if limited n then
                             (if length payload < 10 then Some (Panic SliceOutOfRange)
                              else read_messages W limited fuel (Suc n) p2)
                           else
                             (let payload' = (if wh_Masked header then ws_Cipher W payload (wh_Mask header) else payload)
                              in if wh_OpCode header = WsBinary then
                                   (case handleMessage W payload' p2 of
                                      Panic x \<Rightarrow> Some (Panic x)
                                    | Ret p3 \<Rightarrow> read_messages W limited fuel (Suc n) p3)
                                 else read_messages W limited fuel (Suc n) p2)))))"

text \<open>
  \<open>bucket\<close> makes a rate limiter from the rate of the configuration, or panics. A client without a configuration panics
  at its first use of it.
\<close>

definition Client_readHandler ::
  "ws_api \<Rightarrow> (int \<Rightarrow> (nat \<Rightarrow> bool) option) \<Rightarrow> nat \<Rightarrow> 'k ws_client \<Rightarrow> 'k ws_client outcome option" where
  "Client_readHandler W bucket fuel p =
     (case cl_conf p of
        None \<Rightarrow> Some (Panic NilDeref)
      | Some cf \<Rightarrow>
          (case bucket (cf_Rate cf) of
             None \<Rightarrow> Some (Panic ExplicitPanic)
           | Some limited \<Rightarrow> map_option (\<lambda>res. obind res client_exit) (read_messages W limited fuel 0 p)))"

text \<open>The limiter a client gets, if it gets one.\<close>

definition rate_limit :: "(int \<Rightarrow> (nat \<Rightarrow> bool) option) \<Rightarrow> 'k ws_client \<Rightarrow> (nat \<Rightarrow> bool) option" where
  "rate_limit bucket p = (case cl_conf p of None \<Rightarrow> None | Some cf \<Rightarrow> bucket (cf_Rate cf))"

lemma Client_readHandler_limited:
  "rate_limit bucket p = Some limited \<Longrightarrow>
    Client_readHandler W bucket fuel p = map_option (\<lambda>res. obind res client_exit) (read_messages W limited fuel 0 p)"
  by (auto simp: Client_readHandler_def rate_limit_def split: option.splits)

lemma rate_limit_conn [simp]: "rate_limit bucket (p\<lparr>cl_conn := c\<rparr>) = rate_limit bucket p"
  by (simp add: rate_limit_def)

section \<open>Writing and lifecycle, on each branch\<close>

lemma client_write_open:
  "cl_conn p = Some c \<Longrightarrow> conn_writable c \<Longrightarrow> client_write bs p = Ret (None, p\<lparr>cl_conn := Some (sent bs c)\<rparr>)"
  by (simp add: client_write_def conn_write_sent)

lemma Client_Start_simps:
  "cl_state p \<noteq> Closed \<Longrightarrow> Client_Start p = Ret (Some ErrClientIsStarted, p)"
  "cl_state p = Closed \<Longrightarrow> cl_Attrs p = Some a \<Longrightarrow> Client_Start p = Ret (None, p\<lparr>cl_state := Started\<rparr>)"
  by (simp_all add: Client_Start_def)

lemma Client_Close_simps:
  "cl_state p \<noteq> Started \<Longrightarrow> Client_Close W p = Ret p"
  "cl_state p = Started \<Longrightarrow> cl_conn p = Some c \<Longrightarrow> conn_writable c \<Longrightarrow> Client_Close W p =
    Ret (p\<lparr>cl_conn := Some (conn_Close (sent (ws_ServerMessage W WsClose []) c)), cl_state := Closed\<rparr>)"
  by (simp_all add: Client_Close_def Client_WriteControl_def client_write_open Let_def)

lemma Client_Close_state:
  "Client_Close W p = Ret p' \<Longrightarrow> cl_state p = Started \<Longrightarrow> cl_state p' = Closed"
  by (auto simp: Client_Close_def Client_WriteControl_def client_write_def Let_def split: option.splits prod.splits if_splits)

lemma client_exit_simps:
  "cl_state p \<noteq> Started \<Longrightarrow> client_exit p = Ret p"
  "cl_state p = Started \<Longrightarrow> cl_conn p = Some c \<Longrightarrow> client_exit p =
    Ret (p\<lparr>cl_conn := None, cl_Attrs := None, cl_onDisconnect := Suc (cl_onDisconnect p), cl_state := Closed\<rparr>)"
  by (simp_all add: client_exit_def clean_def Let_def)

text \<open>A client that still has its attributes follows the shared lifecycle.\<close>

definition client_start :: "'k ws_client \<Rightarrow> go_error option \<times> 'k ws_client" where
  "client_start p = (case Client_Start p of Ret r \<Rightarrow> r | Panic _ \<Rightarrow> (None, p))"

definition client_stop :: "ws_api \<Rightarrow> 'k ws_client \<Rightarrow> go_error option \<times> 'k ws_client" where
  "client_stop W p = (None, case Client_Close W p of Ret p' \<Rightarrow> p' | Panic _ \<Rightarrow> p)"

interpretation client_life: guarded_lifecycle cl_state Closed Started client_start "client_stop W"
  "\<lambda>p. cl_Attrs p \<noteq> None" "\<lambda>p. cl_conn p \<noteq> None" ErrClientIsStarted
proof unfold_locales
  fix s :: "'k ws_client"
  assume "cl_conn s \<noteq> None" and "cl_state s = Started"
  moreover then obtain s' where "Client_Close W s = Ret s'"
    by (cases "Client_Close W s")
       (auto simp: Client_Close_def Client_WriteControl_def client_write_def Let_def split: prod.splits)
  ultimately show "cl_state (snd (client_stop W s)) = Closed"
    using Client_Close_state [of W s s'] by (simp add: client_stop_def)
qed (auto simp: client_start_def client_stop_def Client_Start_simps Client_Close_simps)

section \<open>Messages of a payload, in order\<close>

definition is_ping_msg :: "message \<Rightarrow> bool" where
  "is_ping_msg m \<longleftrightarrow> GetPID (msg_Header m) = PIDPing"

text \<open>A client after the messages \<open>ms\<close>: pings answered, the others handed on under its id.\<close>

definition received :: "ws_api \<Rightarrow> message list \<Rightarrow> 'k ws_client \<Rightarrow> 'k ws_client" where
  "received W ms p =
     p\<lparr>cl_conn := map_option (sent (concat (replicate (length (filter is_ping_msg ms)) (ws_ServerMessage W WsBinary Pong)))) (cl_conn p),
       cl_onMsg := cl_onMsg p @ map (\<lambda>m. \<lparr>cm_ID = cl_ID p, cm_Attrs = cl_Attrs p, cm_Payload = m\<rparr>) (filter (\<lambda>m. \<not> is_ping_msg m) ms)\<rparr>"

lemma received_simps:
  "received W [] p = p"
  "received W (ms @ ns) p = received W ns (received W ms p)"
  "cl_conn (received W ms p) = map_option (sent (concat (replicate (length (filter is_ping_msg ms)) (ws_ServerMessage W WsBinary Pong)))) (cl_conn p)"
  "cl_state (received W ms p) = cl_state p" "cl_conf (received W ms p) = cl_conf p"
  "cl_onDisconnect (received W ms p) = cl_onDisconnect p"
proof -
  show "received W [] p = p" by (cases "cl_conn p") (simp_all add: received_def)
  show "received W (ms @ ns) p = received W ns (received W ms p)"
    by (cases "cl_conn p") (simp_all add: received_def replicate_add)
qed (simp_all add: received_def)

lemma received_one:
  "cl_conn p = Some c \<Longrightarrow> received W [m] p =
    (if is_ping_msg m then p\<lparr>cl_conn := Some (sent (ws_ServerMessage W WsBinary Pong) c)\<rparr>
     else p\<lparr>cl_onMsg := cl_onMsg p @ [\<lparr>cm_ID = cl_ID p, cm_Attrs = cl_Attrs p, cm_Payload = m\<rparr>]\<rparr>)"
  by (cases p) (simp add: received_def)

lemma handle_messages_list:
  assumes "list_all wf_message ms" and "cl_conn p = Some c" and "conn_writable c"
  shows "handle_messages W p (bytes_buffer (concat (map ser_message ms) @ rest)) =
    handle_messages W (received W ms p) (bytes_buffer rest)"
  using assms
proof (induction ms arbitrary: p c)
  case Nil
  then show ?case by (simp add: received_simps)
next
  case (Cons m ms)
  have d: "Message_Decode zero_message (bytes_buffer (ser_message m @ concat (map ser_message ms) @ rest)) =
      (None, m, bytes_buffer (concat (map ser_message ms) @ rest))"
    by (rule cmsg.dec_buffer) (use Cons.prems(1) in simp)
  have r: "received W (m # ms) p = received W ms (received W [m] p)"
    using received_simps(2) [of W "[m]" ms p] by simp
  have "handle_messages W p (bytes_buffer (concat (map ser_message (m # ms)) @ rest)) =
      handle_messages W (received W [m] p) (bytes_buffer (concat (map ser_message ms) @ rest))"
  proof (cases "is_ping_msg m")
    case True
    then have "GetPID (msg_Header m) = PIDPing" by (simp add: is_ping_msg_def)
    then show ?thesis
      unfolding received_one [OF Cons.prems(2)] using True Cons.prems(2,3)
      by (subst handle_messages.simps) (simp add: d writeMessage_def client_write_open)
  next
    case False
    then have "GetPID (msg_Header m) \<noteq> PIDPing" by (simp add: is_ping_msg_def)
    then show ?thesis
      unfolding received_one [OF Cons.prems(2)] using False
      by (subst handle_messages.simps) (simp add: d)
  qed
  also have "\<dots> = handle_messages W (received W (m # ms) p) (bytes_buffer rest)"
  proof -
    obtain c' where "cl_conn (received W [m] p) = Some c'" "conn_writable c'"
      using Cons.prems(2,3) by (simp add: received_simps(3))
    from Cons.IH [OF _ this] Cons.prems(1) show ?thesis unfolding r by simp
  qed
  finally show ?case .
qed

lemma handle_messages_end: "handle_messages W p (bytes_buffer []) = Ret p"
proof -
  obtain m r where "Message_Decode zero_message (bytes_buffer []) = (Some EOF, m, r)"
    using Message_Decode_empty [of zero_message] by (metis prod.collapse)
  then show ?thesis by (subst handle_messages.simps) simp
qed

lemma handleMessage_list:
  assumes "list_all wf_message ms" and "cl_conn p = Some c" and "conn_writable c"
  shows "handleMessage W (concat (map ser_message ms)) p = Ret (received W ms p)"
  using handle_messages_list [OF assms, of W "[]"] by (simp add: handleMessage_def handle_messages_end)

text \<open>One websocket payload may carry any number of client messages: they are handed to the gateway in order, under
  the client's id and attributes, except that each ping among them is not handed on but answered by one pong.\<close>
theorem payload_delivers:
  assumes "list_all wf_message ms" and "cl_conn p = Some c" and "conn_writable c"
  shows "handleMessage W (concat (map ser_message ms)) p = Ret (received W ms p)"
  by (rule handleMessage_list [OF assms])

lemma payload_delivers_witness:
  "handleMessage W (concat (map ser_message [NewMessage PIDPing 1, NewMessage PIDChat 2]))
      \<lparr>cl_ID = 7, cl_Attrs = None, cl_conf = None, cl_conn = Some (open_conn []), cl_state = Started, cl_onMsg = [], cl_onDisconnect = 0\<rparr> =
    Ret \<lparr>cl_ID = (7 :: nat), cl_Attrs = None, cl_conf = None,
      cl_conn = Some (sent (ws_ServerMessage W WsBinary Pong) (open_conn [])), cl_state = Started,
      cl_onMsg = [\<lparr>cm_ID = 7, cm_Attrs = None, cm_Payload = NewMessage PIDChat 2\<rparr>], cl_onDisconnect = 0\<rparr>"
  by (subst payload_delivers [where c = "open_conn []"]) (simp_all add: received_def is_ping_msg_def)

end
