(* ===== verification/WsSession.thy ===== *)
theory WsSession
  imports WsClient
begin

text \<open>
  The read loop of a websocket client against the documented behaviour of the websocket
  package: \<open>ws_pkg\<close> states it, \<open>plain_ws\<close> is a concrete package that has it.
\<close>

section \<open>What the code relies on\<close>

definition header_ok :: "ws_header \<Rightarrow> bool" where
  "header_ok h \<longleftrightarrow> wh_Length h < 2 ^ 63 \<and> (if wh_Masked h then length (wh_Mask h) = 4 else wh_Mask h = [])"

text \<open>What a client's library writes for one binary payload, and to close.\<close>

definition masked_head :: "ws_op \<Rightarrow> nat \<Rightarrow> byte list \<Rightarrow> ws_header" where
  "masked_head op n key = \<lparr>wh_OpCode = op, wh_Length = n, wh_Masked = True, wh_Mask = key\<rparr>"

definition client_frame :: "ws_api \<Rightarrow> (ws_header \<Rightarrow> byte list) \<Rightarrow> byte list \<Rightarrow> byte list \<Rightarrow> byte list" where
  "client_frame W head key payload = head (masked_head WsBinary (length payload) key) @ ws_Cipher W payload key"

definition close_frame :: "(ws_header \<Rightarrow> byte list) \<Rightarrow> byte list \<Rightarrow> byte list" where
  "close_frame head key = head (masked_head WsClose 0 key)"

definition session_frame :: "byte list \<times> message list \<Rightarrow> bool" where
  "session_frame f \<longleftrightarrow> length (fst f) = 4 \<and> snd f \<noteq> [] \<and> list_all wf_message (snd f) \<and>
     length (concat (map ser_message (snd f))) < 2 ^ 63"

definition frame_bytes :: "ws_api \<Rightarrow> (ws_header \<Rightarrow> byte list) \<Rightarrow> byte list \<times> message list \<Rightarrow> byte list" where
  "frame_bytes W head f = client_frame W head (fst f) (concat (map ser_message (snd f)))"

text \<open>
  \<open>head h\<close> is the bytes of a header: \<^verbatim>\<open>ReadHeader\<close> reads it back and takes nothing else; a header
  it accepts took at least one byte; ciphering twice with a key is the identity.
\<close>

locale ws_pkg =
  fixes W :: ws_api and head :: "ws_header \<Rightarrow> byte list"
  assumes read_header: "header_ok h \<Longrightarrow> rd_bytes r = head h @ rest \<Longrightarrow>
      \<exists>r'. ws_ReadHeader W r = (None, h, r') \<and> rd_bytes r' = rest \<and> rd_end r' = rd_end r"
    and header_shrinks: "ws_ReadHeader W r = (None, h, r') \<Longrightarrow> length (rd_bytes r') < length (rd_bytes r)"
    and cipher_length: "length (ws_Cipher W p m) = length p"
    and cipher_twice: "length m = 4 \<Longrightarrow> ws_Cipher W (ws_Cipher W p m) m = p"
begin

lemma read_messages_close:
  assumes "cl_conn p = Some c" and "length key = 4" and "rd_bytes (cn_in c) = close_frame head key @ rest"
  shows "\<exists>r. read_messages W limited (Suc fuel) n p = Some (Ret (p\<lparr>cl_conn := Some (c\<lparr>cn_in := r\<rparr>)\<rparr>)) \<and> rd_bytes r = rest"
  using read_header [of "masked_head WsClose 0 key" "cn_in c" rest] assms
  by (auto simp: close_frame_def masked_head_def header_ok_def)

lemma read_messages_frame:
  assumes c: "cl_conn p = Some c" "conn_writable c" and f: "length key = 4" "list_all wf_message ms" "ms \<noteq> []"
    "length (concat (map ser_message ms)) < 2 ^ 63" "\<not> limited n"
    and b: "rd_bytes (cn_in c) = client_frame W head key (concat (map ser_message ms)) @ rest"
  shows "\<exists>r. read_messages W limited (Suc fuel) n p =
      read_messages W limited fuel (Suc n) (received W ms (p\<lparr>cl_conn := Some (c\<lparr>cn_in := r\<rparr>)\<rparr>)) \<and> rd_bytes r = rest"
proof -
  let ?p = "concat (map ser_message ms)"
  let ?h = "masked_head WsBinary (length ?p) key"
  have "?p \<noteq> []" using f(2,3) by (cases ms) (auto simp: ser_message_def wf_message_def wf_header_def)
  obtain q where q: "ws_ReadHeader W (cn_in c) = (None, ?h, q)" "rd_bytes q = ws_Cipher W ?p key @ rest"
    using read_header [of ?h "cn_in c" "ws_Cipher W ?p key @ rest"] b f(1,4)
    by (auto simp: client_frame_def masked_head_def header_ok_def)
  obtain r where r: "io_ReadFull (length ?p) q = (ws_Cipher W ?p key, None, r)" "rd_bytes r = rest"
    by (rule io_ReadFull_ok [OF q(2) cipher_length])
  let ?q = "p\<lparr>cl_conn := Some (c\<lparr>cn_in := r\<rparr>)\<rparr>"
  have "handleMessage W ?p ?q = Ret (received W ms ?q)"
    using handleMessage_list [OF f(2), of ?q] c(2) by simp
  with c(1) f(5) q(1) r \<open>?p \<noteq> []\<close> show ?thesis
    by (auto simp: masked_head_def cipher_twice [OF f(1)] Let_def intro!: exI [of _ r])
qed

lemma read_messages_frames:
  assumes "list_all session_frame fs" and "cl_conn p = Some c" and "conn_writable c" and "\<And>n. \<not> limited n"
    and "rd_bytes (cn_in c) = concat (map (frame_bytes W head) fs) @ rest"
  shows "\<exists>p' c'. read_messages W limited (length fs + fuel) n p = read_messages W limited fuel (n + length fs) p' \<and>
    cl_conn p' = Some c' \<and> conn_writable c' \<and> rd_bytes (cn_in c') = rest \<and>
    p'\<lparr>cl_conn := None\<rparr> = (received W (concat (map snd fs)) p)\<lparr>cl_conn := None\<rparr>"
  using assms(1-3,5)
proof (induction fs arbitrary: p c n)
  case Nil
  then show ?case by (auto simp: received_simps)
next
  case (Cons f fs)
  from Cons.prems(1) have f: "length (fst f) = 4" "list_all wf_message (snd f)" "snd f \<noteq> []"
    "length (concat (map ser_message (snd f))) < 2 ^ 63" 
    by (simp_all add: session_frame_def)
  from Cons.prems(1) have fs: "list_all session_frame fs" by simp
  have b: "rd_bytes (cn_in c) = client_frame W head (fst f) (concat (map ser_message (snd f))) @
      concat (map (frame_bytes W head) fs) @ rest"
    using Cons.prems(4) by (simp add: frame_bytes_def [of W head f])
  obtain r where r: "read_messages W limited (Suc (length fs + fuel)) n p =
      read_messages W limited (length fs + fuel) (Suc n) (received W (snd f) (p\<lparr>cl_conn := Some (c\<lparr>cn_in := r\<rparr>)\<rparr>))"
    "rd_bytes r = concat (map (frame_bytes W head) fs) @ rest"
    using read_messages_frame [where limited = limited and n = n and fuel = "length fs + fuel",
        OF Cons.prems(2,3) f assms(4) b]
    by blast
  let ?p = "received W (snd f) (p\<lparr>cl_conn := Some (c\<lparr>cn_in := r\<rparr>)\<rparr>)"
  obtain d where d: "cl_conn ?p = Some d" "conn_writable d" "cn_in d = r"
    using Cons.prems(3) by (simp add: received_simps(3))
  obtain p' c' where p': "read_messages W limited (length fs + fuel) (Suc n) ?p = read_messages W limited fuel (Suc n + length fs) p'"
    "cl_conn p' = Some c'" "conn_writable c'" "rd_bytes (cn_in c') = rest"
    "p'\<lparr>cl_conn := None\<rparr> = (received W (concat (map snd fs)) ?p)\<lparr>cl_conn := None\<rparr>"
    using Cons.IH [OF fs d(1,2), of "Suc n"] r(2) d(3) by auto
  have "(received W (concat (map snd fs)) ?p)\<lparr>cl_conn := None\<rparr> =
      (received W (concat (map snd (f # fs))) p)\<lparr>cl_conn := None\<rparr>"
    by (simp add: received_def)
  with p' r(1) show ?case by auto
qed

lemma session_until_close:
  assumes "list_all session_frame fs" and "cl_conn p = Some c" and "conn_writable c" and "\<And>n. \<not> limited n"
    and "rd_bytes (cn_in c) = concat (map (frame_bytes W head) fs) @ close_frame head key @ rest"
    and "length key = 4" and "length fs < fuel" and "rate_limit bucket p = Some limited" and "cl_state p = Started"
  shows "Client_readHandler W bucket fuel p =
    Some (Ret ((received W (concat (map snd fs)) p)\<lparr>cl_conn := None, cl_Attrs := None,
      cl_onDisconnect := Suc (cl_onDisconnect p), cl_state := Closed\<rparr>))"
proof -
  define k where "k = fuel - Suc (length fs)"
  have k: "fuel = length fs + Suc k" using assms(7) by (simp add: k_def)
  obtain p' c' where p': "read_messages W limited fuel 0 p = read_messages W limited (Suc k) (0 + length fs) p'"
    "cl_conn p' = Some c'" "rd_bytes (cn_in c') = close_frame head key @ rest"
    "p'\<lparr>cl_conn := None\<rparr> = (received W (concat (map snd fs)) p)\<lparr>cl_conn := None\<rparr>"
    using read_messages_frames [where fuel = "Suc k" and n = 0 and limited = limited, OF assms(1-5)] unfolding k by blast
  from read_messages_close [OF p'(2) assms(6) p'(3)] obtain r where
    "read_messages W limited fuel 0 p = Some (Ret (p'\<lparr>cl_conn := Some (c'\<lparr>cn_in := r\<rparr>)\<rparr>))"
    unfolding p'(1) by blast
  moreover have "cl_state p' = Started" "cl_onDisconnect p' = cl_onDisconnect p"
    using arg_cong [OF p'(4), of cl_state] arg_cong [OF p'(4), of cl_onDisconnect] assms(9) by (simp_all add: received_simps)
  ultimately have "Client_readHandler W bucket fuel p =
      Some (Ret ((p'\<lparr>cl_conn := None\<rparr>)\<lparr>cl_Attrs := None, cl_onDisconnect := Suc (cl_onDisconnect p), cl_state := Closed\<rparr>))"
    using assms(8) by (simp add: Client_readHandler_limited client_exit_simps)
  then show ?thesis unfolding p'(4) by simp
qed

lemma read_messages_returns:
  fixes p :: "'k ws_client"
  assumes "cl_conn p = Some c" and "length (rd_bytes (cn_in c)) < fuel"
  shows "read_messages W limited fuel n p \<noteq> None"
  using assms
proof (induction fuel arbitrary: n p c)
  case (Suc fuel)
  obtain e h r where R: "ws_ReadHeader W (cn_in c) = (e, h, r)" by (cases "ws_ReadHeader W (cn_in c)")
  show ?case
  proof (cases e)
    case (Some x)
    with R Suc.prems(1) show ?thesis by simp
  next
    case None
    have len: "length (rd_bytes r) < fuel" using header_shrinks R None Suc.prems(2) by fastforce
    have again: "read_messages W limited fuel k q \<noteq> None"
      if "cl_conn q = Some d" "length (rd_bytes (cn_in d)) \<le> length (rd_bytes r)" for k d and q :: "'k ws_client"
      using Suc.IH [OF that(1)] that(2) len by simp
    obtain pl e2 r2 where F: "io_ReadFull (wh_Length h) r = (pl, e2, r2)" by (cases "io_ReadFull (wh_Length h) r")
    have len2: "length (rd_bytes r2) \<le> length (rd_bytes r)" by (rule io_ReadFull_shrinks [OF F])
    have handled: "read_messages W limited fuel k q \<noteq> None"
      if "handleMessage W b (p\<lparr>cl_conn := Some (c\<lparr>cn_in := r2\<rparr>)\<rparr>) = Ret q" for k b and q :: "'k ws_client"
      using handleMessage_in [OF that] again len2 by force
    have ponged: "read_messages W limited fuel k q \<noteq> None"
      if "Client_WriteControl W WsPong [] (p\<lparr>cl_conn := Some (c\<lparr>cn_in := r\<rparr>)\<rparr>) = Ret (e3, q)" for k e3 and q :: "'k ws_client"
      using client_write_in that again unfolding Client_WriteControl_def by fastforce
    from again [of "p\<lparr>cl_conn := Some (c\<lparr>cn_in := r\<rparr>)\<rparr>" "c\<lparr>cn_in := r\<rparr>"]
      again [of "p\<lparr>cl_conn := Some (c\<lparr>cn_in := r2\<rparr>)\<rparr>" "c\<lparr>cn_in := r2\<rparr>"] len2 handled ponged R None F Suc.prems(1)
    show ?thesis by (auto simp: Let_def split: outcome.splits option.splits prod.splits)
  qed
qed simp

end

section \<open>A concrete package\<close>

fun op_byte :: "ws_op \<Rightarrow> byte" where
  "op_byte WsContinuation = 0"
| "op_byte WsText = 1"
| "op_byte WsBinary = 2"
| "op_byte WsClose = 8"
| "op_byte WsPing = 9"
| "op_byte WsPong = 10"

definition byte_op :: "byte \<Rightarrow> ws_op" where
  "byte_op b = (if b = 0 then WsContinuation else if b = 1 then WsText else if b = 2 then WsBinary
     else if b = 8 then WsClose else if b = 9 then WsPing else WsPong)"

definition plain_head :: "ws_header \<Rightarrow> byte list" where
  "plain_head h = op_byte (wh_OpCode h) # (if wh_Masked h then 1 else 0) #
     PutUint64 (of_nat (wh_Length h)) @ (if wh_Masked h then wh_Mask h else [])"

definition plain_ReadHeader :: "reader \<Rightarrow> go_error option \<times> ws_header \<times> reader" where
  "plain_ReadHeader r =
     (case io_ReadFull 10 r of
        (d, e, r1) \<Rightarrow>
          (let h = \<lparr>wh_OpCode = byte_op (d ! 0), wh_Length = unat (Uint64 (drop 2 d)), wh_Masked = d ! 1 = 1, wh_Mask = []\<rparr>
           in if e = None \<and> wh_Masked h
              then case io_ReadFull 4 r1 of (k, e2, r2) \<Rightarrow> (e2, h\<lparr>wh_Mask := k\<rparr>, r2)
              else (e, h, r1)))"

definition xor_cipher :: "byte list \<Rightarrow> byte list \<Rightarrow> byte list" where
  "xor_cipher p key = map (\<lambda>i. p ! i XOR key ! (i mod 4)) [0..<length p]"

definition plain_ws :: ws_api where
  "plain_ws = \<lparr>ws_ReadHeader = plain_ReadHeader, ws_Cipher = xor_cipher,
     ws_ServerMessage = (\<lambda>op p. plain_head \<lparr>wh_OpCode = op, wh_Length = length p, wh_Masked = False, wh_Mask = []\<rparr> @ p)\<rparr>"

lemma byte_op_byte [simp]: "byte_op (op_byte op) = op"
  by (cases op) (simp_all add: byte_op_def)

lemma plain_ReadHeader_head:
  assumes "header_ok h" and "rd_bytes r = plain_head h @ rest"
  shows "\<exists>r'. plain_ReadHeader r = (None, h, r') \<and> rd_bytes r' = rest \<and> rd_end r' = rd_end r"
proof -
  let ?d = "op_byte (wh_OpCode h) # (if wh_Masked h then 1 else 0) # PutUint64 (of_nat (wh_Length h))"
  let ?k = "if wh_Masked h then wh_Mask h else []"
  have "rd_bytes r = ?d @ (?k @ rest)" "length ?d = 10" using assms(2) by (simp_all add: plain_head_def)
  then obtain q where q: "io_ReadFull 10 r = (?d, None, q)" "rd_bytes q = ?k @ rest" "rd_end q = rd_end r"
    by (rule io_ReadFull_ok)
  have len: "unat (of_nat (wh_Length h) :: u64) = wh_Length h"
    using assms(1) by (simp add: header_ok_def unat_of_nat take_bit_nat_eq_self)
  show ?thesis
  proof (cases "wh_Masked h")
    case True
    then have "rd_bytes q = wh_Mask h @ rest" "length (wh_Mask h) = 4" using q(2) assms(1) by (simp_all add: header_ok_def)
    then obtain q' where "io_ReadFull 4 q = (wh_Mask h, None, q')" "rd_bytes q' = rest" "rd_end q' = rd_end q"
      by (rule io_ReadFull_ok)
    with q True len show ?thesis by (simp add: plain_ReadHeader_def)
  next
    case False
    with q len assms(1) show ?thesis by (simp add: plain_ReadHeader_def header_ok_def)
  qed
qed

lemma plain_ReadHeader_shrinks:
  assumes "plain_ReadHeader r = (None, h, r')"
  shows "length (rd_bytes r') < length (rd_bytes r)"
proof -
  obtain d e q where q: "io_ReadFull 10 r = (d, e, q)" by (cases "io_ReadFull 10 r")
  with assms have "e = None" by (auto simp: plain_ReadHeader_def Let_def split: if_splits)
  with q have "length (rd_bytes q) < length (rd_bytes r)" by (cases rule: io_ReadFull_cases [of 10 r]) auto
  moreover have "length (rd_bytes r') \<le> length (rd_bytes q)"
    using assms q by (auto simp: plain_ReadHeader_def Let_def split: if_splits prod.splits dest: io_ReadFull_shrinks)
  ultimately show ?thesis by simp
qed

lemma xor_cipher_twice: "xor_cipher (xor_cipher p key) key = p"
  by (rule nth_equalityI) (simp_all add: xor_cipher_def xor.assoc)

interpretation plain: ws_pkg plain_ws plain_head
  by unfold_locales
     (simp_all add: plain_ws_def plain_ReadHeader_head plain_ReadHeader_shrinks xor_cipher_twice, simp add: xor_cipher_def)

section \<open>Properties of a client session\<close>

text \<open>C15: End to end over a client's connection: of a sequence of masked binary frames, each with any number of client
  messages, followed by a close frame, every message but the pings reaches the gateway exactly once and in order, as
  long as the rate limit is not hit; then the client is closed, its connection and attributes are dropped, and the
  gateway is told once.\<close>
theorem client_session:
  assumes "ws_pkg W head" and "list_all session_frame fs" and "cl_conn p = Some c" and "conn_writable c"
    and "rate_limit bucket p = Some limited" and "cl_state p = Started" and "length key = 4" and "\<And>n. \<not> limited n"
    and "rd_bytes (cn_in c) = concat (map (frame_bytes W head) fs) @ close_frame head key @ rest" and "length fs < fuel"
  shows "\<exists>p'. Client_readHandler W bucket fuel p = Some (Ret p') \<and>
    cl_onMsg p' = cl_onMsg p @ map (\<lambda>m. \<lparr>cm_ID = cl_ID p, cm_Attrs = cl_Attrs p, cm_Payload = m\<rparr>)
      (filter (\<lambda>m. \<not> is_ping_msg m) (concat (map snd fs))) \<and>
    cl_onDisconnect p' = Suc (cl_onDisconnect p) \<and> cl_state p' = Closed \<and> cl_conn p' = None \<and> cl_Attrs p' = None"
  using ws_pkg.session_until_close [OF assms(1,2,3,4,8,9,7,10,5,6)] by (simp add: received_def)

text \<open>A client that is over its rate and sends a payload of one to nine bytes panics the goroutine that reads from it,
  which nothing recovers: the log line takes the first ten bytes of the payload.\<close>
theorem rate_limit_panics:
  assumes "ws_pkg W head" and "cl_conn p = Some c" and "rate_limit bucket p = Some limited" and "limited 0" and "length key = 4"
    and "payload \<noteq> []" and "length payload < 10" and "rd_bytes (cn_in c) = client_frame W head key payload @ rest"
  shows "Client_readHandler W bucket (Suc fuel) p = Some (Panic SliceOutOfRange)"
proof -
  let ?h = "masked_head WsBinary (length payload) key"
  obtain q where q: "ws_ReadHeader W (cn_in c) = (None, ?h, q)" "rd_bytes q = ws_Cipher W payload key @ rest"
    using ws_pkg.read_header [OF assms(1), of ?h "cn_in c" "ws_Cipher W payload key @ rest"] assms(5,7,8)
    by (auto simp: client_frame_def masked_head_def header_ok_def)
  obtain r where r: "io_ReadFull (length payload) q = (ws_Cipher W payload key, None, r)"
    by (rule io_ReadFull_ok [OF q(2) ws_pkg.cipher_length [OF assms(1)]])
  from q r assms(2-4,6,7) show ?thesis
    by (simp add: Client_readHandler_limited masked_head_def ws_pkg.cipher_length [OF assms(1)])
qed

text \<open>The reader answers a ping and goes on at its payload, which it does not skip.\<close>

lemma Client_readHandler_ping:
  assumes "ws_pkg W head" and "cl_conn p = Some c" and "conn_writable c" and "header_ok h" and "wh_OpCode h = WsPing"
    and "rd_bytes (cn_in c) = head h @ rest" and "rate_limit bucket p = Some limited"
  shows "\<exists>r. Client_readHandler W bucket (Suc fuel) p = Client_readHandler W bucket fuel
      (p\<lparr>cl_conn := Some (sent (ws_ServerMessage W WsPong []) (c\<lparr>cn_in := r\<rparr>))\<rparr>) \<and> rd_bytes r = rest"
proof -
  obtain r where "ws_ReadHeader W (cn_in c) = (None, h, r)" "rd_bytes r = rest"
    using ws_pkg.read_header [OF assms(1,4,6)] by blast
  with assms(2,3,5,7) show ?thesis
    by (intro exI [of _ r]) (simp add: Client_readHandler_limited Client_WriteControl_def client_write_open)
qed

text \<open>So the payload of a ping, which is up to the application that sends it, is parsed as the frames that follow: the
  bytes of a frame inside it are delivered as messages that nobody sent.\<close>
theorem ping_payload_delivered:
  assumes "ws_pkg W head" and "cl_conn p = Some c" and "conn_writable c" and "rate_limit bucket p = Some limited" and "cl_state p = Started"
    and "length k1 = 4" and "length k2 = 4" and "\<And>n. \<not> limited n" and "session_frame f" and "length (frame_bytes W head f) < 2 ^ 63"
    and "rd_bytes (cn_in c) = head (masked_head WsPing (length (frame_bytes W head f)) k1) @ frame_bytes W head f @ close_frame head k2 @ rest"
    and "2 < fuel"
  shows "\<exists>p'. Client_readHandler W bucket fuel p = Some (Ret p') \<and>
    cl_onMsg p' = cl_onMsg p @ map (\<lambda>m. \<lparr>cm_ID = cl_ID p, cm_Attrs = cl_Attrs p, cm_Payload = m\<rparr>)
      (filter (\<lambda>m. \<not> is_ping_msg m) (snd f))"
proof -
  obtain fuel' where fu: "fuel = Suc fuel'" "Suc 0 < fuel'" using assms(12) by (cases fuel) auto
  have "header_ok (masked_head WsPing (length (frame_bytes W head f)) k1)" "wh_OpCode (masked_head WsPing (length (frame_bytes W head f)) k1) = WsPing"
    using assms(6,10) by (simp_all add: header_ok_def masked_head_def)
  from Client_readHandler_ping [OF assms(1-3) this assms(11,4), of fuel'] obtain r where
    r: "Client_readHandler W bucket fuel p = Client_readHandler W bucket fuel'
      (p\<lparr>cl_conn := Some (sent (ws_ServerMessage W WsPong []) (c\<lparr>cn_in := r\<rparr>))\<rparr>)"
      "rd_bytes r = frame_bytes W head f @ close_frame head k2 @ rest" unfolding fu(1) by blast
  let ?c = "sent (ws_ServerMessage W WsPong []) (c\<lparr>cn_in := r\<rparr>)"
  let ?p = "p\<lparr>cl_conn := Some ?c\<rparr>"
  have "list_all session_frame [f]" "cl_conn ?p = Some ?c" "conn_writable ?c" "length [f] < fuel'"
    "rd_bytes (cn_in ?c) = concat (map (frame_bytes W head) [f]) @ close_frame head k2 @ rest"
    using assms(3,9) r(2) fu(2) by (simp_all add: sent_def conn_writable_def)
  from ws_pkg.session_until_close [OF assms(1) this(1-3) assms(8) this(5) assms(7) this(4)] assms(4,5) r(1) show ?thesis
    by (simp add: received_def)
qed

text \<open>C40: The reader of a client always ends: whatever bytes a client sends, after at most one turn per byte it stops or
  panics, and when it stops the client is no longer started.\<close>
theorem reader_ends:
  assumes "ws_pkg W head" and "cl_conn p = Some c" and "length (rd_bytes (cn_in c)) < fuel"
  shows "\<exists>res. Client_readHandler W bucket fuel p = Some res \<and> (\<forall>p'. res = Ret p' \<longrightarrow> cl_state p' \<noteq> Started)"
proof -
  have e: "cl_state q' \<noteq> Started" if "client_exit q = Ret q'" for q q' :: "'a ws_client"
    using that by (cases "cl_state q = Started") (auto simp: client_exit_simps client_exit_def Let_def clean_def split: option.splits)
  show ?thesis
  proof (cases "rate_limit bucket p")
    case None
    then show ?thesis by (auto simp: Client_readHandler_def rate_limit_def split: option.splits)
  next
    case (Some limited)
    obtain res where "read_messages W limited fuel 0 p = Some res"
      using ws_pkg.read_messages_returns [OF assms] by blast
    then show ?thesis by (auto simp: Client_readHandler_limited [OF Some] obind_eq_Ret e)
  qed
qed

definition example_attrs :: client_attrs where
  "example_attrs = \<lparr>at_Username = ''bob'', at_Device = 0, at_RemoteIP = ''10.0.0.1'', at_Version = ''1.0''\<rparr>"

definition example_client :: "byte list \<Rightarrow> id20 ws_client" where
  "example_client bs = \<lparr>cl_ID = id20_of 1, cl_Attrs = Some example_attrs,
     cl_conf = Some \<lparr>cf_PongWait = 65, cf_RemotePing = True, cf_ReaderBufferSize = 4096, cf_Rate = 10\<rparr>,
     cl_conn = Some (open_conn bs), cl_state = Started, cl_onMsg = [], cl_onDisconnect = 0\<rparr>"

lemma example_client_simps [simp]: "cl_conn (example_client bs) = Some (open_conn bs)"
    "rate_limit bucket (example_client bs) = bucket 10" "cl_state (example_client bs) = Started" "cl_onMsg (example_client bs) = []"
    "cl_ID (example_client bs) = id20_of 1" "cl_Attrs (example_client bs) = Some example_attrs"
  by (simp_all add: example_client_def rate_limit_def)

definition example_session :: "(byte list \<times> message list) list" where
  "example_session = [([1, 2, 3, 4], [NewMessage PIDPing 1, NewMessage PIDChat 2]), ([5, 6, 7, 8], [NewMessage PIDChat 3])]"

lemma wf_NewMessage_length [simp]: "length (ser_message (NewMessage p s)) = 10"
  using NewMessage_fields(3,4) [of p s] by (simp add: ser_message_def wf_message_def wf_header_def)

lemma example_session_ok: "list_all session_frame example_session"
  by (simp add: example_session_def session_frame_def)

lemma client_session_witness:
  "\<exists>p'. Client_readHandler plain_ws (\<lambda>_. Some (\<lambda>_. False)) 10 (example_client
      (concat (map (frame_bytes plain_ws plain_head) example_session) @ close_frame plain_head [0, 0, 0, 0])) = Some (Ret p') \<and>
    map (\<lambda>m. GetSequence (msg_Header (cm_Payload m))) (cl_onMsg p') = [2, 3]"
proof -
  let ?bs = "concat (map (frame_bytes plain_ws plain_head) example_session) @ close_frame plain_head [0, 0, 0, 0]"
  have f: "filter (\<lambda>m. \<not> is_ping_msg m) (concat (map snd example_session)) = [NewMessage PIDChat 2, NewMessage PIDChat 3]"
    by (simp add: example_session_def is_ping_msg_def)
  from client_session [OF plain.ws_pkg_axioms example_session_ok, of "example_client ?bs" "open_conn ?bs" "\<lambda>_. Some (\<lambda>_. False)" "\<lambda>_. False" "[0, 0, 0, 0]" "[]" 10]
  obtain p' where "Client_readHandler plain_ws (\<lambda>_. Some (\<lambda>_. False)) 10 (example_client ?bs) = Some (Ret p')"
    "cl_onMsg p' = map (\<lambda>m. \<lparr>cm_ID = id20_of 1, cm_Attrs = Some example_attrs, cm_Payload = m\<rparr>) [NewMessage PIDChat 2, NewMessage PIDChat 3]"
    unfolding f by (auto simp: example_session_def)
  then show ?thesis
    by auto
qed

lemma rate_limit_panics_witness:
  "Client_readHandler plain_ws (\<lambda>_. Some (\<lambda>_. True)) (Suc 0) (example_client (client_frame plain_ws plain_head [1, 2, 3, 4] [65] @ [])) =
    Some (Panic SliceOutOfRange)"
  by (rule rate_limit_panics [OF plain.ws_pkg_axioms example_client_simps(1),
        where payload = "[65]" and key = "[1, 2, 3, 4]" and rest = "[]"]) simp_all

lemma reader_ends_witness:
  "\<exists>res. Client_readHandler plain_ws (\<lambda>_. Some (\<lambda>_. False)) 4 (example_client [2, 1, 0]) = Some res"
  using reader_ends [OF plain.ws_pkg_axioms, of "example_client [2, 1, 0]" "open_conn [2, 1, 0]" 4 "\<lambda>_. Some (\<lambda>_. False)"] by auto

end
