(* ===== verification/PeerServer.thy ===== *)
theory PeerServer
  imports PeerConn
begin

text \<open>
  The tcp peer of \<^verbatim>\<open>peer/tcp_peer.go\<close>, \<^verbatim>\<open>Server\<close>: its operations run one after the other, and
  then the same compare-and-swaps interleaved, with one caller of \<^verbatim>\<open>Start\<close>, the reader goroutine
  it spawns and any number of callers of \<^verbatim>\<open>Close\<close>. What is sent to the two channels of its
  listener is recorded in \<open>sv_onMsg\<close> and \<open>sv_onDisconnect\<close>.
\<close>

section \<open>State and operations\<close>

datatype srv_state = SClosed | SStarting | SStarted | SClosing

datatype side = SideClient | SideServer

record 'k ServerMessage =
  sm_ID :: 'k
  sm_Payload :: "byte list"

record server_conf =
  sc_WriteWait :: int \<comment> \<open>seconds\<close>
  sc_PongWait :: int
  sc_PingPeriod :: int

definition defServerConf :: server_conf where
  "defServerConf = \<lparr>sc_WriteWait = 10, sc_PongWait = 35, sc_PingPeriod = 15\<rparr>"

record 'k server =
  sv_ID :: 'k
  sv_Meta :: "byte list"
  sv_Addr :: string
  sv_conn :: "conn option"
  sv_Side :: side
  sv_state :: srv_state
  sv_onMsg :: "'k ServerMessage list"
  sv_onDisconnect :: nat
  sv_conf :: server_conf

definition NewServer :: "'k \<Rightarrow> byte list \<Rightarrow> 'k server" where
  "NewServer ID meta =
     \<lparr>sv_ID = ID, sv_Meta = meta, sv_Addr = [], sv_conn = None, sv_Side = SideClient,
      sv_state = SClosed, sv_onMsg = [], sv_onDisconnect = 0, sv_conf = defServerConf\<rparr>"

definition SetConf :: "server_conf \<Rightarrow> 'k server \<Rightarrow> 'k server" where
  "SetConf conf p = p\<lparr>sv_conf := conf\<rparr>"

text \<open>
  \<^verbatim>\<open>Start\<close>, with the goroutines it spawns still waiting for their first input when it returns. A
  \<^verbatim>\<open>nil\<close> connection is \<open>None\<close>.
\<close>

definition Server_Start :: "conn option \<Rightarrow> side \<Rightarrow> 'k server \<Rightarrow> go_error option \<times> 'k server" where
  "Server_Start c side p =
     (case cas (sv_state p) SClosed SStarting of
        (False, _) \<Rightarrow> (Some ErrPeerIsOpened, p)
      | (True, st) \<Rightarrow>
          (case c of
             None \<Rightarrow> (Some (Errorf ''no connection''), p\<lparr>sv_state := snd (cas st SStarting SClosed)\<rparr>)
           | Some conn \<Rightarrow>
               (let p1 = p\<lparr>sv_state := st, sv_conn := Some conn, sv_Side := side\<rparr>
                in case cas (sv_state p1) SStarting SStarted of
                     (False, _) \<Rightarrow> (Some ErrPeerIsOpened, p1)
                   | (True, st2) \<Rightarrow> (None, p1\<lparr>sv_state := st2\<rparr>))))"

text \<open>A method call on a \<^verbatim>\<open>nil\<close> connection panics.\<close>

definition with_conn ::
  "(conn \<Rightarrow> go_error option \<times> conn) \<Rightarrow> 'k server \<Rightarrow> (go_error option \<times> 'k server) outcome" where
  "with_conn f p =
     (case sv_conn p of
        None \<Rightarrow> Panic NilDeref
      | Some c \<Rightarrow> (case f c of (err, c') \<Rightarrow> Ret (err, p\<lparr>sv_conn := Some c'\<rparr>)))"

definition Server_WriteControl ::
  "opcode \<Rightarrow> byte list \<Rightarrow> 'k server \<Rightarrow> (go_error option \<times> 'k server) outcome" where
  "Server_WriteControl opCode payload p = with_conn (WriteControl opCode payload) p"

definition Server_Push :: "byte list \<Rightarrow> 'k server \<Rightarrow> (go_error option \<times> 'k server) outcome" where
  "Server_Push payload p =
     (if sv_state p \<noteq> SStarted then Ret (Some ErrPeerIsClosed, p)
      else with_conn (writeFrame (NewFrame OpMessage payload)) p)"

definition Server_Close :: "'k server \<Rightarrow> 'k server outcome" where
  "Server_Close p =
     (case cas (sv_state p) SStarted SClosing of
        (False, _) \<Rightarrow> Ret p
      | (True, st) \<Rightarrow>
          obind (Server_WriteControl OpClose [] (p\<lparr>sv_state := st\<rparr>)) (\<lambda>(_, p1).
          obind (with_conn (\<lambda>c. (None, conn_Close c)) p1) (\<lambda>(_, p2).
          Ret (p2\<lparr>sv_state := snd (cas (sv_state p2) SClosing SClosed)\<rparr>))))"

text \<open>The deferred function of \<^verbatim>\<open>readHandler\<close>, and the whole handler.\<close>

definition reader_exit :: "'k server \<Rightarrow> 'k server outcome" where
  "reader_exit p =
     (case cas (sv_state p) SStarted SClosing of
        (False, _) \<Rightarrow> Ret p
      | (True, st) \<Rightarrow>
          obind (with_conn (\<lambda>c. (None, conn_Close c)) (p\<lparr>sv_state := st\<rparr>)) (\<lambda>(_, p1).
          let p2 = p1\<lparr>sv_onDisconnect := Suc (sv_onDisconnect p1)\<rparr>
          in Ret (p2\<lparr>sv_state := snd (cas (sv_state p2) SClosing SClosed)\<rparr>)))"

definition Server_readHandler :: "'k server \<Rightarrow> 'k server outcome" where
  "Server_readHandler p =
     (case sv_conn p of
        None \<Rightarrow> Panic NilDeref
      | Some c \<Rightarrow>
          (case read_frames c of (ms, _, c') \<Rightarrow>
             reader_exit (p\<lparr>sv_conn := Some c',
               sv_onMsg := sv_onMsg p @ map (\<lambda>m. \<lparr>sm_ID = sv_ID p, sm_Payload = m\<rparr>) ms\<rparr>)))"

text \<open>
  \<^verbatim>\<open>Restart\<close> stores the closed state whatever it was; \<open>dial\<close> is what dialing \<^verbatim>\<open>Addr\<close> gives.
\<close>

definition Server_Restart :: "'k ksuid_api \<Rightarrow> go_error + conn \<Rightarrow> 'k server \<Rightarrow> go_error option \<times> 'k server" where
  "Server_Restart K dial p =
     (if sv_Addr p = [] then (Some (Errorf ''Addr is nil''), p)
      else let p1 = p\<lparr>sv_state := SClosed\<rparr>
           in case ConnectServer K dial (sv_ID p1) (sv_Meta p1) of
                (_, Some err) \<Rightarrow> (Some err, p1)
              | (c, None) \<Rightarrow> Server_Start c (sv_Side p1) p1)"

text \<open>\<^verbatim>\<open>n\<close> ticks of \<^verbatim>\<open>heartbeat\<close>, which only a client side runs: it pings until a write fails.\<close>

fun heartbeat :: "nat \<Rightarrow> 'k server \<Rightarrow> 'k server outcome" where
  "heartbeat 0 p = Ret p"
| "heartbeat (Suc n) p =
     obind (Server_WriteControl OpPing [] p) (\<lambda>(err, p'). if err \<noteq> None then Ret p' else heartbeat n p')"

section \<open>Sequential behaviour\<close>

lemma Server_Start_simps:
  "sv_state p \<noteq> SClosed \<Longrightarrow> Server_Start c side p = (Some ErrPeerIsOpened, p)"
  "sv_state p = SClosed \<Longrightarrow> Server_Start (Some conn) side p =
    (None, p\<lparr>sv_state := SStarted, sv_conn := Some conn, sv_Side := side\<rparr>)"
  "sv_state p = SClosed \<Longrightarrow> Server_Start None side p = (Some (Errorf ''no connection''), p)"
  by (simp_all add: Server_Start_def Let_def)

lemma Server_Push_closed: "sv_state p \<noteq> SStarted \<Longrightarrow> Server_Push m p = Ret (Some ErrPeerIsClosed, p)"
  by (simp add: Server_Push_def)

lemma Server_Close_simps:
  "sv_state p \<noteq> SStarted \<Longrightarrow> Server_Close p = Ret p"
  "sv_state p = SStarted \<Longrightarrow> sv_conn p = Some c \<Longrightarrow> Server_Close p =
    Ret (p\<lparr>sv_conn := Some (conn_Close (snd (WriteControl OpClose [] c))), sv_state := SClosed\<rparr>)"
  by (simp_all add: Server_Close_def Server_WriteControl_def with_conn_def split: prod.splits)

lemma reader_exit_simps:
  "sv_state p \<noteq> SStarted \<Longrightarrow> reader_exit p = Ret p"
  "sv_state p = SStarted \<Longrightarrow> sv_conn p = Some c \<Longrightarrow> reader_exit p =
    Ret (p\<lparr>sv_conn := Some (conn_Close c), sv_state := SClosed, sv_onDisconnect := Suc (sv_onDisconnect p)\<rparr>)"
  by (simp_all add: reader_exit_def with_conn_def)

definition close_of :: "'k server \<Rightarrow> go_error option \<times> 'k server" where
  "close_of p = (None, case Server_Close p of Ret p' \<Rightarrow> p' | Panic _ \<Rightarrow> p)"

interpretation srv_life: guarded_lifecycle sv_state SClosed SStarted "Server_Start (Some c) side" close_of
  "\<lambda>_. True" "\<lambda>p. sv_conn p \<noteq> None" ErrPeerIsOpened
  by unfold_locales (auto simp: Server_Start_simps Server_Close_simps close_of_def)

definition push_all :: "byte list list \<Rightarrow> 'k server \<Rightarrow> 'k server outcome" where
  "push_all ms p = foldl (\<lambda>r m. obind r (\<lambda>p. obind (Server_Push m p) (\<lambda>(_, p'). Ret p'))) (Ret p) ms"

definition push_frames :: "byte list list \<Rightarrow> frame list" where
  "push_frames ms = map (NewFrame OpMessage) ms"

definition out_bytes :: "'k server \<Rightarrow> byte list" where
  "out_bytes p = (case sv_conn p of None \<Rightarrow> [] | Some c \<Rightarrow> wr_out (cn_out c))"

definition running :: "'k server \<Rightarrow> conn \<Rightarrow> bool" where
  "running p c \<longleftrightarrow> sv_state p = SStarted \<and> sv_conn p = Some c \<and> conn_writable c"

lemma push_all_running:
  "running p c \<Longrightarrow> push_all ms p = Ret (p\<lparr>sv_conn := Some (sent (concat (map ser_frame (push_frames ms))) c)\<rparr>)"
proof (induction ms rule: rev_induct)
  case Nil
  then show ?case by (simp add: push_all_def running_def push_frames_def)
next
  case (snoc m ms)
  then show ?case
    by (simp add: push_all_def running_def push_frames_def Server_Push_def with_conn_def writeFrame_sent)
qed

lemma loop_frames_push:
  "list_all fits32 ms \<Longrightarrow> list_all loop_frame (push_frames ms) \<and> payloads (push_frames ms) = filter (\<lambda>m. m \<noteq> []) ms \<and>
    pongs (push_frames ms) = []"
  by (induction ms)
     (auto simp: push_frames_def loop_frame_def payloads_def pongs_def is_ping_def)

lemma push_then_close:
  assumes "running a c"
  shows "obind (push_all ms a) Server_Close =
    Ret (a\<lparr>sv_conn := Some (conn_Close (sent (concat (map ser_frame (push_frames ms)) @ ser_frame (NewFrame OpClose [])) c)),
           sv_state := SClosed\<rparr>)"
  using assms by (simp add: push_all_running [OF assms] running_def Server_Close_simps WriteControl_sent)

lemma readHandler_until_close:
  assumes "running b d" and "list_all loop_frame fs"
    and "rd_bytes (cn_in d) = concat (map ser_frame fs) @ ser_frame (NewFrame OpClose []) @ rest"
  shows "\<exists>d'. Server_readHandler b = Ret (b\<lparr>sv_conn := Some d',
      sv_onMsg := sv_onMsg b @ map (\<lambda>m. \<lparr>sm_ID = sv_ID b, sm_Payload = m\<rparr>) (payloads fs),
      sv_state := SClosed, sv_onDisconnect := Suc (sv_onDisconnect b)\<rparr>) \<and> cn_closed d'"
proof -
  obtain d1 where "read_frames d = (payloads fs, PeerClosed, d1)"
    using read_frames_until_close [OF assms(2) _ assms(3)] assms(1) by (auto simp: running_def)
  with assms(1) show ?thesis
    by (auto simp: Server_readHandler_def running_def reader_exit_simps conn_Close_def
        intro!: exI [of _ "d1\<lparr>cn_closed := True\<rparr>"])
qed

text \<open>C16: End to end between two running peers: when one pushes messages and then closes, the other's reader delivers
  exactly the non-empty ones, in order and under its own id, then closes its connection and notifies its listener once;
  neither call panics, both end closed, and a later push on either side is refused.\<close>
theorem peer_exchange:
  assumes "running a c" and "wr_out (cn_out c) = []" and "list_all fits32 ms" and "running b d"
    and "obind (push_all ms a) Server_Close = Ret a'" and "rd_bytes (cn_in d) = out_bytes a'"
  shows "\<exists>b'. Server_readHandler b = Ret b' \<and>
    sv_onMsg b' = sv_onMsg b @ map (\<lambda>m. \<lparr>sm_ID = sv_ID b, sm_Payload = m\<rparr>) (filter (\<lambda>m. m \<noteq> []) ms) \<and>
    sv_onDisconnect b' = Suc (sv_onDisconnect b) \<and> sv_onDisconnect a' = sv_onDisconnect a \<and>
    Server_Push m a' = Ret (Some ErrPeerIsClosed, a') \<and> Server_Push m b' = Ret (Some ErrPeerIsClosed, b')"
proof -
  have a': "a' = a\<lparr>sv_conn := Some (conn_Close (sent (concat (map ser_frame (push_frames ms)) @ ser_frame (NewFrame OpClose [])) c)),
      sv_state := SClosed\<rparr>"
    using assms(5) push_then_close [OF assms(1), of ms] by simp
  have "rd_bytes (cn_in d) = concat (map ser_frame (push_frames ms)) @ ser_frame (NewFrame OpClose []) @ []"
    using assms(2,6) by (simp add: a' out_bytes_def conn_Close_def)
  from readHandler_until_close [OF assms(4) _ this] loop_frames_push [OF assms(3)] show ?thesis
    by (auto simp: a' Server_Push_closed)
qed

definition example_peer :: "byte list \<Rightarrow> id20 server" where
  "example_peer bs = (NewServer (id20_of 5) [])\<lparr>sv_state := SStarted, sv_conn := Some (open_conn bs)\<rparr>"

lemma running_example [simp]: "running (example_peer bs) (open_conn bs)"
  by (simp add: running_def example_peer_def)

lemma peer_exchange_witness:
  "\<exists>b'. Server_readHandler (example_peer
        (concat (map ser_frame (push_frames [[1, 2], [], [3]])) @ ser_frame (NewFrame OpClose []))) = Ret b' \<and>
    sv_onMsg b' = [\<lparr>sm_ID = id20_of 5, sm_Payload = [1, 2]\<rparr>, \<lparr>sm_ID = id20_of 5, sm_Payload = [3]\<rparr>]"
proof -
  let ?bs = "concat (map ser_frame (push_frames [[1, 2], [], [3]])) @ ser_frame (NewFrame OpClose [])"
  obtain a' where a': "obind (push_all [[1, 2], [], [3]] (example_peer [])) Server_Close = Ret a'" "out_bytes a' = ?bs"
    using push_then_close [OF running_example [of "[]"], of "[[1, 2], [], [3]]"] by (simp add: out_bytes_def conn_Close_def)
  have "list_all fits32 [[1, 2], [], [3 :: byte]]" by (simp add: fits32_def)
  from peer_exchange [OF running_example [of "[]"] _ this running_example [of ?bs] a'(1)] a'(2)
  show ?thesis by (auto simp: example_peer_def NewServer_def)
qed

section \<open>Start, reader and close interleaved\<close>

text \<open>
  One life of the connection, in its atomic steps. \<open>StartIdle\<close> to \<open>StartDone\<close> is the caller of
  \<^verbatim>\<open>Start\<close>: it waits until the reader has called \<^verbatim>\<open>wait.Done\<close>. \<open>ReadSetup\<close> to \<open>ReadGone\<close> is the
  goroutine of \<^verbatim>\<open>readHandler\<close>, which leaves its loop at any time. Each natural number is a
  caller of \<^verbatim>\<open>Close\<close>.
\<close>

datatype start_pc = StartIdle | StartWait | StartReady | StartDone "go_error option"
datatype reader_pc = ReadNone | ReadSetup | ReadLoop | ReadExit | ReadClose | ReadNotify | ReadReset | ReadGone
datatype closer_pc = CloseIdle | CloseWrite | CloseConn | CloseReset | CloseDone

record peer_sys =
  ps_state :: srv_state
  ps_start :: start_pc
  ps_reader :: reader_pc
  ps_closer :: "nat \<Rightarrow> closer_pc"
  ps_conn_closes :: nat
  ps_notified :: nat

definition peer_init :: peer_sys where
  "peer_init = \<lparr>ps_state = SClosed, ps_start = StartIdle, ps_reader = ReadNone,
     ps_closer = (\<lambda>_. CloseIdle), ps_conn_closes = 0, ps_notified = 0\<rparr>"

inductive peer_step :: "peer_sys \<Rightarrow> peer_sys \<Rightarrow> bool" where
  start_begin: "ps_start s = StartIdle \<Longrightarrow> ps_state s = SClosed \<Longrightarrow>
    peer_step s (s\<lparr>ps_state := SStarting, ps_start := StartWait, ps_reader := ReadSetup\<rparr>)"
| reader_setup: "ps_reader s = ReadSetup \<Longrightarrow> peer_step s (s\<lparr>ps_reader := ReadLoop\<rparr>)"
| start_waited: "ps_start s = StartWait \<Longrightarrow> ps_reader s \<noteq> ReadSetup \<Longrightarrow>
    peer_step s (s\<lparr>ps_start := StartReady\<rparr>)"
| start_finish: "ps_start s = StartReady \<Longrightarrow>
    peer_step s (s\<lparr>ps_state := snd (cas (ps_state s) SStarting SStarted),
      ps_start := StartDone (if fst (cas (ps_state s) SStarting SStarted) then None else Some ErrPeerIsOpened)\<rparr>)"
| reader_break: "ps_reader s = ReadLoop \<Longrightarrow> peer_step s (s\<lparr>ps_reader := ReadExit\<rparr>)"
| reader_defer: "ps_reader s = ReadExit \<Longrightarrow>
    peer_step s (s\<lparr>ps_state := snd (cas (ps_state s) SStarted SClosing),
      ps_reader := (if fst (cas (ps_state s) SStarted SClosing) then ReadClose else ReadGone)\<rparr>)"
| reader_close: "ps_reader s = ReadClose \<Longrightarrow>
    peer_step s (s\<lparr>ps_reader := ReadNotify, ps_conn_closes := Suc (ps_conn_closes s)\<rparr>)"
| reader_notify: "ps_reader s = ReadNotify \<Longrightarrow>
    peer_step s (s\<lparr>ps_reader := ReadReset, ps_notified := Suc (ps_notified s)\<rparr>)"
| reader_reset: "ps_reader s = ReadReset \<Longrightarrow>
    peer_step s (s\<lparr>ps_reader := ReadGone, ps_state := snd (cas (ps_state s) SClosing SClosed)\<rparr>)"
| close_begin: "ps_closer s i = CloseIdle \<Longrightarrow>
    peer_step s (s\<lparr>ps_state := snd (cas (ps_state s) SStarted SClosing),
      ps_closer := (ps_closer s)(i := if fst (cas (ps_state s) SStarted SClosing) then CloseWrite else CloseDone)\<rparr>)"
| close_write: "ps_closer s i = CloseWrite \<Longrightarrow>
    peer_step s (s\<lparr>ps_closer := (ps_closer s)(i := CloseConn)\<rparr>)"
| close_conn: "ps_closer s i = CloseConn \<Longrightarrow>
    peer_step s (s\<lparr>ps_closer := (ps_closer s)(i := CloseReset), ps_conn_closes := Suc (ps_conn_closes s)\<rparr>)"
| close_reset: "ps_closer s i = CloseReset \<Longrightarrow>
    peer_step s (s\<lparr>ps_closer := (ps_closer s)(i := CloseDone), ps_state := snd (cas (ps_state s) SClosing SClosed)\<rparr>)"

text \<open>
  Who is between winning the swap to closing and leaving that state, and how often the
  connection has been closed at that point.
\<close>

fun closing_pc :: "closer_pc \<Rightarrow> bool" where
  "closing_pc CloseIdle = False"
| "closing_pc CloseWrite = True"
| "closing_pc CloseConn = True"
| "closing_pc CloseReset = True"
| "closing_pc CloseDone = False"

fun ending_pc :: "reader_pc \<Rightarrow> bool" where
  "ending_pc ReadClose = True"
| "ending_pc ReadNotify = True"
| "ending_pc ReadReset = True"
| "ending_pc _ = False"

definition peer_excl :: "peer_sys \<Rightarrow> bool" where
  "peer_excl s \<longleftrightarrow>
     (\<forall>i. closing_pc (ps_closer s i) \<longrightarrow> ps_state s = SClosing \<and> \<not> ending_pc (ps_reader s)) \<and>
     (ending_pc (ps_reader s) \<longrightarrow> ps_state s = SClosing) \<and>
     (\<forall>i j. closing_pc (ps_closer s i) \<longrightarrow> closing_pc (ps_closer s j) \<longrightarrow> i = j)"

definition peer_starts :: "peer_sys \<Rightarrow> bool" where
  "peer_starts s \<longleftrightarrow>
     (case ps_start s of
        StartIdle \<Rightarrow> ps_state s = SClosed \<and> ps_reader s = ReadNone
      | StartWait \<Rightarrow> ps_state s = SStarting \<and> ps_reader s \<noteq> ReadNone
      | StartReady \<Rightarrow> ps_state s = SStarting \<and> ps_reader s \<notin> {ReadNone, ReadSetup}
      | StartDone e \<Rightarrow> e = None \<and> ps_state s \<noteq> SStarting \<and> ps_reader s \<notin> {ReadNone, ReadSetup})"

definition peer_counts :: "peer_sys \<Rightarrow> bool" where
  "peer_counts s \<longleftrightarrow>
     (\<forall>i. closing_pc (ps_closer s i) \<longrightarrow>
        ps_conn_closes s = (if ps_closer s i = CloseReset then 1 else 0) \<and> ps_notified s = 0) \<and>
     (ending_pc (ps_reader s) \<longrightarrow> ps_conn_closes s = (if ps_reader s = ReadClose then 0 else 1) \<and>
        ps_notified s = (if ps_reader s = ReadReset then 1 else 0)) \<and>
     (ps_state s \<in> {SStarting, SStarted} \<or> ps_start s = StartIdle \<longrightarrow> ps_conn_closes s = 0 \<and> ps_notified s = 0) \<and>
     (ps_state s = SClosed \<and> ps_start s \<noteq> StartIdle \<longrightarrow> ps_conn_closes s = 1 \<and> ps_notified s \<le> 1) \<and>
     (ps_state s = SClosing \<longrightarrow> ending_pc (ps_reader s) \<or> (\<exists>i. closing_pc (ps_closer s i)))"

definition peer_inv :: "peer_sys \<Rightarrow> bool" where
  "peer_inv s \<longleftrightarrow> peer_excl s \<and> peer_starts s \<and> peer_counts s"

lemma peer_exclD:
  assumes "peer_excl s" and "closing_pc (ps_closer s i)"
  shows "ps_state s = SClosing" "\<not> ending_pc (ps_reader s)" "j \<noteq> i \<Longrightarrow> \<not> closing_pc (ps_closer s j)"
    "j \<noteq> i \<Longrightarrow> ps_closer s j \<noteq> CloseReset"
  using assms unfolding peer_excl_def by (blast, blast, blast, metis closing_pc.simps(4))

lemma peer_countsD:
  assumes "peer_counts s" and "closing_pc (ps_closer s i)"
  shows "ps_conn_closes s = (if ps_closer s i = CloseReset then 1 else 0)" "ps_notified s = 0"
  using assms by (auto simp: peer_counts_def)

lemma peer_excl_step:
  assumes "peer_step s t" and "peer_excl s"
  shows "peer_excl t"
  using assms(1)
proof cases
  case (close_write i)
  then have "closing_pc (ps_closer s i)" by simp
  from peer_exclD [OF assms(2) this] close_write show ?thesis by (auto simp: peer_excl_def split: if_splits)
next
  case (close_conn i)
  then have "closing_pc (ps_closer s i)" by simp
  from peer_exclD [OF assms(2) this] close_conn show ?thesis by (auto simp: peer_excl_def split: if_splits)
next
  case (close_reset i)
  then have "closing_pc (ps_closer s i)" by simp
  from peer_exclD [OF assms(2) this] close_reset show ?thesis by (auto simp: peer_excl_def split: if_splits)
qed (insert assms(2), auto simp: peer_excl_def split: if_splits)

lemma peer_starts_step: "peer_step s t \<Longrightarrow> peer_excl s \<Longrightarrow> peer_starts s \<Longrightarrow> peer_starts t"
  by (cases rule: peer_step.cases, assumption)
     (auto simp: peer_excl_def peer_starts_def split: start_pc.splits if_splits)

lemma peer_counts_step:
  assumes "peer_step s t" and "peer_excl s" and "peer_starts s" and "peer_counts s"
  shows "peer_counts t"
  using assms(1)
proof cases
  case (close_begin i)
  show ?thesis
  proof (cases "ps_state s = SStarted")
    case True
    then have "\<not> ending_pc (ps_reader s)" "\<And>j. \<not> closing_pc (ps_closer s j)" "ps_conn_closes s = 0" "ps_notified s = 0"
      using assms(2,4) by (auto simp: peer_excl_def peer_counts_def)
    moreover have "ps_closer s j \<noteq> CloseReset" for j
      using calculation(2) [of j] by auto
    ultimately show ?thesis using True close_begin by (auto simp: peer_counts_def split: if_splits)
  next
    case False
    have "closing_pc (((ps_closer s)(i := CloseDone)) j) \<longleftrightarrow> closing_pc (ps_closer s j)"
      "((ps_closer s)(i := CloseDone)) j = CloseReset \<longleftrightarrow> ps_closer s j = CloseReset" for j
      using close_begin(2) by auto
    with False close_begin(1) assms(4) show ?thesis by (simp add: peer_counts_def)
  qed
next
  case (close_write i)
  then have c: "closing_pc (ps_closer s i)" by simp
  have "ps_start s \<noteq> StartIdle"
    using peer_exclD(1) [OF assms(2) c] assms(3) by (auto simp: peer_starts_def)
  with peer_exclD [OF assms(2) c] peer_countsD [OF assms(4) c] close_write show ?thesis
    by (auto simp: peer_counts_def split: if_splits)
next
  case (close_conn i)
  then have c: "closing_pc (ps_closer s i)" by simp
  have "ps_start s \<noteq> StartIdle"
    using peer_exclD(1) [OF assms(2) c] assms(3) by (auto simp: peer_starts_def)
  with peer_exclD [OF assms(2) c] peer_countsD [OF assms(4) c] close_conn show ?thesis
    by (auto simp: peer_counts_def split: if_splits)
next
  case (close_reset i)
  then have c: "closing_pc (ps_closer s i)" by simp
  have "ps_start s \<noteq> StartIdle"
    using peer_exclD(1) [OF assms(2) c] assms(3) by (auto simp: peer_starts_def)
  with peer_exclD [OF assms(2) c] peer_countsD [OF assms(4) c] close_reset show ?thesis
    by (auto simp: peer_counts_def split: if_splits)
qed (insert assms(2-), auto simp: peer_excl_def peer_starts_def peer_counts_def split: if_splits)

interpretation peers: invariant_system peer_init peer_step peer_inv
proof unfold_locales
  show "peer_inv peer_init"
    by (simp add: peer_inv_def peer_init_def peer_excl_def peer_starts_def peer_counts_def)
next
  fix s t
  assume "peer_inv s"
  moreover assume "peer_step s t"
  ultimately show "peer_inv t"
    using peer_excl_step peer_starts_step peer_counts_step by (auto simp: peer_inv_def)
qed

abbreviation peer_reaches :: "peer_sys \<Rightarrow> bool" where
  "peer_reaches \<equiv> reachable peer_init peer_step"

text \<open>C17: However \<^verbatim>\<open>Start\<close>, the reader and any number of \<^verbatim>\<open>Close\<close> calls interleave, the connection is closed at most once and
  the listener notified at most once, and only about a connection that has been closed; it is closed exactly once
  when the peer is back in its closed state and never while it counts as started, and \<^verbatim>\<open>Start\<close> does not fail.\<close>
theorem peer_closed_once:
  assumes "peer_reaches s"
  shows "ps_conn_closes s \<le> 1 \<and> ps_notified s \<le> ps_conn_closes s \<and>
    (ps_state s = SStarted \<longrightarrow> ps_conn_closes s = 0) \<and>
    (ps_state s = SClosed \<and> ps_start s \<noteq> StartIdle \<longrightarrow> ps_conn_closes s = 1) \<and>
    (\<forall>e. ps_start s = StartDone e \<longrightarrow> e = None)"
proof -
  have x: "peer_counts s" and y: "peer_starts s" using peers.reachable_inv [OF assms] by (simp_all add: peer_inv_def)
  have "ps_conn_closes s \<le> 1 \<and> ps_notified s \<le> ps_conn_closes s"
    using x by (cases "ps_state s"; cases "ps_start s = StartIdle") (auto simp: peer_counts_def split: if_splits)
  with x y show ?thesis by (auto simp: peer_counts_def peer_starts_def split: start_pc.splits)
qed

lemma peer_stepI: "peer_reaches s \<Longrightarrow> peer_step s t \<Longrightarrow> peer_reaches t"
  by (rule reach_step)

lemma peer_started:
  "peer_reaches \<lparr>ps_state = SStarted, ps_start = StartDone None, ps_reader = ReadLoop,
     ps_closer = (\<lambda>_. CloseIdle), ps_conn_closes = 0, ps_notified = 0\<rparr>"
proof -
  note [simp] = peer_init_def
  have "peer_reaches (peer_init\<lparr>ps_state := SStarting, ps_start := StartWait, ps_reader := ReadSetup\<rparr>)"
    by (rule peer_stepI [OF reach_init start_begin]) simp_all
  from peer_stepI [OF this reader_setup]
  have "peer_reaches (peer_init\<lparr>ps_state := SStarting, ps_start := StartWait, ps_reader := ReadLoop\<rparr>)" by simp
  from peer_stepI [OF this start_waited]
  have "peer_reaches (peer_init\<lparr>ps_state := SStarting, ps_start := StartReady, ps_reader := ReadLoop\<rparr>)" by simp
  from peer_stepI [OF this start_finish] show ?thesis by simp
qed

lemma peer_closed_once_witness:
  "peer_reaches \<lparr>ps_state = SClosed, ps_start = StartDone None, ps_reader = ReadLoop,
     ps_closer = (\<lambda>_. CloseIdle)(0 := CloseDone), ps_conn_closes = 1, ps_notified = 0\<rparr> \<and>
   ps_conn_closes \<lparr>ps_state = SClosed, ps_start = StartDone None, ps_reader = ReadLoop,
     ps_closer = (\<lambda>_. CloseIdle)(0 := CloseDone), ps_conn_closes = 1, ps_notified = 0\<rparr> \<le> 1"
proof -
  let ?s = "\<lambda>st pc n. \<lparr>ps_state = st, ps_start = StartDone None, ps_reader = ReadLoop,
     ps_closer = (\<lambda>_. CloseIdle)(0 := pc), ps_conn_closes = n, ps_notified = 0\<rparr>"
  have "peer_reaches (?s SClosing CloseWrite 0)" using peer_stepI [OF peer_started close_begin [of _ 0]] by simp
  from peer_stepI [OF this close_write [of _ 0]] have "peer_reaches (?s SClosing CloseConn 0)" by simp
  from peer_stepI [OF this close_conn [of _ 0]] have "peer_reaches (?s SClosing CloseReset 1)" by simp
  from peer_stepI [OF this close_reset [of _ 0]] have "peer_reaches (?s SClosed CloseDone 1)" by simp
  with peer_closed_once [OF this] show ?thesis by blast
qed

lemma reader_gone_stays:
  "reachable s peer_step t \<Longrightarrow> ps_reader s = ReadGone \<Longrightarrow> ps_start s = StartDone e \<Longrightarrow>
   ps_reader t = ReadGone \<and> ps_start t = StartDone e \<and> ps_notified t = ps_notified s"
proof (induction rule: reachable.induct)
  case (reach_step u v)
  from reach_step.hyps(2) reach_step.IH [OF reach_step.prems] show ?case
    by cases auto
qed simp

text \<open>A peer can start dead: when its reader leaves its loop before \<^verbatim>\<open>Start\<close> has made its last swap, the deferred
  function finds the starting state and does nothing, \<^verbatim>\<open>Start\<close> returns nil with the peer started, and from then on, whatever
  happens, the listener is never told and only a \<^verbatim>\<open>Close\<close> of the peer itself closes the connection.\<close>
theorem peer_starts_dead:
  "\<exists>s. peer_reaches s \<and> ps_start s = StartDone None \<and> ps_state s = SStarted \<and> ps_reader s = ReadGone \<and>
    ps_conn_closes s = 0 \<and> (\<forall>t. reachable s peer_step t \<longrightarrow> ps_reader t = ReadGone \<and> ps_notified t = 0)"
proof -
  note [simp] = peer_init_def
  let ?s = "peer_init\<lparr>ps_state := SStarted, ps_start := StartDone None, ps_reader := ReadGone\<rparr>"
  have "peer_reaches (peer_init\<lparr>ps_state := SStarting, ps_start := StartWait, ps_reader := ReadSetup\<rparr>)"
    by (rule peer_stepI [OF reach_init start_begin]) simp_all
  from peer_stepI [OF this reader_setup]
  have "peer_reaches (peer_init\<lparr>ps_state := SStarting, ps_start := StartWait, ps_reader := ReadLoop\<rparr>)" by simp
  from peer_stepI [OF this reader_break]
  have "peer_reaches (peer_init\<lparr>ps_state := SStarting, ps_start := StartWait, ps_reader := ReadExit\<rparr>)" by simp
  from peer_stepI [OF this reader_defer]
  have "peer_reaches (peer_init\<lparr>ps_state := SStarting, ps_start := StartWait, ps_reader := ReadGone\<rparr>)" by simp
  from peer_stepI [OF this start_waited]
  have "peer_reaches (peer_init\<lparr>ps_state := SStarting, ps_start := StartReady, ps_reader := ReadGone\<rparr>)" by simp
  from peer_stepI [OF this start_finish] have "peer_reaches ?s" by simp
  moreover have "ps_reader t = ReadGone \<and> ps_notified t = 0" if "reachable ?s peer_step t" for t
    using reader_gone_stays [OF that, of None] by simp
  ultimately show ?thesis by (intro exI [of _ ?s]) simp
qed

lemma peer_starts_dead_witness:
  "\<exists>s. peer_reaches s \<and> ps_start s = StartDone None \<and> ps_state s = SStarted \<and> ps_reader s = ReadGone \<and> ps_notified s = 0"
  using peer_starts_dead by (auto intro: reach_init)

end
