(* ===== verification/Cluster.thy ===== *)
theory Cluster
  imports PeerServer
begin

text \<open>
  The cluster of logic servers a gateway keeps, \<^verbatim>\<open>lgcluster/cluster.go\<close>: a map from server id to
  peer, the list of its ids, and a round-robin index. The order in which Go ranges over the map
  is the argument \<open>rng\<close>; what dialing an address gives is the argument \<open>dial\<close>; \<open>cs_total\<close> is
  the gauge \<^verbatim>\<open>serverTotal\<close>.
\<close>

section \<open>State and registry\<close>

record lg_info =
  lg_Id :: string
  lg_Ip :: string
  lg_Port :: i32

record 'k cluster =
  cs_gwid :: 'k
  cs_servers :: "('k, 'k server) gomap"
  cs_ids :: "'k list"
  cs_index :: nat
  cs_started :: bool
  cs_total :: int

type_synonym 'k ranging = "('k, 'k server) gomap \<Rightarrow> 'k list"

definition newCluster :: "'k \<Rightarrow> 'k cluster" where
  "newCluster gwid = \<lparr>cs_gwid = gwid, cs_servers = [], cs_ids = [], cs_index = 0, cs_started = False, cs_total = 0\<rparr>"

definition rebuildIds :: "'k ranging \<Rightarrow> 'k cluster \<Rightarrow> 'k cluster" where
  "rebuildIds rng c = c\<lparr>cs_ids := rng (cs_servers c)\<rparr>"

definition addServer :: "'k ranging \<Rightarrow> 'k server \<Rightarrow> 'k cluster \<Rightarrow> 'k cluster" where
  "addServer rng p c = rebuildIds rng (c\<lparr>cs_servers := AList.update (sv_ID p) p (cs_servers c)\<rparr>)"

definition delServer :: "'k ranging \<Rightarrow> 'k \<Rightarrow> 'k cluster \<Rightarrow> 'k server option \<times> 'k cluster" where
  "delServer rng uuid c =
     (case map_of (cs_servers c) uuid of
        None \<Rightarrow> (None, c)
      | Some server \<Rightarrow> (Some server, rebuildIds rng (c\<lparr>cs_servers := AList.delete uuid (cs_servers c)\<rparr>)))"

text \<open>A read lock does not stop two callers from moving the index at the same time, see below.\<close>

definition Get :: "pid \<Rightarrow> 'k cluster \<Rightarrow> ('k server option \<times> 'k cluster) outcome" where
  "Get pid c =
     (let slen = length (cs_servers c)
      in if slen = 0 then Ret (None, c)
         else
           (let c1 = c\<lparr>cs_index := cs_index c + 1\<rparr>;
                c2 = c1\<lparr>cs_index := cs_index c1 mod slen\<rparr>
            in if cs_index c2 < length (cs_ids c2)
               then Ret (map_of (cs_servers c2) (cs_ids c2 ! cs_index c2), c2)
               else Panic IndexOutOfRange))"

section \<open>Connecting\<close>

definition show_int :: "int \<Rightarrow> string" where
  "show_int i = (if i < 0 then CHR ''-'' # show_nat (nat (- i)) else show_nat (nat i))"

definition addr_of :: "lg_info \<Rightarrow> string" where
  "addr_of sr = lg_Ip sr @ '':'' @ show_int (sint (lg_Port sr))"

definition TypeGate :: "byte list" where
  "TypeGate = bytes_of ''gateway''"

text \<open>
  The error of \<^verbatim>\<open>ksuid.Parse\<close>, which comes with the nil id, and the one of \<^verbatim>\<open>Start\<close> are dropped.
\<close>

definition buildServer ::
  "'k ksuid_api \<Rightarrow> (string \<Rightarrow> go_error + conn) \<Rightarrow> 'k \<Rightarrow> lg_info \<Rightarrow> go_error + 'k server" where
  "buildServer K dial gwID sr =
     (case ConnectServer K (dial (addr_of sr)) gwID TypeGate of
        (_, Some err) \<Rightarrow> Inl err
      | (conn, None) \<Rightarrow>
          (let lgid = (case ks_Parse K (lg_Id sr) of None \<Rightarrow> ks_Nil K | Some i \<Rightarrow> i);
               p = (NewServer lgid TypeGate)\<lparr>sv_Addr := addr_of sr\<rparr>
           in Inr (snd (Server_Start conn SideClient p))))"

text \<open>\<open>dials\<close> gives what each of the at most five attempts meets.\<close>

fun connect_tries ::
  "'k ksuid_api \<Rightarrow> 'k ranging \<Rightarrow> (string \<Rightarrow> go_error + conn) list \<Rightarrow> lg_info \<Rightarrow> 'k cluster \<Rightarrow> 'k cluster" where
  "connect_tries K rng [] sr c = c"
| "connect_tries K rng (dial # dials) sr c =
     (case buildServer K dial (cs_gwid c) sr of
        Inl err \<Rightarrow> connect_tries K rng dials sr c
      | Inr p \<Rightarrow> addServer rng p (c\<lparr>cs_total := cs_total c + 1\<rparr>))"

definition connectServer ::
  "'k ksuid_api \<Rightarrow> 'k ranging \<Rightarrow> (nat \<Rightarrow> string \<Rightarrow> go_error + conn) \<Rightarrow> lg_info \<Rightarrow> 'k cluster \<Rightarrow> 'k cluster" where
  "connectServer K rng dials sr c = connect_tries K rng (map dials [0..<5]) sr c"

text \<open>What \<^verbatim>\<open>namesrv/client\<close> answers today: no servers and no error.\<close>

definition GetServers :: "go_error + lg_info list" where
  "GetServers = Inr []"

definition cluster_init ::
  "'k ksuid_api \<Rightarrow> 'k ranging \<Rightarrow> (nat \<Rightarrow> string \<Rightarrow> go_error + conn) \<Rightarrow> go_error + lg_info list \<Rightarrow> 'k cluster \<Rightarrow> 'k cluster" where
  "cluster_init K rng dials servers c =
     (case servers of Inl err \<Rightarrow> c | Inr srs \<Rightarrow> foldl (\<lambda>c sr. connectServer K rng dials sr c) c srs)"

definition cluster_start ::
  "'k ksuid_api \<Rightarrow> 'k ranging \<Rightarrow> (nat \<Rightarrow> string \<Rightarrow> go_error + conn) \<Rightarrow> go_error + lg_info list \<Rightarrow> 'k cluster \<Rightarrow> 'k cluster" where
  "cluster_start K rng dials servers c =
     (case cas (cs_started c) False True of
        (False, _) \<Rightarrow> c
      | (True, st) \<Rightarrow> cluster_init K rng dials servers (c\<lparr>cs_started := st\<rparr>))"

definition disconnectServer :: "'k ranging \<Rightarrow> 'k \<Rightarrow> 'k cluster \<Rightarrow> ('k server option \<times> 'k cluster) outcome" where
  "disconnectServer rng sid c =
     (case delServer rng sid c of
        (None, c') \<Rightarrow> Ret (None, c')
      | (Some s, c') \<Rightarrow> obind (Server_Close s) (\<lambda>s'. Ret (Some s', c')))"

text \<open>
  The ticks of \<^verbatim>\<open>reconnect\<close>: each carries whether more than thirty minutes have passed and what
  dialing gives. With no more ticks it is still waiting, as after the last one modelled.
\<close>

fun reconnect ::
  "'k ksuid_api \<Rightarrow> 'k ranging \<Rightarrow> (bool \<times> (go_error + conn)) list \<Rightarrow> 'k server \<Rightarrow> 'k cluster \<Rightarrow> 'k cluster" where
  "reconnect K rng [] p c = c"
| "reconnect K rng ((late, dial) # ticks) p c =
     (if map_of (cs_servers c) (sv_ID p) \<noteq> None then c
      else case Server_Restart K dial p of
             (Some err, p') \<Rightarrow> (if late then c else reconnect K rng ticks p' c)
           | (None, p') \<Rightarrow> addServer rng p' c)"

text \<open>One disconnected peer taken by \<^verbatim>\<open>handleConnectionClose\<close>.\<close>

definition handleConnectionClose ::
  "'k ksuid_api \<Rightarrow> 'k ranging \<Rightarrow> (bool \<times> (go_error + conn)) list \<Rightarrow> 'k server \<Rightarrow> 'k cluster \<Rightarrow> 'k cluster" where
  "handleConnectionClose K rng ticks p c =
     (let c1 = snd (delServer rng (sv_ID p) c)
      in reconnect K rng ticks p (c1\<lparr>cs_total := cs_total c1 - 1\<rparr>))"

section \<open>The registry, in every order of its operations\<close>

text \<open>The ids are the keys of the map in some order, and each peer is stored under its own id.\<close>

definition cluster_ok :: "'k cluster \<Rightarrow> bool" where
  "cluster_ok c \<longleftrightarrow> wf_map (cs_servers c) \<and> range_order (cs_ids c) (cs_servers c) \<and>
     (\<forall>k p. map_of (cs_servers c) k = Some p \<longrightarrow> sv_ID p = k)"

definition ranges :: "'k ranging \<Rightarrow> bool" where
  "ranges rng \<longleftrightarrow> (\<forall>m. range_order (rng m) m)"

inductive cluster_step :: "'k cluster \<Rightarrow> 'k cluster \<Rightarrow> bool" where
  add: "ranges rng \<Longrightarrow> cluster_step c (addServer rng p c)"
| del: "ranges rng \<Longrightarrow> delServer rng k c = (r, c') \<Longrightarrow> cluster_step c c'"
| get: "Get pid c = Ret (r, c') \<Longrightarrow> cluster_step c c'"

lemma cluster_ok_total: "cluster_ok (c\<lparr>cs_total := n\<rparr>) = cluster_ok c"
  by (simp add: cluster_ok_def)

lemma addServer_ok: "ranges rng \<Longrightarrow> cluster_ok c \<Longrightarrow> cluster_ok (addServer rng p c)"
  by (auto simp: cluster_ok_def addServer_def rebuildIds_def ranges_def split: if_splits)

lemma delServer_ok: "ranges rng \<Longrightarrow> cluster_ok c \<Longrightarrow> cluster_ok (snd (delServer rng k c))"
  by (auto simp: cluster_ok_def delServer_def rebuildIds_def ranges_def split: option.splits if_splits)

lemma Get_ok:
  assumes "cluster_ok c" and "cs_servers c \<noteq> []"
  shows "\<exists>p. Get pid c = Ret (Some p, c\<lparr>cs_index := (cs_index c + 1) mod length (cs_servers c)\<rparr>) \<and>
    map_of (cs_servers c) (cs_ids c ! ((cs_index c + 1) mod length (cs_servers c))) = Some p \<and>
    sv_ID p = cs_ids c ! ((cs_index c + 1) mod length (cs_servers c))"
proof -
  let ?i = "(cs_index c + 1) mod length (cs_servers c)"
  have l: "?i < length (cs_ids c)" "set (cs_ids c) = set (keys (cs_servers c))"
    using assms range_orderD [of "cs_ids c" "cs_servers c"] by (auto simp: cluster_ok_def)
  then have "cs_ids c ! ?i \<in> set (keys (cs_servers c))" by (metis nth_mem)
  then obtain p where "map_of (cs_servers c) (cs_ids c ! ?i) = Some p" by (auto simp: in_keys)
  with l assms show ?thesis by (auto simp: Get_def Let_def cluster_ok_def)
qed

lemma Get_empty: "cs_servers c = [] \<Longrightarrow> Get pid c = Ret (None, c)"
  by (simp add: Get_def)

lemma Get_keeps:
  "Get pid c = Ret (r, c') \<Longrightarrow> cs_servers c' = cs_servers c \<and> cs_ids c' = cs_ids c"
  by (auto simp: Get_def Let_def split: if_splits)

interpretation clusters: invariant_system "newCluster gwid" cluster_step cluster_ok
proof unfold_locales
  show "cluster_ok (newCluster gwid)" by (simp add: cluster_ok_def newCluster_def range_order_def)
next
  fix c d :: "'k cluster"
  assume ok: "cluster_ok c"
  assume "cluster_step c d"
  then show "cluster_ok d"
  proof cases
    case (add rng p)
    with ok show ?thesis by (simp add: addServer_ok)
  next
    case (del rng k r)
    with delServer_ok [OF del(1) ok, of k] show ?thesis by simp
  next
    case (get pid r)
    with ok Get_keeps [OF get] show ?thesis by (simp add: cluster_ok_def)
  qed
qed

text \<open>C26: However servers are added, removed and picked, one operation after the other, picking never panics: it gives no
  server iff none is registered, and otherwise one that is registered under its own id; a removed server is never given.\<close>
theorem cluster_get_registered:
  assumes "reachable (newCluster gwid) cluster_step c"
  shows "\<exists>r c'. Get pid c = Ret (r, c') \<and> (r = None \<longleftrightarrow> cs_servers c = []) \<and>
    (\<forall>p. r = Some p \<longrightarrow> map_of (cs_servers c) (sv_ID p) = Some p) \<and>
    (\<forall>p rng. r = Some p \<longrightarrow> ranges rng \<longrightarrow> fst (delServer rng (sv_ID p) c') = Some p \<and>
      map_of (cs_servers (snd (delServer rng (sv_ID p) c'))) (sv_ID p) = None)"
proof (cases "cs_servers c = []")
  case True
  then show ?thesis by (simp add: Get_empty)
next
  case False
  from Get_ok [OF clusters.reachable_inv [OF assms] False, of pid] obtain p where
    "Get pid c = Ret (Some p, c\<lparr>cs_index := (cs_index c + 1) mod length (cs_servers c)\<rparr>)"
    "map_of (cs_servers c) (sv_ID p) = Some p" by auto
  with False show ?thesis by (simp add: delServer_def rebuildIds_def)
qed

section \<open>Fairness\<close>

fun gets :: "nat \<Rightarrow> 'k cluster \<Rightarrow> ('k server option list \<times> 'k cluster) outcome" where
  "gets 0 c = Ret ([], c)"
| "gets (Suc n) c = obind (gets n c) (\<lambda>(rs, c1). obind (Get 0 c1) (\<lambda>(r, c2). Ret (rs @ [r], c2)))"

lemma gets_ids:
  assumes "cluster_ok c" and "cs_servers c \<noteq> []"
  shows "\<exists>rs. gets n c = Ret (rs, c\<lparr>cs_index := (if n = 0 then cs_index c else (cs_index c + n) mod length (cs_servers c))\<rparr>) \<and>
    map (map_option sv_ID) rs = map (\<lambda>k. Some (cs_ids c ! ((cs_index c + k) mod length (cs_servers c)))) [1..<Suc n]"
proof (induction n)
  case (Suc n)
  let ?c = "c\<lparr>cs_index := (if n = 0 then cs_index c else (cs_index c + n) mod length (cs_servers c))\<rparr>"
  have i: "(cs_index ?c + 1) mod length (cs_servers ?c) = (cs_index c + Suc n) mod length (cs_servers c)"
    by (simp add: mod_Suc_eq)
  from assms have "cluster_ok ?c" "cs_servers ?c \<noteq> []" by (simp_all add: cluster_ok_def)
  from Get_ok [OF this, of 0] Suc i show ?case by auto
qed simp

lemma mod_window_from: "mset (map (\<lambda>x. x mod n) [a..<a + n]) = mset [0..<n]"
proof (induction a)
  case 0
  have "map (\<lambda>x. x mod n) [0..<n] = map (\<lambda>x. x) [0..<n]" by (rule map_cong) auto
  then show ?case by simp
next
  case (Suc a)
  show ?case
  proof (cases "n = 0")
    case False
    then have "[a..<a + n] = a # [Suc a..<a + n]" "[Suc a..<Suc a + n] = [Suc a..<a + n] @ [a + n]"
      by (simp_all add: upt_conv_Cons)
    with Suc show ?thesis by simp
  qed simp
qed

lemma mod_window: "mset (map (\<lambda>k. (i + k) mod n) [1..<Suc n]) = mset [0..<n]"
proof -
  have "map (\<lambda>k. (i + k) mod n) [1..<Suc n] = map (\<lambda>x. x mod n) [i + 1..<i + 1 + n]"
    by (rule nth_equalityI) (simp_all del: upt_Suc)
  then show ?thesis by (simp only: mod_window_from)
qed

text \<open>C27: Picking is fair: from any state the cluster reaches, as many consecutive picks as there are servers, with no change
  to the registry in between, give every server exactly once.\<close>
theorem cluster_round_robin:
  assumes "reachable (newCluster gwid) cluster_step c"
  shows "\<exists>rs c'. gets (length (cs_servers c)) c = Ret (rs, c') \<and>
    mset (map (map_option sv_ID) rs) = mset (map Some (keys (cs_servers c)))"
proof (cases "cs_servers c = []")
  case True
  then show ?thesis by simp
next
  case False
  let ?n = "length (cs_servers c)"
  note ok = clusters.reachable_inv [OF assms]
  obtain rs c' where g: "gets ?n c = Ret (rs, c')"
    "map (map_option sv_ID) rs = map (\<lambda>k. Some (cs_ids c ! ((cs_index c + k) mod ?n))) [1..<Suc ?n]"
    using gets_ids [OF ok False, of ?n] by blast
  have "mset (map (map_option sv_ID) rs) =
      image_mset (\<lambda>j. Some (cs_ids c ! j)) (mset (map (\<lambda>k. (cs_index c + k) mod ?n) [1..<Suc ?n]))"
    by (simp only: g(2) mset_map [symmetric] map_map comp_def)
  also have "\<dots> = mset (map Some (map ((!) (cs_ids c)) [0..<?n]))"
    by (simp only: mod_window mset_map [symmetric] map_map comp_def)
  also have "map ((!) (cs_ids c)) [0..<?n] = cs_ids c"
    using ok range_orderD(2) [of "cs_ids c" "cs_servers c"] map_nth [of "cs_ids c"] by (simp add: cluster_ok_def)
  also have "mset (map Some (cs_ids c)) = mset (map Some (keys (cs_servers c)))"
    using ok by (simp add: cluster_ok_def range_order_def)
  finally show ?thesis using g(1) by blast
qed

section \<open>Two picks at the same time\<close>

text \<open>
  \<^verbatim>\<open>Get\<close> moves the index under a read lock, which any number of callers hold together. Its
  statements, interleaved, over a registry that no writer can change meanwhile.
\<close>

datatype 'k get_pc = GetIdle | GetLen nat | GetIncr nat | GetMod nat | GetDone 'k | GetPanic

record 'k rr_state =
  rr_ids :: "'k list"
  rr_index :: nat
  rr_pc :: "nat \<Rightarrow> 'k get_pc"

definition rr_init :: "'k list \<Rightarrow> 'k rr_state" where
  "rr_init ids = \<lparr>rr_ids = ids, rr_index = 0, rr_pc = (\<lambda>_. GetIdle)\<rparr>"

inductive rr_step :: "'k rr_state \<Rightarrow> 'k rr_state \<Rightarrow> bool" where
  get_len: "rr_pc s t = GetIdle \<Longrightarrow> rr_ids s \<noteq> [] \<Longrightarrow>
    rr_step s (s\<lparr>rr_pc := (rr_pc s)(t := GetLen (length (rr_ids s)))\<rparr>)"
| get_incr: "rr_pc s t = GetLen n \<Longrightarrow>
    rr_step s (s\<lparr>rr_index := rr_index s + 1, rr_pc := (rr_pc s)(t := GetIncr n)\<rparr>)"
| get_mod: "rr_pc s t = GetIncr n \<Longrightarrow>
    rr_step s (s\<lparr>rr_index := rr_index s mod n, rr_pc := (rr_pc s)(t := GetMod n)\<rparr>)"
| get_fetch: "rr_pc s t = GetMod n \<Longrightarrow>
    rr_step s (s\<lparr>rr_pc := (rr_pc s)(t := if rr_index s < length (rr_ids s) then GetDone (rr_ids s ! rr_index s) else GetPanic)\<rparr>)"

lemma rr_increments:
  assumes "reachable (rr_init ids) rr_step \<lparr>rr_ids = ids, rr_index = i, rr_pc = (\<lambda>t. if t = 0 then pc else GetIdle)\<rparr>"
    and "ids \<noteq> []"
  shows "reachable (rr_init ids) rr_step
    \<lparr>rr_ids = ids, rr_index = i + m, rr_pc = (\<lambda>t. if t = 0 then pc else if t \<le> m then GetIncr (length ids) else GetIdle)\<rparr>"
proof (induction m)
  case 0
  have "(\<lambda>t. if t = 0 then pc else if t \<le> 0 then GetIncr (length ids) else GetIdle) = (\<lambda>t :: nat. if t = 0 then pc else GetIdle)"
    by (rule ext) simp
  with assms(1) show ?case by simp
next
  case (Suc m)
  let ?pc = "\<lambda>t. if t = 0 then pc else if t \<le> m then GetIncr (length ids) else GetIdle"
  have "reachable (rr_init ids) rr_step \<lparr>rr_ids = ids, rr_index = i + m, rr_pc = ?pc(Suc m := GetLen (length ids))\<rparr>"
    using reach_step [OF Suc get_len [of _ "Suc m"]] assms(2) by simp
  from reach_step [OF this get_incr [of _ "Suc m" "length ids"]]
  have "reachable (rr_init ids) rr_step \<lparr>rr_ids = ids, rr_index = i + Suc m, rr_pc = ?pc(Suc m := GetIncr (length ids))\<rparr>"
    by simp
  moreover have "?pc(Suc m := GetIncr (length ids)) =
      (\<lambda>t. if t = 0 then pc else if t \<le> Suc m then GetIncr (length ids) else GetIdle)"
    by (rule ext) auto
  ultimately show ?case by simp
qed

text \<open>Concurrent picks can panic, whatever the servers registered: between one caller's reduction of the index and its use,
  other callers increment it past the end of the list of ids.\<close>
theorem concurrent_get_panics:
  assumes "ids \<noteq> []"
  shows "\<exists>s. reachable (rr_init ids) rr_step s \<and> rr_ids s = ids \<and> rr_pc s 0 = GetPanic"
proof -
  let ?n = "length ids"
  have "reachable (rr_init ids) rr_step \<lparr>rr_ids = ids, rr_index = 0, rr_pc = (\<lambda>_. GetIdle)(0 := GetLen ?n)\<rparr>"
    using reach_step [OF reach_init [of "rr_init ids" rr_step] get_len [of "rr_init ids" 0]] assms by (simp add: rr_init_def)
  from reach_step [OF this get_incr [of _ 0 ?n]]
  have "reachable (rr_init ids) rr_step \<lparr>rr_ids = ids, rr_index = 1, rr_pc = (\<lambda>_. GetIdle)(0 := GetIncr ?n)\<rparr>" by simp
  from reach_step [OF this get_mod [of _ 0 ?n]]
  have m: "reachable (rr_init ids) rr_step \<lparr>rr_ids = ids, rr_index = 1 mod ?n, rr_pc = (\<lambda>_. GetIdle)(0 := GetMod ?n)\<rparr>" by simp
  have f: "(\<lambda>_. GetIdle)(0 := GetMod ?n) = (\<lambda>t. if t = 0 then GetMod ?n else GetIdle)" by (rule ext) simp
  have n: "1 mod ?n + (?n - 1 mod ?n) = ?n"
    by (rule le_add_diff_inverse) (use assms in \<open>simp add: Suc_le_eq\<close>)
  note rr_increments [OF m [unfolded f] assms, of "?n - 1 mod ?n", unfolded n]
  from reach_step [OF this get_fetch [of _ 0 ?n]] show ?thesis by fastforce
qed

section \<open>Connecting and reconnecting\<close>

lemma ConnectServer_conn: "ConnectServer K dial i m = (c, None) \<Longrightarrow> \<exists>conn. c = Some conn"
  by (auto simp: ConnectServer_def NewFrameWithEncoder_def Let_def split: sum.splits prod.splits option.splits if_splits)

lemma buildServer_started:
  assumes "buildServer K dial gwID sr = Inr p"
  shows "sv_state p = SStarted \<and> sv_Side p = SideClient \<and> sv_Addr p = addr_of sr \<and>
    sv_conn p = fst (ConnectServer K (dial (addr_of sr)) gwID TypeGate) \<and> sv_conn p \<noteq> None"
proof -
  obtain c e where C: "ConnectServer K (dial (addr_of sr)) gwID TypeGate = (c, e)"
    by (cases "ConnectServer K (dial (addr_of sr)) gwID TypeGate")
  have B: "buildServer K dial gwID sr = (case e of Some err \<Rightarrow> Inl err | None \<Rightarrow>
      Inr (snd (Server_Start c SideClient ((NewServer (case ks_Parse K (lg_Id sr) of None \<Rightarrow> ks_Nil K | Some i \<Rightarrow> i) TypeGate)
        \<lparr>sv_Addr := addr_of sr\<rparr>))))"
    unfolding buildServer_def Let_def C by (cases e) (simp_all only: prod.case option.case)
  with assms have e: "e = None" by (cases e) simp_all
  obtain conn where c: "c = Some conn" using ConnectServer_conn [OF C [unfolded e]] by blast
  have "p = snd (Server_Start c SideClient ((NewServer (case ks_Parse K (lg_Id sr) of None \<Rightarrow> ks_Nil K | Some i \<Rightarrow> i) TypeGate)
        \<lparr>sv_Addr := addr_of sr\<rparr>))"
    using assms B e by simp
  then show ?thesis unfolding C c by (simp add: NewServer_def Server_Start_simps)
qed

lemma connect_tries_first:
  "j < length dials \<Longrightarrow> (\<forall>i<j. \<exists>e. buildServer K (dials ! i) (cs_gwid c) sr = Inl e) \<Longrightarrow>
   buildServer K (dials ! j) (cs_gwid c) sr = Inr p \<Longrightarrow>
   connect_tries K rng dials sr c = addServer rng p (c\<lparr>cs_total := cs_total c + 1\<rparr>)"
proof (induction dials arbitrary: j)
  case (Cons d ds)
  show ?case
  proof (cases j)
    case (Suc k)
    with Cons.prems obtain e where "buildServer K d (cs_gwid c) sr = Inl e" by force
    moreover have "connect_tries K rng ds sr c = addServer rng p (c\<lparr>cs_total := cs_total c + 1\<rparr>)"
      using Cons.prems Suc by (intro Cons.IH [of k]) force+
    ultimately show ?thesis by simp
  qed (use Cons.prems in simp)
qed simp

lemma connect_tries_none:
  "(\<forall>d\<in>set dials. \<exists>e. buildServer K d (cs_gwid c) sr = Inl e) \<Longrightarrow> connect_tries K rng dials sr c = c"
  by (induction dials) auto

text \<open>Connecting to a logic server tries at most five times and registers the first attempt that succeeds, as a started
  client-side peer on exactly that attempt's connection, counted once; when the first five fail the cluster is unchanged.\<close>
theorem connect_first_success:
  "(\<forall>i<5. \<exists>e. buildServer K (dials i) (cs_gwid c) sr = Inl e) \<and> connectServer K rng dials sr c = c \<or>
   (\<exists>j<5. \<exists>p. (\<forall>i<j. \<exists>e. buildServer K (dials i) (cs_gwid c) sr = Inl e) \<and>
      buildServer K (dials j) (cs_gwid c) sr = Inr p \<and> sv_state p = SStarted \<and> sv_Side p = SideClient \<and>
      sv_conn p = fst (ConnectServer K (dials j (addr_of sr)) (cs_gwid c) TypeGate) \<and>
      connectServer K rng dials sr c = addServer rng p (c\<lparr>cs_total := cs_total c + 1\<rparr>))"
proof (cases "\<forall>i<5. \<exists>e. buildServer K (dials i) (cs_gwid c) sr = Inl e")
  case True
  then have "\<forall>d\<in>set (map dials [0..<5]). \<exists>e. buildServer K d (cs_gwid c) sr = Inl e" by auto
  from connect_tries_none [OF this, of rng] have "connectServer K rng dials sr c = c" by (simp only: connectServer_def)
  with True show ?thesis by blast
next
  case False
  define j where "j = (LEAST i. i < 5 \<and> (\<nexists>e. buildServer K (dials i) (cs_gwid c) sr = Inl e))"
  from False have "\<exists>i. i < 5 \<and> (\<nexists>e. buildServer K (dials i) (cs_gwid c) sr = Inl e)" by blast
  from LeastI_ex [OF this] have j: "j < 5 \<and> (\<nexists>e. buildServer K (dials j) (cs_gwid c) sr = Inl e)"
    unfolding j_def .
  have b: "\<forall>i<j. \<exists>e. buildServer K (dials i) (cs_gwid c) sr = Inl e"
  proof (intro allI impI)
    fix i
    assume i: "i < j"
    then have "\<not> (i < 5 \<and> (\<nexists>e. buildServer K (dials i) (cs_gwid c) sr = Inl e))"
      unfolding j_def by (rule not_less_Least)
    moreover have "i < 5" using i j by linarith
    ultimately show "\<exists>e. buildServer K (dials i) (cs_gwid c) sr = Inl e" by blast
  qed
  obtain p where p: "buildServer K (dials j) (cs_gwid c) sr = Inr p"
    using j by (cases "buildServer K (dials j) (cs_gwid c) sr") auto
  have nth: "map dials [0..<5] ! i = dials i" if "i < 5" for i using that by (subst nth_map) simp_all
  have "connectServer K rng dials sr c = addServer rng p (c\<lparr>cs_total := cs_total c + 1\<rparr>)"
    unfolding connectServer_def
  proof (rule connect_tries_first [of j])
    show "j < length (map dials [0..<5])" using j by simp
    show "\<forall>i<j. \<exists>e. buildServer K (map dials [0..<5] ! i) (cs_gwid c) sr = Inl e"
      using b j nth by (metis dual_order.strict_trans)
    show "buildServer K (map dials [0..<5] ! j) (cs_gwid c) sr = Inr p" using j nth p by metis
  qed
  with j b p buildServer_started [OF p] show ?thesis by blast
qed

text \<open>The gauge of connected servers drifts: a registered server that disconnects and is reconnected is registered again,
  so as many servers are registered as before, but it has been counted down and not up.\<close>
theorem reconnect_gauge_drifts:
  assumes "ranges rng" and "cluster_ok c" and "map_of (cs_servers c) (sv_ID p) = Some q" and "sv_Addr p \<noteq> []"
    and "ConnectServer K dial (sv_ID p) (sv_Meta p) = (Some conn, None)"
  shows "\<exists>c'. handleConnectionClose K rng [(late, dial)] p c = c' \<and> cluster_ok c' \<and>
    set (keys (cs_servers c')) = set (keys (cs_servers c)) \<and>
    (\<exists>p'. map_of (cs_servers c') (sv_ID p) = Some p' \<and> sv_state p' = SStarted \<and> sv_conn p' = Some conn) \<and>
    cs_total c' = cs_total c - 1"
proof -
  let ?c = "(snd (delServer rng (sv_ID p) c))\<lparr>cs_total := cs_total c - 1\<rparr>"
  let ?p = "p\<lparr>sv_state := SStarted, sv_conn := Some conn, sv_Side := sv_Side p\<rparr>"
  have d: "delServer rng (sv_ID p) c =
      (Some q, rebuildIds rng (c\<lparr>cs_servers := AList.delete (sv_ID p) (cs_servers c)\<rparr>))"
    using assms(3) by (simp add: delServer_def)
  have r: "Server_Restart K dial p = (None, ?p)"
    using assms(4,5) by (simp add: Server_Restart_def Server_Start_simps)
  have h: "handleConnectionClose K rng [(late, dial)] p c = addServer rng ?p ?c"
    unfolding handleConnectionClose_def Let_def
    by (simp only: reconnect.simps r prod.case option.case) (simp add: d rebuildIds_def)
  have "cluster_ok ?c" using delServer_ok [OF assms(1,2), of "sv_ID p"] by (simp only: cluster_ok_total)
  from addServer_ok [OF assms(1) this] have ok: "cluster_ok (addServer rng ?p ?c)" .
  have s: "cs_servers (addServer rng ?p ?c) = AList.update (sv_ID p) ?p (AList.delete (sv_ID p) (cs_servers c))"
    by (simp add: addServer_def d rebuildIds_def)
  have k: "sv_ID p \<in> set (keys (cs_servers c))" using assms(3) by (simp add: in_keys)
  have "set (keys (cs_servers (addServer rng ?p ?c))) = set (keys (cs_servers c))" unfolding s using k by auto
  moreover have "map_of (cs_servers (addServer rng ?p ?c)) (sv_ID p) = Some ?p" unfolding s by simp
  moreover have "cs_total (addServer rng ?p ?c) = cs_total c - 1" by (simp add: addServer_def rebuildIds_def)
  ultimately show ?thesis using h ok by (intro exI [of _ "addServer rng ?p ?c"]) simp
qed

section \<open>Concrete instances\<close>

definition example_server :: "byte \<Rightarrow> id20 server" where
  "example_server i = (example_peer [])\<lparr>sv_ID := id20_of i, sv_Addr := ''a''\<rparr>"

definition example_cluster :: "id20 cluster" where
  "example_cluster = addServer keys (example_server 2) (addServer keys (example_server 1) (newCluster (id20_of 9)))"

lemma ranges_keys: "ranges keys"
  by (simp add: ranges_def)

lemma example_reachable: "reachable (newCluster (id20_of 9)) cluster_step example_cluster"
  unfolding example_cluster_def
  by (rule reach_step [OF reach_step [OF reach_init]]) (rule cluster_step.add [OF ranges_keys])+

lemma example_servers: "sv_ID (example_server i) = id20_of i" "length (cs_servers example_cluster) = 2"
  "map_of (cs_servers example_cluster) (id20_of 1) = Some (example_server 1)"
  by (simp_all add: example_server_def example_cluster_def addServer_def rebuildIds_def newCluster_def)

lemma cluster_get_registered_witness:
  "\<exists>p c'. Get PIDChat example_cluster = Ret (Some p, c') \<and> map_of (cs_servers example_cluster) (sv_ID p) = Some p"
proof -
  have "cs_servers example_cluster \<noteq> []" using example_servers(2) by auto
  with cluster_get_registered [OF example_reachable, of PIDChat] show ?thesis by force
qed

lemma cluster_round_robin_witness:
  "\<exists>rs c'. gets 2 example_cluster = Ret (rs, c') \<and>
    mset (map (map_option sv_ID) rs) = mset (map Some (keys (cs_servers example_cluster)))"
  using cluster_round_robin [OF example_reachable] unfolding example_servers(2) .

lemma concurrent_get_panics_witness:
  "\<exists>s. reachable (rr_init [id20_of 1]) rr_step s \<and> rr_pc s 0 = GetPanic"
  using concurrent_get_panics [of "[id20_of 1]"] by auto

lemma reconnect_gauge_drifts_witness:
  "cs_total (handleConnectionClose id20_api keys
      [(False, Inr (open_conn (ack_bytes CodeHandshakeOk None)))] (example_server 1) example_cluster) = -1"
proof -
  let ?dial = "Inr (open_conn (ack_bytes CodeHandshakeOk None)) :: go_error + conn"
  obtain conn where C: "ConnectServer id20_api ?dial (sv_ID (example_server 1)) (sv_Meta (example_server 1)) = (Some conn, None)"
    using ConnectServer_ack [of None "open_conn (ack_bytes CodeHandshakeOk None)" CodeHandshakeOk "[]" id20_api
        "sv_ID (example_server 1)" "sv_Meta (example_server 1)"]
    by (auto simp: short_text_def prod_eq_iff)
  have "cs_total example_cluster = 0"
    by (simp add: example_cluster_def addServer_def rebuildIds_def newCluster_def)
  with reconnect_gauge_drifts [OF ranges_keys clusters.reachable_inv [OF example_reachable] _ _ C, of "example_server 1" False]
  show ?thesis by (simp add: example_servers) (simp add: example_server_def)
qed

definition example_info :: lg_info where
  "example_info = \<lparr>lg_Id = ''s'', lg_Ip = ''10.0.0.2'', lg_Port = 8100\<rparr>"

lemma connect_first_success_witness:
  "connectServer id20_api keys (\<lambda>i _. Inl EOF) example_info example_cluster = example_cluster"
  using connect_first_success [of id20_api "\<lambda>i _. Inl EOF" example_cluster example_info keys]
  by (auto simp: buildServer_def ConnectServer_def)

end
