(* ===== verification/Proxy.thy ===== *)
theory Proxy
  imports Cluster
begin

text \<open>
  The proxy between a gateway and the logic servers, \<^verbatim>\<open>lgcluster/proxy.go\<close>: packets from clients
  go up to a server of the cluster, messages of the servers come down to a receiver. The receiver
  acts on a state \<open>'s\<close> of its own, which is an argument; its error is dropped by the code.
  \<open>px_in\<close> is the channel of packets going up, with its capacity; \<open>px_failed\<close> the counter
  \<^verbatim>\<open>writeLogicFailTotal\<close>.
\<close>

section \<open>State and operations\<close>

type_synonym ('k, 's) receiver = "'k relay_packet \<Rightarrow> 's \<Rightarrow> 's"

record ('k, 's) proxy =
  px_ID :: 'k
  px_bu :: "'k cluster"
  px_receive :: "('k, 's) receiver option"
  px_in :: "'k relay_packet list"
  px_failed :: nat

text \<open>The receiver it is given is replaced when there is one, and left \<^verbatim>\<open>nil\<close> when there is none.\<close>

definition NewLgClusterProxy :: "'k \<Rightarrow> ('k, 's) receiver option \<Rightarrow> ('k, 's) proxy" where
  "NewLgClusterProxy uuid receive =
     (let proxy = \<lparr>px_ID = uuid, px_bu = newCluster uuid, px_receive = receive, px_in = [], px_failed = 0\<rparr>
      in if receive \<noteq> None then proxy\<lparr>px_receive := Some (\<lambda>pkt s. s)\<rparr> else proxy)"

definition SetReceiver :: "('k, 's) receiver option \<Rightarrow> ('k, 's) proxy \<Rightarrow> ('k, 's) proxy" where
  "SetReceiver receive p = p\<lparr>px_receive := receive\<rparr>"

definition Proxy_Start ::
  "'k ksuid_api \<Rightarrow> 'k ranging \<Rightarrow> (nat \<Rightarrow> string \<Rightarrow> go_error + conn) \<Rightarrow> go_error + lg_info list \<Rightarrow> ('k, 's) proxy \<Rightarrow> ('k, 's) proxy" where
  "Proxy_Start K rng dials servers p = p\<lparr>px_bu := cluster_start K rng dials servers (px_bu p)\<rparr>"

definition in_capacity :: nat where
  "in_capacity = 100"

text \<open>\<open>None\<close> is a sender that waits for room in the channel.\<close>

definition Send :: "'k relay_packet \<Rightarrow> ('k, 's) proxy \<Rightarrow> (go_error option \<times> ('k, 's) proxy) option" where
  "Send pkt p = (if length (px_in p) < in_capacity then Some (None, p\<lparr>px_in := px_in p @ [pkt]\<rparr>) else None)"

text \<open>
  One packet in \<^verbatim>\<open>handleClientMessage\<close>. The server it pushes to is the object the map points to,
  at the index \<^verbatim>\<open>Get\<close> has just moved.
\<close>

definition handleClientMessage :: "'k ksuid_api \<Rightarrow> 'k relay_packet \<Rightarrow> ('k, 's) proxy \<Rightarrow> ('k, 's) proxy outcome" where
  "handleClientMessage K pkt p =
     (case rp_Payload pkt of
        None \<Rightarrow> Panic NilDeref
      | Some m \<Rightarrow>
          obind (Get (GetPID (msg_Header m)) (px_bu p)) (\<lambda>(server, bu).
          case server of
            None \<Rightarrow> Ret (p\<lparr>px_bu := bu, px_failed := Suc (px_failed p)\<rparr>)
          | Some s \<Rightarrow>
              obind (RelayPacket_Bytes K pkt) (\<lambda>b.
              obind (Server_Push b s) (\<lambda>(err, s').
              Ret (p\<lparr>px_bu := bu\<lparr>cs_servers := AList.update (cs_ids bu ! cs_index bu) s' (cs_servers bu)\<rparr>\<rparr>)))))"

text \<open>The loop itself, until the channel is empty.\<close>

fun drain_in :: "'k ksuid_api \<Rightarrow> 'k relay_packet list \<Rightarrow> ('k, 's) proxy \<Rightarrow> ('k, 's) proxy outcome" where
  "drain_in K [] p = Ret (p\<lparr>px_in := []\<rparr>)"
| "drain_in K (pkt # pkts) p = obind (handleClientMessage K pkt p) (drain_in K pkts)"

text \<open>\<^verbatim>\<open>handleLogicServerMsg\<close> over the messages of the servers: one that does not decode is skipped.\<close>

fun handleLogicServerMsg ::
  "'k ksuid_api \<Rightarrow> ('k, 's) proxy \<Rightarrow> 'k ServerMessage list \<Rightarrow> 's \<Rightarrow> 's outcome" where
  "handleLogicServerMsg K p [] st = Ret st"
| "handleLogicServerMsg K p (msg # msgs) st =
     (case RelayPacket_Decode K (zero_relay K) (bytes_buffer (sm_Payload msg)) of
        (Some err, pkt, _) \<Rightarrow> handleLogicServerMsg K p msgs st
      | (None, pkt, _) \<Rightarrow>
          (case px_receive p of
             None \<Rightarrow> Panic NilFuncCall
           | Some receive \<Rightarrow> handleLogicServerMsg K p msgs (receive pkt st)))"

section \<open>Going down\<close>

fun decoded :: "'k ksuid_api \<Rightarrow> 'k ServerMessage list \<Rightarrow> 'k relay_packet list" where
  "decoded K [] = []"
| "decoded K (msg # msgs) =
     (case RelayPacket_Decode K (zero_relay K) (bytes_buffer (sm_Payload msg)) of
        (Some err, _, _) \<Rightarrow> decoded K msgs
      | (None, pkt, _) \<Rightarrow> pkt # decoded K msgs)"

lemma decoded_append: "decoded K (xs @ ys) = decoded K xs @ decoded K ys"
  by (induction xs) (auto split: prod.splits option.splits)

lemma handleLogicServerMsg_fold:
  "px_receive p = Some f \<Longrightarrow> handleLogicServerMsg K p msgs st = Ret (fold f (decoded K msgs) st)"
  by (induction msgs arbitrary: st) (auto split: prod.splits option.splits)

lemma handleLogicServerMsg_nil:
  "px_receive p = None \<Longrightarrow>
   handleLogicServerMsg K p msgs st = (if decoded K msgs = [] then Ret st else Panic NilFuncCall)"
  by (induction msgs arbitrary: st) (auto split: prod.splits option.splits)

text \<open>C25: Once a receiver is set, the packets of the logic servers reach it exactly once and in order: of messages that carry
  the bytes of packets, with any undecodable messages among them, it is called with the packets and nothing else.\<close>
theorem proxy_delivers:
  assumes "ksuid_pkg K" and "list_all (\<lambda>m. \<exists>x. relay_ok m x) pkts"
    and "list_all2 (\<lambda>m b. RelayPacket_Bytes K m = Ret b) pkts bs" and "decoded K noise = []"
  shows "handleLogicServerMsg K (SetReceiver (Some f) p)
      (noise @ concat (map (\<lambda>b. \<lparr>sm_ID = i, sm_Payload = b\<rparr> # noise) bs)) st = Ret (fold f pkts st)"
proof -
  from assms(3,2) have "decoded K (concat (map (\<lambda>b. \<lparr>sm_ID = i, sm_Payload = b\<rparr> # noise) bs)) = pkts"
  proof (induction rule: list_all2_induct)
    case (Cons m pkts b bs)
    then obtain x where "relay_ok m x" by auto
    then have "RelayPacket_Decode K (zero_relay K) (bytes_buffer b) = (None, m, bytes_buffer [])"
      using ksuid_pkg.RelayPacket_Decode_ser [OF assms(1), of m x "[]"] Cons.hyps(1)
      by (simp add: RelayPacket_Bytes_ser relay_ok_def)
    with Cons assms(4) show ?case by (simp add: decoded_append)
  qed simp
  then show ?thesis
    using assms(4) by (subst handleLogicServerMsg_fold [where f = f]) (simp_all add: SetReceiver_def decoded_append)
qed

lemma proxy_delivers_witness:
  "\<exists>b. RelayPacket_Bytes id20_api example_relay = Ret b \<and>
    handleLogicServerMsg id20_api (SetReceiver (Some (\<lambda>pkt st. st @ [pkt])) (NewLgClusterProxy (id20_of 1) None))
      [\<lparr>sm_ID = id20_of 2, sm_Payload = [1]\<rparr>, \<lparr>sm_ID = id20_of 2, sm_Payload = b\<rparr>, \<lparr>sm_ID = id20_of 2, sm_Payload = [1]\<rparr>] [] =
    Ret [example_relay]"
proof -
  obtain b where b: "RelayPacket_Bytes id20_api example_relay = Ret b"
    using example_relay_ok by (auto simp: relay_ok_def RelayPacket_Bytes_ser)
  have "fst (RelayPacket_Decode id20_api (zero_relay id20_api) (bytes_buffer [1])) \<noteq> None"
    by (simp add: RelayPacket_Decode_def DecodeKSUID_def ReadFixedBytes_def read_fixed_buffer id20.len_20)
  then have "decoded id20_api [\<lparr>sm_ID = id20_of 2, sm_Payload = [1]\<rparr>] = []"
    by (auto split: prod.splits option.splits)
  from proxy_delivers [OF id20.ksuid_pkg_axioms _ _ this, of "[example_relay]" "[b]" "\<lambda>pkt st. st @ [pkt]"
      "NewLgClusterProxy (id20_of 1) None" "id20_of 2" "[]"] b example_relay_ok
  show ?thesis by auto
qed

text \<open>The constructor has its check of the receiver the wrong way round: a receiver given to it is replaced by one that
  does nothing, so every packet is lost; without one, the first packet that decodes calls a nil function.\<close>
theorem constructor_loses_receiver:
  fixes K :: "'k ksuid_api"
  shows "handleLogicServerMsg K (NewLgClusterProxy uuid (Some f)) msgs st = Ret st \<and>
   handleLogicServerMsg K (NewLgClusterProxy uuid None) msgs st =
     (if decoded K msgs = [] then Ret st else Panic NilFuncCall)"
proof -
  have "fold (\<lambda>pkt s. s) pkts st = st" for pkts :: "'k relay_packet list" by (induction pkts) simp_all
  then show ?thesis
    by (simp add: handleLogicServerMsg_nil handleLogicServerMsg_fold [where f = "\<lambda>pkt s. s"] NewLgClusterProxy_def)
qed

section \<open>Going up\<close>

text \<open>C24: A packet from a client goes to exactly the next server of the round robin: its bytes are appended to that server's
  connection as one message frame, and no other server is touched. With no server it is counted as lost; and a
  packet without a payload panics the proxy.\<close>
theorem client_packet_routed:
  assumes "ksuid_pkg K" and "cluster_ok (px_bu p)" and "relay_ok pkt m"
    and "\<forall>k s. map_of (cs_servers (px_bu p)) k = Some s \<longrightarrow> (\<exists>c. running s c)"
  shows "(cs_servers (px_bu p) = [] \<longrightarrow> handleClientMessage K pkt p = Ret (p\<lparr>px_failed := Suc (px_failed p)\<rparr>)) \<and>
    (cs_servers (px_bu p) \<noteq> [] \<longrightarrow> (\<exists>k s c b p'.
      k = cs_ids (px_bu p) ! ((cs_index (px_bu p) + 1) mod length (cs_servers (px_bu p))) \<and>
      map_of (cs_servers (px_bu p)) k = Some s \<and> sv_conn s = Some c \<and> RelayPacket_Bytes K pkt = Ret b \<and>
      handleClientMessage K pkt p = Ret p' \<and> cluster_ok (px_bu p') \<and> px_failed p' = px_failed p \<and>
      map_of (cs_servers (px_bu p')) = (map_of (cs_servers (px_bu p)))
        (k \<mapsto> s\<lparr>sv_conn := Some (sent (ser_frame (NewFrame OpMessage b)) c)\<rparr>))) \<and>
    handleClientMessage K (pkt\<lparr>rp_Payload := None\<rparr>) p = Panic NilDeref"
proof (intro conjI impI)
  from assms(3) have m: "rp_Payload pkt = Some m" by (simp add: relay_ok_def)
  then obtain b where b: "RelayPacket_Bytes K pkt = Ret b" by (auto simp: RelayPacket_Bytes_ser)
  show "cs_servers (px_bu p) = [] \<Longrightarrow> handleClientMessage K pkt p = Ret (p\<lparr>px_failed := Suc (px_failed p)\<rparr>)"
    by (cases p) (simp add: handleClientMessage_def m Get_empty)
  show "handleClientMessage K (pkt\<lparr>rp_Payload := None\<rparr>) p = Panic NilDeref"
    by (simp add: handleClientMessage_def)
  assume ne: "cs_servers (px_bu p) \<noteq> []"
  let ?i = "(cs_index (px_bu p) + 1) mod length (cs_servers (px_bu p))"
  let ?k = "cs_ids (px_bu p) ! ?i"
  let ?bu = "(px_bu p)\<lparr>cs_index := ?i\<rparr>"
  obtain s where s: "Get (GetPID (msg_Header m)) (px_bu p) = Ret (Some s, ?bu)"
    "map_of (cs_servers (px_bu p)) ?k = Some s" "sv_ID s = ?k"
    using Get_ok [OF assms(2) ne] by blast
  obtain c where c: "running s c" using assms(4) s(2) by blast
  let ?s = "s\<lparr>sv_conn := Some (sent (ser_frame (NewFrame OpMessage b)) c)\<rparr>"
  let ?p = "p\<lparr>px_bu := ?bu\<lparr>cs_servers := AList.update ?k ?s (cs_servers (px_bu p))\<rparr>\<rparr>"
  have "Server_Push b s = Ret (None, ?s)"
    using c by (simp add: running_def Server_Push_def with_conn_def writeFrame_sent)
  then have h: "handleClientMessage K pkt p = Ret ?p" by (simp add: handleClientMessage_def m s(1) b)
  have "keys (AList.update ?k ?s (cs_servers (px_bu p))) = keys (cs_servers (px_bu p))"
    by (rule keys_update_old [OF s(2)])
  then have "cluster_ok (px_bu ?p)"
    using assms(2) s(3) by (auto simp: cluster_ok_def range_order_def)
  then show "\<exists>k s c b p'. k = ?k \<and> map_of (cs_servers (px_bu p)) k = Some s \<and> sv_conn s = Some c \<and>
      RelayPacket_Bytes K pkt = Ret b \<and> handleClientMessage K pkt p = Ret p' \<and> cluster_ok (px_bu p') \<and>
      px_failed p' = px_failed p \<and> map_of (cs_servers (px_bu p')) = (map_of (cs_servers (px_bu p)))
        (k \<mapsto> s\<lparr>sv_conn := Some (sent (ser_frame (NewFrame OpMessage b)) c)\<rparr>)"
    using h b s(2) c by (intro exI [of _ ?k] exI [of _ s] exI [of _ c] exI [of _ b] exI [of _ ?p]) (simp add: running_def)
qed

lemma client_packet_routed_witness:
  "\<exists>p'. handleClientMessage id20_api example_relay
      ((NewLgClusterProxy (id20_of 9) (None :: (id20, unit) receiver option))\<lparr>px_bu := example_cluster\<rparr>) = Ret p' \<and> px_failed p' = 0"
proof -
  let ?p = "(NewLgClusterProxy (id20_of 9) (None :: (id20, unit) receiver option))\<lparr>px_bu := example_cluster\<rparr>"
  have r: "\<forall>k s. map_of (cs_servers (px_bu ?p)) k = Some s \<longrightarrow> (\<exists>c. running s c)"
    by (auto simp: example_cluster_def addServer_def rebuildIds_def newCluster_def example_server_def example_peer_def
        running_def split: if_splits)
  have "cluster_ok (px_bu ?p)" using clusters.reachable_inv [OF example_reachable] by simp
  from client_packet_routed [OF id20.ksuid_pkg_axioms this example_relay_ok r] example_servers(2)
  show ?thesis by (auto simp: NewLgClusterProxy_def)
qed

section \<open>The channel\<close>

interpretation proxy_in: bounded_channel Send px_in in_capacity
  by unfold_locales (auto simp: Send_def)

text \<open>Nothing takes packets from a proxy that is not started: a hundred packets fit into its channel, and the sender of the
  next one waits forever.\<close>
theorem unstarted_proxy_blocks:
  "send_list Send pkts (NewLgClusterProxy uuid receive) \<noteq> None \<longleftrightarrow> length pkts \<le> 100"
proof -
  have "px_in (NewLgClusterProxy uuid receive) = []" by (simp add: NewLgClusterProxy_def Let_def)
  with proxy_in.send_list_fits [of "NewLgClusterProxy uuid receive" pkts] show ?thesis by (simp add: in_capacity_def)
qed

text \<open>
  The channel with its users: goroutines of the gateway send, the proxy's goroutine takes a packet and routes it,
  servers come and go, and a server's own goroutines change it. A server in the cluster has a connection when it
  counts as started. \<open>up_accepted\<close> is the packets sent so far, and \<open>up_done\<close> those that \<^verbatim>\<open>handleClientMessage\<close> is done with,
  each with the proxy as it was before and after.
\<close>

record ('k, 's) uplink_sys =
  up_proxy :: "('k, 's) proxy"
  up_accepted :: "'k relay_packet list"
  up_done :: "('k relay_packet \<times> ('k, 's) proxy \<times> ('k, 's) proxy) list"

definition uplink_init :: "'k \<Rightarrow> ('k, 's) receiver option \<Rightarrow> ('k, 's) uplink_sys" where
  "uplink_init uuid receive = \<lparr>up_proxy = NewLgClusterProxy uuid receive, up_accepted = [], up_done = []\<rparr>"

definition push_safe :: "'k server \<Rightarrow> bool" where
  "push_safe s \<longleftrightarrow> sv_state s = SStarted \<longrightarrow> sv_conn s \<noteq> None"

definition with_cluster :: "('k cluster \<Rightarrow> 'k cluster) \<Rightarrow> ('k, 's) uplink_sys \<Rightarrow> ('k, 's) uplink_sys" where
  "with_cluster f s = s\<lparr>up_proxy := (up_proxy s)\<lparr>px_bu := f (px_bu (up_proxy s))\<rparr>\<rparr>"

inductive uplink_step :: "'k ksuid_api \<Rightarrow> ('k, 's) uplink_sys \<Rightarrow> ('k, 's) uplink_sys \<Rightarrow> bool" for K :: "'k ksuid_api" where
  offered: "Send pkt (up_proxy s) = Some (e, px) \<Longrightarrow>
    uplink_step K s (s\<lparr>up_proxy := px, up_accepted := up_accepted s @ [pkt]\<rparr>)"
| routed: "px_in (up_proxy s) = pkt # pkts \<Longrightarrow>
    handleClientMessage K pkt ((up_proxy s)\<lparr>px_in := pkts\<rparr>) = Ret px \<Longrightarrow>
    uplink_step K s (s\<lparr>up_proxy := px, up_done := up_done s @ [(pkt, (up_proxy s)\<lparr>px_in := pkts\<rparr>, px)]\<rparr>)"
| server_added: "ranges rng \<Longrightarrow> push_safe p \<Longrightarrow> uplink_step K s (with_cluster (addServer rng p) s)"
| server_removed: "ranges rng \<Longrightarrow> uplink_step K s (with_cluster (\<lambda>c. snd (delServer rng sid c)) s)"
| server_changed: "map_of (cs_servers (px_bu (up_proxy s))) sid = Some p \<Longrightarrow> sv_ID p' = sv_ID p \<Longrightarrow> push_safe p' \<Longrightarrow>
    uplink_step K s (with_cluster (\<lambda>c. c\<lparr>cs_servers := AList.update sid p' (cs_servers c)\<rparr>) s)"

definition servers_safe :: "'k cluster \<Rightarrow> bool" where
  "servers_safe c \<longleftrightarrow> cluster_ok c \<and> (\<forall>k p. map_of (cs_servers c) k = Some p \<longrightarrow> push_safe p)"

text \<open>
  What has to become of a packet: with no server it is thrown away and counted; otherwise it goes to the next server of the round robin and
  to no other, as the bytes of the packet in one frame if this server's connection takes writes, and as nothing if it is not started.
\<close>

definition no_server :: "('k, 's) proxy \<Rightarrow> bool" where
  "no_server p \<longleftrightarrow> cs_servers (px_bu p) = []"

definition next_server :: "('k, 's) proxy \<Rightarrow> 'k" where
  "next_server p = cs_ids (px_bu p) ! ((cs_index (px_bu p) + 1) mod length (cs_servers (px_bu p)))"

definition pushed_to_next :: "'k ksuid_api \<Rightarrow> 'k relay_packet \<Rightarrow> ('k, 's) proxy \<Rightarrow> ('k, 's) proxy \<Rightarrow> bool" where
  "pushed_to_next K pkt p p' \<longleftrightarrow> px_failed p' = px_failed p \<and>
     (\<exists>sv sv' b. map_of (cs_servers (px_bu p)) (next_server p) = Some sv \<and> RelayPacket_Bytes K pkt = Ret b \<and>
       map_of (cs_servers (px_bu p')) = (map_of (cs_servers (px_bu p)))(next_server p \<mapsto> sv') \<and>
       (\<forall>c. running sv c \<longrightarrow> sv' = sv\<lparr>sv_conn := Some (sent (ser_frame (NewFrame OpMessage b)) c)\<rparr>) \<and>
       (sv_state sv \<noteq> SStarted \<longrightarrow> sv' = sv))"

definition packet_done :: "'k ksuid_api \<Rightarrow> 'k relay_packet \<times> ('k, 's) proxy \<times> ('k, 's) proxy \<Rightarrow> bool" where
  "packet_done K d \<longleftrightarrow> (case d of (pkt, p, p') \<Rightarrow>
     if no_server p then p' = p\<lparr>px_failed := Suc (px_failed p)\<rparr> else pushed_to_next K pkt p p')"

definition uplink_inv :: "'k ksuid_api \<Rightarrow> ('k, 's) uplink_sys \<Rightarrow> bool" where
  "uplink_inv K s \<longleftrightarrow> up_accepted s = map fst (up_done s) @ px_in (up_proxy s) \<and> length (px_in (up_proxy s)) \<le> in_capacity \<and>
     list_all (packet_done K) (up_done s) \<and>
     px_failed (up_proxy s) = length (filter (\<lambda>(pkt, p, p'). no_server p) (up_done s)) \<and> servers_safe (px_bu (up_proxy s))"

lemma servers_safe_simps:
  "servers_safe (c\<lparr>cs_index := i\<rparr>) = servers_safe c"
  "servers_safe (newCluster gwid)"
  "ranges rng \<Longrightarrow> push_safe p \<Longrightarrow> servers_safe c \<Longrightarrow> servers_safe (addServer rng p c)"
  "ranges rng \<Longrightarrow> servers_safe c \<Longrightarrow> servers_safe (snd (delServer rng k c))"
proof -
  show "servers_safe (c\<lparr>cs_index := i\<rparr>) = servers_safe c" by (simp add: servers_safe_def cluster_ok_def)
  show "servers_safe (newCluster gwid)"
    using clusters.inv_init [of gwid] by (simp add: servers_safe_def) (simp add: newCluster_def)
  show "servers_safe (addServer rng p c)" if "ranges rng" "push_safe p" "servers_safe c"
    using that addServer_ok [OF that(1), of c p] by (simp add: servers_safe_def) (simp add: addServer_def rebuildIds_def)
  show "servers_safe (snd (delServer rng k c))" if "ranges rng" "servers_safe c"
  proof (cases "map_of (cs_servers c) k")
    case None
    with that(2) show ?thesis by (simp add: delServer_def)
  next
    case (Some p)
    with that delServer_ok [OF that(1), of c k] show ?thesis
      by (simp add: servers_safe_def) (simp add: delServer_def rebuildIds_def)
  qed
qed

lemma servers_safe_update:
  assumes "servers_safe c" and "map_of (cs_servers c) sid = Some p" and "sv_ID p' = sv_ID p" and "push_safe p'"
  shows "servers_safe (c\<lparr>cs_servers := AList.update sid p' (cs_servers c)\<rparr>)"
  using assms keys_update_old [OF assms(2), of p'] by (auto simp: servers_safe_def cluster_ok_def range_order_def)

lemma Server_Push_safe:
  assumes "push_safe p"
  shows "\<exists>e p'. Server_Push b p = Ret (e, p') \<and> push_safe p' \<and> sv_ID p' = sv_ID p \<and>
    (\<forall>c. running p c \<longrightarrow> p' = p\<lparr>sv_conn := Some (sent (ser_frame (NewFrame OpMessage b)) c)\<rparr>) \<and>
    (sv_state p \<noteq> SStarted \<longrightarrow> p' = p)"
  using assms
  by (auto simp: push_safe_def Server_Push_def with_conn_def running_def writeFrame_sent split: option.splits prod.splits)

text \<open>Routing a packet that has a payload never panics, does with it what has to be done, and keeps the channel.\<close>

lemma handleClientMessage_total:
  assumes "servers_safe (px_bu p)" and "rp_Payload pkt = Some m"
  shows "\<exists>p'. handleClientMessage K pkt p = Ret p' \<and> px_in p' = px_in p \<and> servers_safe (px_bu p') \<and>
    px_failed p' = (if no_server p then Suc (px_failed p) else px_failed p) \<and> packet_done K (pkt, p, p')"
proof (cases "cs_servers (px_bu p) = []")
  case True
  then show ?thesis using assms by (cases p) (simp add: handleClientMessage_def Get_empty packet_done_def no_server_def)
next
  case False
  let ?i = "(cs_index (px_bu p) + 1) mod length (cs_servers (px_bu p))"
  have "cluster_ok (px_bu p)" using assms(1) by (simp add: servers_safe_def)
  from Get_ok [OF this False, of "GetPID (msg_Header m)"] obtain s where
    s: "Get (GetPID (msg_Header m)) (px_bu p) = Ret (Some s, (px_bu p)\<lparr>cs_index := ?i\<rparr>)"
    "map_of (cs_servers (px_bu p)) (cs_ids (px_bu p) ! ?i) = Some s" by blast
  then have "push_safe s" using assms(1) by (auto simp: servers_safe_def)
  moreover obtain b where b: "RelayPacket_Bytes K pkt = Ret b" using assms(2) by (auto simp: RelayPacket_Bytes_ser)
  ultimately obtain e s' where s': "Server_Push b s = Ret (e, s')" "push_safe s'" "sv_ID s' = sv_ID s"
    and eff: "\<forall>c. running s c \<longrightarrow> s' = s\<lparr>sv_conn := Some (sent (ser_frame (NewFrame OpMessage b)) c)\<rparr>" "sv_state s \<noteq> SStarted \<longrightarrow> s' = s"
    using Server_Push_safe [of s b] by blast
  have "servers_safe ((px_bu p)\<lparr>cs_index := ?i\<rparr>)" using assms(1) by (simp add: servers_safe_simps)
  from servers_safe_update [OF this _ s'(3,2)] s(2)
  have "servers_safe ((px_bu p)\<lparr>cs_index := ?i, cs_servers := AList.update (cs_ids (px_bu p) ! ?i) s' (cs_servers (px_bu p))\<rparr>)"
    by simp
  moreover have h: "handleClientMessage K pkt p = Ret (p\<lparr>px_bu := (px_bu p)\<lparr>cs_index := ?i,
      cs_servers := AList.update (cs_ids (px_bu p) ! ?i) s' (cs_servers (px_bu p))\<rparr>\<rparr>)" (is "_ = Ret ?p")
    using s(1) b s'(1) assms(2) by (simp add: handleClientMessage_def)
  moreover have "pushed_to_next K pkt p ?p"
    using s(2) b eff unfolding pushed_to_next_def next_server_def
    by (intro conjI exI [of _ s] exI [of _ s'] exI [of _ b]) (simp_all add: update_conv')
  ultimately show ?thesis using False by (simp add: packet_done_def no_server_def)
qed

lemma handleClientMessage_payload: "handleClientMessage K pkt p = Ret p' \<Longrightarrow> \<exists>m. rp_Payload pkt = Some m"
  by (cases "rp_Payload pkt") (simp_all add: handleClientMessage_def)

interpretation uplink: invariant_system "uplink_init uuid receive" "uplink_step K" "uplink_inv K"
proof unfold_locales
  show "uplink_inv K (uplink_init uuid receive)"
    by (simp add: uplink_inv_def uplink_init_def NewLgClusterProxy_def Let_def servers_safe_simps)
next
  fix s t :: "('a, 'b) uplink_sys"
  assume inv: "uplink_inv K s" and "uplink_step K s t"
  from this(2) show "uplink_inv K t"
  proof cases
    case (offered pkt e px)
    with proxy_in.send_SomeD [OF offered(2)] inv show ?thesis by (auto simp: uplink_inv_def Send_def split: if_splits)
  next
    case (routed pkt pkts px)
    obtain m where "rp_Payload pkt = Some m" using handleClientMessage_payload [OF routed(3)] by blast
    from handleClientMessage_total [OF _ this, of "(up_proxy s)\<lparr>px_in := pkts\<rparr>" K] routed inv show ?thesis
      by (auto simp: uplink_inv_def split: if_splits)
  qed (use inv in \<open>auto simp: uplink_inv_def with_cluster_def servers_safe_simps servers_safe_update\<close>)
qed

text \<open>C5: What becomes of the packets from clients in the proxy: whatever goroutines send, servers come, go and change, each packet
  is taken once and in the order sent, and no more than a hundred wait. Of one that was taken either there was no server, and then it was thrown
  away and nothing but the counter changed, which is exactly the number of these; or it went to the next server of the
  round robin alone, its bytes appended to the connection as one frame if that takes writes, and nothing done if that server is not
  started. The goroutine can always take the next packet, unless it has no payload, which kills it.\<close>
theorem uplink_conserves:
  assumes "reachable (uplink_init uuid receive) (uplink_step K) s"
  shows "up_accepted s = map fst (up_done s) @ px_in (up_proxy s) \<and> length (px_in (up_proxy s)) \<le> 100 \<and>
    (\<forall>(pkt, p, p')\<in>set (up_done s).
      if no_server p then p' = p\<lparr>px_failed := Suc (px_failed p)\<rparr> else pushed_to_next K pkt p p') \<and>
    px_failed (up_proxy s) = length (filter (\<lambda>(pkt, p, p'). no_server p) (up_done s)) \<and>
    (case px_in (up_proxy s) of [] \<Rightarrow> True | pkt # pkts \<Rightarrow>
       if rp_Payload pkt = None then handleClientMessage K pkt ((up_proxy s)\<lparr>px_in := pkts\<rparr>) = Panic NilDeref
       else \<exists>t. uplink_step K s t \<and> px_in (up_proxy t) = pkts \<and>
         up_done t = up_done s @ [(pkt, (up_proxy s)\<lparr>px_in := pkts\<rparr>, up_proxy t)])"
proof -
  have inv: "uplink_inv K s" by (rule uplink.reachable_inv [OF assms])
  have "\<exists>t. uplink_step K s t \<and> px_in (up_proxy t) = pkts \<and> up_done t = up_done s @ [(pkt, (up_proxy s)\<lparr>px_in := pkts\<rparr>, up_proxy t)]"
    if q: "px_in (up_proxy s) = pkt # pkts" and m: "rp_Payload pkt = Some m" for pkt pkts m
  proof -
    from handleClientMessage_total [OF _ m, of "(up_proxy s)\<lparr>px_in := pkts\<rparr>" K] inv obtain px where
      "handleClientMessage K pkt ((up_proxy s)\<lparr>px_in := pkts\<rparr>) = Ret px" "px_in px = pkts"
      by (auto simp: uplink_inv_def)
    with uplink_step.routed [OF q this(1)] show ?thesis by fastforce
  qed
  moreover have "handleClientMessage K pkt px = Panic NilDeref" if "rp_Payload pkt = None" for pkt and px :: "('a, 'b) proxy"
    using that by (simp add: handleClientMessage_def)
  ultimately show ?thesis
    using inv by (auto simp: uplink_inv_def packet_done_def list_all_iff in_capacity_def split: list.splits if_splits)
qed

lemma running_safe: "running p c \<Longrightarrow> push_safe p"
  by (simp add: running_def push_safe_def)

lemma uplink_conserves_witness:
  "\<exists>s p p' b. reachable (uplink_init (id20_of 1) (None :: (id20, unit) receiver option)) (uplink_step id20_api) s \<and>
    up_done s = [(example_relay, p, p')] \<and> px_failed (up_proxy s) = 0 \<and> RelayPacket_Bytes id20_api example_relay = Ret b \<and>
    map_of (cs_servers (px_bu p')) (id20_of 2) =
      Some ((example_server 2)\<lparr>sv_conn := Some (sent (ser_frame (NewFrame OpMessage b)) (open_conn []))\<rparr>)"
proof -
  let ?i = "uplink_init (id20_of 1) (None :: (id20, unit) receiver option)"
  let ?s = "with_cluster (addServer keys (example_server 2)) ?i"
  let ?px = "(up_proxy ?s)\<lparr>px_in := [example_relay]\<rparr>"
  let ?t = "?s\<lparr>up_proxy := ?px, up_accepted := up_accepted ?s @ [example_relay]\<rparr>"
  have run: "running (example_server 2) (open_conn [])" by (simp add: running_def example_server_def example_peer_def)
  have bu: "cs_servers (px_bu (up_proxy ?s)) = [(id20_of 2, example_server 2)]" "cs_ids (px_bu (up_proxy ?s)) = [id20_of 2]"
    by (simp_all add: uplink_init_def with_cluster_def NewLgClusterProxy_def newCluster_def addServer_def rebuildIds_def Let_def
        example_servers(1))
  have s: "reachable ?i (uplink_step id20_api) ?s"
    using reach_init uplink_step.server_added [OF ranges_keys running_safe [OF run]] by (rule reach_step)
  have send: "Send example_relay (up_proxy ?s) = Some (None, ?px)"
    by (simp add: Send_def in_capacity_def uplink_init_def with_cluster_def NewLgClusterProxy_def Let_def)
  have t: "reachable ?i (uplink_step id20_api) ?t"
    by (rule reach_step [OF s]) (rule uplink_step.offered [OF send])
  have q: "rp_Payload example_relay \<noteq> None" "px_in (up_proxy ?t) = [example_relay]" "up_done ?t = []"
    by (simp_all add: example_relay_def uplink_init_def with_cluster_def)
  with uplink_conserves [OF t] obtain u where
    u: "uplink_step id20_api ?t u" "up_done u = [(example_relay, (up_proxy ?t)\<lparr>px_in := []\<rparr>, up_proxy u)]"
    by auto
  let ?p = "(up_proxy ?t)\<lparr>px_in := []\<rparr>"
  have n: "\<not> no_server ?p" "next_server ?p = id20_of 2" using bu by (simp_all add: no_server_def next_server_def)
  from reach_step [OF t u(1)] have r: "reachable ?i (uplink_step id20_api) u" .
  from uplink_conserves [OF r] u(2) n have "pushed_to_next id20_api example_relay ?p (up_proxy u)" "px_failed (up_proxy u) = 0"
    by simp_all
  with n(2) bu run obtain b where "RelayPacket_Bytes id20_api example_relay = Ret b"
    "map_of (cs_servers (px_bu (up_proxy u))) (id20_of 2) =
      Some ((example_server 2)\<lparr>sv_conn := Some (sent (ser_frame (NewFrame OpMessage b)) (open_conn []))\<rparr>)"
    by (auto simp: pushed_to_next_def)
  with r u(2) \<open>px_failed (up_proxy u) = 0\<close> show ?thesis by blast
qed

end
