(* ===== verification/PeerSeq.thy ===== *)
theory PeerSeq
  imports FimPrelude
begin

text \<open>
  The message sequence of \<^verbatim>\<open>peer/seq.go\<close> and the one-time event of \<^verbatim>\<open>peer/event.go\<close>. \<open>Next\<close> is
  the generator with a single caller; \<open>seq_step\<close> interleaves the two atomic operations of any
  number of callers.
\<close>

section \<open>Sequence, one caller\<close>

record sequence =
  sq_num :: u32

definition Seq :: sequence where
  "Seq = \<lparr>sq_num = 1\<rparr>"

text \<open>With a single caller the compare-and-swap finds the number this call has just added.\<close>

definition Next :: "sequence \<Rightarrow> u16 \<times> sequence" where
  "Next s =
     (let next = sq_num s + 1
      in if next = 65535 then (1, s\<lparr>sq_num := 1\<rparr>) else (ucast next, s\<lparr>sq_num := next\<rparr>))"

fun take_ids :: "nat \<Rightarrow> sequence \<Rightarrow> u16 list \<times> sequence" where
  "take_ids 0 s = ([], s)"
| "take_ids (Suc n) s = (case take_ids n s of (ids, s') \<Rightarrow> (case Next s' of (i, s'') \<Rightarrow> (ids @ [i], s'')))"

text \<open>The number after \<open>k\<close> calls, which is also what the \<open>k\<close>-th call returned.\<close>

definition nth_num :: "nat \<Rightarrow> nat" where
  "nth_num k = k mod 65534 + 1"

lemma nth_num_less: "nth_num k < 65535"
  by (simp add: nth_num_def)

lemma nth_num_Suc: "nth_num (Suc k) = (if nth_num k = 65534 then 1 else Suc (nth_num k))"
  by (auto simp: nth_num_def mod_Suc)

lemma u16_of_nat_inj: "m < 65536 \<Longrightarrow> n < 65536 \<Longrightarrow> (of_nat m :: u16) = of_nat n \<longleftrightarrow> m = n"
  by (simp add: word_of_nat_eq_iff take_bit_nat_eq_self)

lemma u32_of_nat_inj: "m < 4294967296 \<Longrightarrow> n < 4294967296 \<Longrightarrow> (of_nat m :: u32) = of_nat n \<longleftrightarrow> m = n"
  by (simp add: word_of_nat_eq_iff take_bit_nat_eq_self)

lemma u16_wrap: "(65536 :: u16) = 0"
  using word_of_nat_eq_iff [of 65536 0, where 'a = 16] by simp

lemma Next_of_nat:
  assumes "n < 65535"
  shows "Next \<lparr>sq_num = of_nat n\<rparr> =
    (let m = if n = 65534 then 1 else Suc n in (of_nat m, \<lparr>sq_num = of_nat m\<rparr>))"
proof (cases "n = 65534")
  case False
  have s: "of_nat n + 1 = (of_nat (Suc n) :: u32)" by simp
  have "(of_nat (Suc n) :: u32) \<noteq> of_nat 65535"
    using assms False by (subst u32_of_nat_inj) simp_all
  moreover have "ucast (of_nat (Suc n) :: u32) = (of_nat (Suc n) :: u16)"
    using assms by (simp add: unsigned_of_nat take_bit_nat_eq_self del: of_nat_Suc)
  ultimately show ?thesis
    using False by (simp add: Next_def Let_def s del: of_nat_Suc)
qed (simp add: Next_def)

lemma nth_num_inj:
  assumes "k < l + 65534" and "l < k + 65534" and "nth_num (Suc k) = nth_num (Suc l)"
  shows "k = l"
  using assms
proof (induction k l rule: linorder_wlog)
  case (le k l)
  then have "65534 dvd Suc l - Suc k"
    by (subst mod_eq_dvd_iff_nat [symmetric]) (simp_all add: nth_num_def)
  with le show ?case by (auto dest: dvd_imp_le)
qed (metis)

lemma take_ids_Seq:
  "take_ids n Seq = (map (\<lambda>k. of_nat (nth_num (Suc k))) [0..<n], \<lparr>sq_num = of_nat (nth_num n)\<rparr>)"
proof (induction n)
  case 0
  show ?case by (simp add: Seq_def nth_num_def)
next
  case (Suc n)
  with Next_of_nat [OF nth_num_less, of n] show ?case by (simp add: nth_num_Suc Let_def)
qed

text \<open>With a single caller the ids are 2, 3, up to 65534, then 1, 2 and so on: neither 0 nor 65535 is ever
  issued, and two calls fewer than 65534 apart never get the same id.\<close>
theorem sequence_ids:
  "fst (take_ids n Seq) = map (\<lambda>k. of_nat (Suc k mod 65534 + 1)) [0..<n] \<and>
   0 \<notin> set (fst (take_ids n Seq)) \<and> 65535 \<notin> set (fst (take_ids n Seq)) \<and>
   distinct (take 65534 (drop i (fst (take_ids n Seq))))"
proof (intro conjI)
  show eq: "fst (take_ids n Seq) = map (\<lambda>k. of_nat (Suc k mod 65534 + 1)) [0..<n]"
    by (simp add: take_ids_Seq nth_num_def)
  have "of_nat (nth_num k) \<noteq> (0 :: u16)" "of_nat (nth_num k) \<noteq> (65535 :: u16)" for k
    using u16_of_nat_inj [of "nth_num k" 0] u16_of_nat_inj [of "nth_num k" 65535] nth_num_less [of k]
    by (auto simp: nth_num_def)
  then show "0 \<notin> set (fst (take_ids n Seq))" "65535 \<notin> set (fst (take_ids n Seq))"
    unfolding take_ids_Seq by (metis (no_types, lifting) fst_conv image_iff list.set_map)+
  have "inj_on (\<lambda>k. of_nat (nth_num (Suc k)) :: u16) (set (take 65534 (drop i [0..<n])))"
  proof (rule inj_onI)
    fix k l
    assume "k \<in> set (take 65534 (drop i [0..<n]))" "l \<in> set (take 65534 (drop i [0..<n]))"
      and e: "of_nat (nth_num (Suc k)) = (of_nat (nth_num (Suc l)) :: u16)"
    then have "k < l + 65534" "l < k + 65534" by (auto simp: in_set_conv_nth)
    moreover have "nth_num (Suc k) = nth_num (Suc l)"
      using e nth_num_less [of "Suc k"] nth_num_less [of "Suc l"] by (subst (asm) u16_of_nat_inj) simp_all
    ultimately show "k = l" by (rule nth_num_inj)
  qed
  then show "distinct (take 65534 (drop i (fst (take_ids n Seq))))"
    by (simp add: take_ids_Seq take_map drop_map distinct_map)
qed

section \<open>Sequence, concurrent callers\<close>

text \<open>
  A caller is idle, or it has added and got 65535 and is about to compare and swap. A caller
  whose swap fails calls \<^verbatim>\<open>Next\<close> again, which is the idle state. \<open>sq_out\<close> is what was returned.
\<close>

datatype seq_pc = Idle | Wrapping u32

record seq_state =
  sq_cell :: u32
  sq_pc :: "nat \<Rightarrow> seq_pc"
  sq_out :: "(nat \<times> u16) list"

definition seq_init :: seq_state where
  "seq_init = \<lparr>sq_cell = sq_num Seq, sq_pc = (\<lambda>_. Idle), sq_out = []\<rparr>"

inductive seq_step :: "seq_state \<Rightarrow> seq_state \<Rightarrow> bool" where
  add_return: "sq_pc s t = Idle \<Longrightarrow> sq_cell s + 1 \<noteq> 65535 \<Longrightarrow>
    seq_step s (s\<lparr>sq_cell := sq_cell s + 1, sq_out := sq_out s @ [(t, ucast (sq_cell s + 1))]\<rparr>)"
| add_wrap: "sq_pc s t = Idle \<Longrightarrow> sq_cell s + 1 = 65535 \<Longrightarrow>
    seq_step s (s\<lparr>sq_cell := sq_cell s + 1, sq_pc := (sq_pc s)(t := Wrapping (sq_cell s + 1))\<rparr>)"
| cas_return: "sq_pc s t = Wrapping n \<Longrightarrow> sq_cell s = n \<Longrightarrow>
    seq_step s (s\<lparr>sq_cell := 1, sq_pc := (sq_pc s)(t := Idle), sq_out := sq_out s @ [(t, 1)]\<rparr>)"
| cas_retry: "sq_pc s t = Wrapping n \<Longrightarrow> sq_cell s \<noteq> n \<Longrightarrow>
    seq_step s (s\<lparr>sq_pc := (sq_pc s)(t := Idle)\<rparr>)"

text \<open>
  While the counter rests at 65535 some caller is about to wrap it, and 65535 itself is only
  returned after the counter has run past it.
\<close>

definition seq_inv :: "seq_state \<Rightarrow> bool" where
  "seq_inv s \<longleftrightarrow> (sq_cell s = 65535 \<longrightarrow> (\<exists>t. sq_pc s t = Wrapping 65535)) \<and>
     (\<forall>t. sq_pc s t \<in> {Idle, Wrapping 65535})"

interpretation seqs: invariant_system seq_init seq_step seq_inv
proof unfold_locales
  show "seq_inv seq_init" by (simp add: seq_inv_def seq_init_def Seq_def)
next
  fix s t
  assume "seq_inv s"
  assume "seq_step s t"
  then show "seq_inv t"
  proof (cases rule: seq_step.cases)
    case (cas_return u n)
    with \<open>seq_inv s\<close> show ?thesis by (auto simp: seq_inv_def)
  next
    case (cas_retry u n)
    with \<open>seq_inv s\<close> show ?thesis unfolding seq_inv_def by (auto, metis seq_pc.inject seq_pc.distinct(1))
  qed (use \<open>seq_inv s\<close> in \<open>auto simp: seq_inv_def\<close>)
qed

lemma wrapping_caller:
  "reachable seq_init seq_step s \<Longrightarrow> sq_cell s = 65535 \<Longrightarrow> \<exists>t. sq_pc s t = Wrapping 65535"
  using seqs.reachable_inv by (auto simp: seq_inv_def)

lemma seq_count:
  assumes "n < 65534"
  shows "\<exists>out. reachable seq_init seq_step \<lparr>sq_cell = of_nat (Suc n), sq_pc = (\<lambda>_. Idle), sq_out = out\<rparr>"
  using assms
proof (induction n)
  case 0
  show ?case using reach_init [of seq_init seq_step] by (auto simp: seq_init_def Seq_def)
next
  case (Suc n)
  then obtain out where
    r: "reachable seq_init seq_step \<lparr>sq_cell = of_nat (Suc n), sq_pc = (\<lambda>_. Idle), sq_out = out\<rparr>"
    by auto
  have "(of_nat (Suc n) + 1 :: u32) = of_nat (Suc (Suc n))" by simp
  moreover have "(of_nat (Suc (Suc n)) :: u32) \<noteq> 65535"
    using Suc.prems u32_of_nat_inj [of "Suc (Suc n)" 65535] by simp
  ultimately show ?case
    using reach_step [OF r, OF add_return [of _ 0]] by (auto simp del: of_nat_Suc)
qed

text \<open>With concurrent callers the wrap-around is not atomic: two callers are enough for one of them to be given
  the id 0, which no single caller ever sees; the other one's compare-and-swap then fails and the counter is
  left above 65535.\<close>
theorem sequence_zero_race:
  "\<exists>s. reachable seq_init seq_step s \<and> (1, 0) \<in> set (sq_out s) \<and> sq_cell s = 65536"
proof -
  obtain out where
    r: "reachable seq_init seq_step \<lparr>sq_cell = 65534, sq_pc = (\<lambda>_. Idle), sq_out = out\<rparr>"
    using seq_count [of 65533] by auto
  have "reachable seq_init seq_step \<lparr>sq_cell = 65535, sq_pc = (\<lambda>_. Idle)(0 := Wrapping 65535), sq_out = out\<rparr>"
    by (rule reach_step [OF r]) (use add_wrap [of "\<lparr>sq_cell = 65534, sq_pc = (\<lambda>_. Idle), sq_out = out\<rparr>" 0] in simp)
  then have "reachable seq_init seq_step
      \<lparr>sq_cell = 65536, sq_pc = (\<lambda>_. Idle)(0 := Wrapping 65535), sq_out = out @ [(1, 0)]\<rparr>"
    by (rule reach_step)
       (use add_return [of "\<lparr>sq_cell = 65535, sq_pc = (\<lambda>_. Idle)(0 := Wrapping 65535), sq_out = out\<rparr>" 1] in
         \<open>simp add: u16_wrap\<close>)
  then show ?thesis by force
qed

section \<open>Event\<close>

text \<open>
  \<^verbatim>\<open>ev_once\<close> is whether the \<^verbatim>\<open>sync.Once\<close> has run, \<open>ev_closed\<close> whether the channel is closed; closing
  it again would panic.
\<close>

record event =
  ev_fired :: i32
  ev_closed :: bool
  ev_once :: bool

definition NewEvent :: event where
  "NewEvent = \<lparr>ev_fired = 0, ev_closed = False, ev_once = False\<rparr>"

definition close_chan :: "event \<Rightarrow> event outcome" where
  "close_chan e = (if ev_closed e then Panic CloseOfClosedChannel else Ret (e\<lparr>ev_closed := True\<rparr>))"

definition Fire :: "event \<Rightarrow> (bool \<times> event) outcome" where
  "Fire e =
     (if ev_once e then Ret (False, e)
      else obind (close_chan (e\<lparr>ev_once := True, ev_fired := 1\<rparr>)) (\<lambda>e'. Ret (True, e')))"

text \<open>Whether receiving from \<^verbatim>\<open>Done()\<close> returns.\<close>

definition Done :: "event \<Rightarrow> bool" where
  "Done e = ev_closed e"

definition HasFired :: "event \<Rightarrow> bool" where
  "HasFired e \<longleftrightarrow> ev_fired e = 1"

fun fire_times :: "nat \<Rightarrow> event \<Rightarrow> (bool list \<times> event) outcome" where
  "fire_times 0 e = Ret ([], e)"
| "fire_times (Suc n) e =
     obind (Fire e) (\<lambda>(b, e'). obind (fire_times n e') (\<lambda>(bs, e''). Ret (b # bs, e'')))"

lemma fire_times_again:
  "ev_once e \<Longrightarrow> fire_times n e = Ret (replicate n False, e)"
  by (induction n) (simp_all add: Fire_def)

text \<open>However often an event is fired, no call panics, the first one returns true and every later one false, and
  the event has fired and its channel is closed from the first call on.\<close>
theorem event_fires_once:
  "\<exists>e. fire_times n NewEvent = Ret (take n (True # replicate (n - 1) False), e) \<and>
    (HasFired e \<longleftrightarrow> 0 < n) \<and> (Done e \<longleftrightarrow> 0 < n)"
  by (cases n) (simp_all add: NewEvent_def Fire_def close_chan_def fire_times_again HasFired_def Done_def)

end
