(* ===== verification/Metrics.thy ===== *)
theory Metrics
  imports FimPrelude
begin

text \<open>
  The metrics of the four packages that declare some: \<^verbatim>\<open>gateway/wss/metrics.go\<close>,
  \<^verbatim>\<open>lgcluster/metrics.go\<close>, \<^verbatim>\<open>server/hub/metrics.go\<close> and \<^verbatim>\<open>server/handler/metrics.go\<close>. A collector is
  what its constructor is given; the registry is the prometheus package's, a parameter with the laws
  it documents. What the program does with a collector later, one value for one choice of labels, is
  a \<open>metric_call\<close>; the component that makes it keeps the calls in order.
\<close>

section \<open>Collectors\<close>

text \<open>Buckets, and the quantiles of a summary with their errors, are in thousandths.\<close>

datatype metric_kind = CounterVec | GaugeVec | HistogramVec "int list" | SummaryVec "(int \<times> int) list"

record collector =
  co_kind :: metric_kind
  co_Namespace :: string
  co_Subsystem :: string
  co_Name :: string
  co_Help :: string
  co_labels :: "string list"

subsection \<open>The gateway\<close>

definition wss_metricsNamespace :: string where
  "wss_metricsNamespace = ''im''"

definition msgDirectionUp :: string where "msgDirectionUp = ''upload''"
definition msgDirectionPush :: string where "msgDirectionPush = ''push''"

definition messageTotal :: collector where
  "messageTotal = \<lparr>co_kind = CounterVec, co_Namespace = wss_metricsNamespace, co_Subsystem = ''gw'', co_Name = ''messages_total'',
     co_Help = ''The number of messages uploaded or pushed'', co_labels = [''id'', ''protocol_id'', ''direction'']\<rparr>"

definition clientTotal :: collector where
  "clientTotal = \<lparr>co_kind = GaugeVec, co_Namespace = wss_metricsNamespace, co_Subsystem = ''gw'', co_Name = ''client_total'',
     co_Help = ''The number of client logined in'', co_labels = [''id'']\<rparr>"

definition wss_serverTotal :: collector where
  "wss_serverTotal = \<lparr>co_kind = GaugeVec, co_Namespace = wss_metricsNamespace, co_Subsystem = ''gw'', co_Name = ''server_total'',
     co_Help = ''The number of logic server connected in'', co_labels = [''id'']\<rparr>"

definition msgDurationSeconds :: collector where
  "msgDurationSeconds = \<lparr>co_kind = HistogramVec [50, 100, 500, 1000], co_Namespace = wss_metricsNamespace,
     co_Subsystem = ''gw'', co_Name = ''msg_duration_seconds'',
     co_Help = ''The duration of a message from received to pushed, which may be received from another gateway'',
     co_labels = [''id'']\<rparr>"

definition msgDurationSecondsSummary :: collector where
  "msgDurationSecondsSummary = \<lparr>co_kind = SummaryVec [(500, 30), (900, 10)], co_Namespace = wss_metricsNamespace,
     co_Subsystem = ''gw'', co_Name = ''msg_duration_seconds_summary'',
     co_Help = ''The duration of a message from received to pushed, which may be received from another gateway'',
     co_labels = [''id'']\<rparr>"

definition messageFlowBytes :: collector where
  "messageFlowBytes = \<lparr>co_kind = GaugeVec, co_Namespace = wss_metricsNamespace, co_Subsystem = ''gw'', co_Name = ''message_flow_bytes'',
     co_Help = ''The bytes of traffic for each type of message'', co_labels = [''id'', ''protocol_id'']\<rparr>"

definition pushErrorTotal :: collector where
  "pushErrorTotal = \<lparr>co_kind = CounterVec, co_Namespace = wss_metricsNamespace, co_Subsystem = ''gw'', co_Name = ''push_error_total'',
     co_Help = ''The number of message push failed'', co_labels = [''id'', ''protocol_id'']\<rparr>"

definition loginFailTotal :: collector where
  "loginFailTotal = \<lparr>co_kind = CounterVec, co_Namespace = wss_metricsNamespace, co_Subsystem = ''gw'', co_Name = ''login_fail_total'',
     co_Help = ''The number of login failed'', co_labels = [''id'']\<rparr>"

definition wss_collectors :: "collector list" where
  "wss_collectors = [messageTotal, clientTotal, msgDurationSeconds, messageFlowBytes, msgDurationSecondsSummary,
     pushErrorTotal, loginFailTotal]"

subsection \<open>The cluster, the logic server and its message handler\<close>

definition lg_metricsNamespace :: string where
  "lg_metricsNamespace = ''fim''"

definition serverTotal :: collector where
  "serverTotal = \<lparr>co_kind = GaugeVec, co_Namespace = lg_metricsNamespace, co_Subsystem = ''gw'', co_Name = ''server_total'',
     co_Help = ''The number of logic server connected in'', co_labels = [''id'']\<rparr>"

definition writeLogicFailTotal :: collector where
  "writeLogicFailTotal = \<lparr>co_kind = CounterVec, co_Namespace = lg_metricsNamespace, co_Subsystem = ''gw'',
     co_Name = ''write_logic_fail_total'', co_Help = ''The number of message thrown when no logic server'', co_labels = [''id'']\<rparr>"

definition lgcluster_collectors :: "collector list" where
  "lgcluster_collectors = [serverTotal, writeLogicFailTotal]"

definition hub_metricsNamespace :: string where
  "hub_metricsNamespace = ''fim''"

definition writeGwFailTotal :: collector where
  "writeGwFailTotal = \<lparr>co_kind = CounterVec, co_Namespace = hub_metricsNamespace, co_Subsystem = ''gw'', co_Name = ''write_gw_fail_total'',
     co_Help = ''The number of write gateway failed'', co_labels = [''id'', ''gw_id'']\<rparr>"

definition hub_collectors :: "collector list" where
  "hub_collectors = [writeGwFailTotal]"

definition handler_metricsNamespace :: string where
  "handler_metricsNamespace = ''im''"

definition handleDurationSeconds :: collector where
  "handleDurationSeconds = \<lparr>co_kind = HistogramVec [10, 50, 100, 1000], co_Namespace = handler_metricsNamespace,
     co_Subsystem = ''lg'', co_Name = ''handle_duration_seconds'', co_Help = ''The duration of done a message'',
     co_labels = [''id'', ''protocol_id'']\<rparr>"

definition handleDurationSecondsSummary :: collector where
  "handleDurationSecondsSummary = \<lparr>co_kind = SummaryVec [(500, 30), (900, 10)], co_Namespace = handler_metricsNamespace,
     co_Subsystem = ''lg'', co_Name = ''handle_duration_seconds_summary'', co_Help = ''The duration of done a message'',
     co_labels = [''id'', ''protocol_id'']\<rparr>"

definition messageQueueSize :: collector where
  "messageQueueSize = \<lparr>co_kind = GaugeVec, co_Namespace = handler_metricsNamespace, co_Subsystem = ''lg'', co_Name = ''message_queue_size'',
     co_Help = ''The number of message queue'', co_labels = [''id'', ''protocol_id'']\<rparr>"

definition handler_collectors :: "collector list" where
  "handler_collectors = [handleDurationSeconds, handleDurationSecondsSummary, messageQueueSize]"

section \<open>Registration\<close>

text \<open>\<open>mx_Register\<close> is \<^verbatim>\<open>prometheus.Register\<close> on the default registry; \<^verbatim>\<open>MustRegister\<close> panics on its error.\<close>

record 'r metrics_api =
  mx_Empty :: 'r
  mx_Register :: "collector \<Rightarrow> 'r \<Rightarrow> go_error option \<times> 'r"

definition MustRegister :: "'r metrics_api \<Rightarrow> collector \<Rightarrow> 'r \<Rightarrow> 'r outcome" where
  "MustRegister X c r = (case mx_Register X c r of (Some err, _) \<Rightarrow> Panic ExplicitPanic | (None, r') \<Rightarrow> Ret r')"

fun register_all :: "'r metrics_api \<Rightarrow> collector list \<Rightarrow> 'r \<Rightarrow> 'r outcome" where
  "register_all X [] r = Ret r"
| "register_all X (c # cs) r = obind (MustRegister X c r) (register_all X cs)"

text \<open>The \<^verbatim>\<open>init\<close> functions of the four packages.\<close>

definition wss_init :: "'r metrics_api \<Rightarrow> 'r \<Rightarrow> 'r outcome" where
  "wss_init X = register_all X wss_collectors"

definition lgcluster_init :: "'r metrics_api \<Rightarrow> 'r \<Rightarrow> 'r outcome" where
  "lgcluster_init X = register_all X lgcluster_collectors"

definition hub_init :: "'r metrics_api \<Rightarrow> 'r \<Rightarrow> 'r outcome" where
  "hub_init X = register_all X hub_collectors"

definition handler_metrics_init :: "'r metrics_api \<Rightarrow> 'r \<Rightarrow> 'r outcome" where
  "handler_metrics_init X = register_all X handler_collectors"

text \<open>What a name is made of, and when the package takes a collector at all.\<close>

definition fq_name :: "collector \<Rightarrow> string" where
  "fq_name c =
     (if co_Name c = [] then []
      else (if co_Namespace c = [] then [] else co_Namespace c @ ''_'') @
           (if co_Subsystem c = [] then [] else co_Subsystem c @ ''_'') @ co_Name c)"

definition name_char :: "char \<Rightarrow> bool" where
  "name_char c \<longleftrightarrow> (let n = of_char c :: nat in 97 \<le> n \<and> n \<le> 122 \<or> 65 \<le> n \<and> n \<le> 90 \<or> 48 \<le> n \<and> n \<le> 57 \<or> n = 95)"

definition valid_name :: "string \<Rightarrow> bool" where
  "valid_name s \<longleftrightarrow> s \<noteq> [] \<and> list_all name_char s \<and> (let n = of_char (hd s) :: nat in n < 48 \<or> 57 < n)"

definition valid_collector :: "collector \<Rightarrow> bool" where
  "valid_collector c \<longleftrightarrow> valid_name (fq_name c) \<and> co_Help c \<noteq> [] \<and> distinct (co_labels c) \<and>
     list_all (\<lambda>l. valid_name l \<and> take 2 l \<noteq> ''__'') (co_labels c) \<and>
     (case co_kind c of
        HistogramVec bs \<Rightarrow> sorted_wrt (<) bs \<and> ''le'' \<notin> set (co_labels c)
      | SummaryVec qs \<Rightarrow> ''quantile'' \<notin> set (co_labels c)
      | _ \<Rightarrow> True)"

text \<open>The package documents that a valid collector whose name is new is registered, and that no name is registered twice.\<close>

locale metrics_pkg =
  fixes X :: "'r metrics_api"
    and registered :: "'r \<Rightarrow> collector set"
  assumes registered_Empty: "registered (mx_Empty X) = {}"
    and Register_new: "valid_collector c \<Longrightarrow> fq_name c \<notin> fq_name ` registered r \<Longrightarrow>
      fst (mx_Register X c r) = None \<and> registered (snd (mx_Register X c r)) = insert c (registered r)"
    and Register_old: "fq_name c \<in> fq_name ` registered r \<Longrightarrow> fst (mx_Register X c r) \<noteq> None"
begin

lemma register_all_ok:
  assumes "list_all valid_collector cs" and "distinct (map fq_name cs)"
    and "set (map fq_name cs) \<inter> fq_name ` registered r = {}"
  shows "\<exists>r'. register_all X cs r = Ret r' \<and> registered r' = registered r \<union> set cs"
  using assms
proof (induction cs arbitrary: r)
  case (Cons c cs)
  then have R: "fst (mx_Register X c r) = None" "registered (snd (mx_Register X c r)) = insert c (registered r)"
    using Register_new [of c r] by auto
  obtain r1 where r1: "mx_Register X c r = (None, r1)" using R(1) by (cases "mx_Register X c r") simp
  have "\<exists>r'. register_all X cs r1 = Ret r' \<and> registered r' = registered r1 \<union> set cs"
    by (rule Cons.IH) (use Cons.prems R(2) r1 in auto)
  with R(2) r1 show ?case by (auto simp: MustRegister_def)
qed simp

lemma register_twice:
  assumes "c \<in> registered r" and "c' \<in> set cs" and "fq_name c' = fq_name c" and "list_all valid_collector cs"
    and "distinct (map fq_name cs)"
  shows "register_all X cs r = Panic ExplicitPanic"
  using assms
proof (induction cs arbitrary: r)
  case (Cons d ds)
  show ?case
  proof (cases "fq_name d \<in> fq_name ` registered r")
    case True
    then show ?thesis using Register_old [OF True] by (cases "mx_Register X d r") (auto simp: MustRegister_def)
  next
    case False
    then have R: "fst (mx_Register X d r) = None" "registered (snd (mx_Register X d r)) = insert d (registered r)"
      using Register_new [of d r] Cons.prems(4) by auto
    obtain r1 where r1: "mx_Register X d r = (None, r1)" using R(1) by (cases "mx_Register X d r") simp
    have "c' \<noteq> d" using False Cons.prems(1,3) by (metis imageI)
    then have "register_all X ds r1 = Panic ExplicitPanic"
      using Cons.prems R(2) r1 by (intro Cons.IH) auto
    with r1 show ?thesis by (simp add: MustRegister_def)
  qed
qed simp

end

text \<open>A registry that is the list of what it has, for the witnesses.\<close>

definition plain_metrics :: "collector list metrics_api" where
  "plain_metrics = \<lparr>mx_Empty = [],
     mx_Register = (\<lambda>c r. if valid_collector c \<and> fq_name c \<notin> fq_name ` set r then (None, c # r)
       else (Some (Errorf ''duplicate metrics collector registration attempted''), r))\<rparr>"

interpretation plain_registry: metrics_pkg plain_metrics set
  by unfold_locales (auto simp: plain_metrics_def)

text \<open>
  The packages a program links, in an order their imports allow: the gateway has its own and the cluster's, the
  logic server the cluster's, the message handler's and its own.
\<close>

definition gateway_program :: "'r metrics_api \<Rightarrow> 'r \<Rightarrow> 'r outcome" where
  "gateway_program X r = obind (lgcluster_init X r) (wss_init X)"

definition server_program :: "'r metrics_api \<Rightarrow> 'r \<Rightarrow> 'r outcome" where
  "server_program X r = obind (lgcluster_init X r) (\<lambda>r. obind (handler_metrics_init X r) (hub_init X))"

definition gateway_collectors :: "collector list" where
  "gateway_collectors = lgcluster_collectors @ wss_collectors"

definition server_collectors :: "collector list" where
  "server_collectors = lgcluster_collectors @ handler_collectors @ hub_collectors"

lemmas collector_defs = messageTotal_def clientTotal_def wss_serverTotal_def msgDurationSeconds_def msgDurationSecondsSummary_def
  messageFlowBytes_def pushErrorTotal_def loginFailTotal_def serverTotal_def writeLogicFailTotal_def writeGwFailTotal_def
  handleDurationSeconds_def handleDurationSecondsSummary_def messageQueueSize_def
  wss_metricsNamespace_def lg_metricsNamespace_def hub_metricsNamespace_def handler_metricsNamespace_def

lemma register_all_append: "register_all X (cs @ ds) = (\<lambda>r. obind (register_all X cs r) (register_all X ds))"
proof (induction cs)
  case Nil
  show ?case by simp
next
  case (Cons c cs)
  show ?case by (rule ext) (simp add: Cons.IH obind_assoc)
qed

lemma program_collectors:
  "gateway_program X = register_all X gateway_collectors" "server_program X = register_all X server_collectors"
  by (simp_all add: fun_eq_iff gateway_program_def server_program_def gateway_collectors_def server_collectors_def
      lgcluster_init_def wss_init_def handler_metrics_init_def hub_init_def register_all_append)

lemma collectors_valid:
  "list_all valid_collector gateway_collectors" "list_all valid_collector server_collectors"
  "distinct (map fq_name gateway_collectors)" "distinct (map fq_name server_collectors)"
  by code_simp+

text \<open>Neither program dies while it starts: under the laws of the metrics package every collector its packages declare is valid, all of
  them get different names, and the registrations of the init functions succeed, so that exactly these collectors are
  registered; running the same init functions a second time panics.\<close>
theorem programs_register_metrics:
  assumes "metrics_pkg X registered"
  shows "\<exists>rg rs. gateway_program X (mx_Empty X) = Ret rg \<and> registered rg = set gateway_collectors \<and>
    server_program X (mx_Empty X) = Ret rs \<and> registered rs = set server_collectors \<and>
    gateway_program X rg = Panic ExplicitPanic \<and> server_program X rs = Panic ExplicitPanic"
proof -
  have E: "registered (mx_Empty X) = {}" by (rule metrics_pkg.registered_Empty [OF assms])
  obtain rg where g: "register_all X gateway_collectors (mx_Empty X) = Ret rg" "registered rg = set gateway_collectors"
    using metrics_pkg.register_all_ok [OF assms collectors_valid(1,3), of "mx_Empty X"] E by auto
  obtain rs where s: "register_all X server_collectors (mx_Empty X) = Ret rs" "registered rs = set server_collectors"
    using metrics_pkg.register_all_ok [OF assms collectors_valid(2,4), of "mx_Empty X"] E by auto
  have m: "serverTotal \<in> set gateway_collectors" "serverTotal \<in> set server_collectors"
    by (simp_all add: gateway_collectors_def server_collectors_def lgcluster_collectors_def)
  from metrics_pkg.register_twice [OF assms _ m(1) refl collectors_valid(1,3), of rg] g m(1)
    metrics_pkg.register_twice [OF assms _ m(2) refl collectors_valid(2,4), of rs] s m(2)
  show ?thesis by (auto simp: program_collectors)
qed

lemma programs_register_metrics_witness:
  "\<exists>r. gateway_program plain_metrics [] = Ret r \<and> clientTotal \<in> set r"
proof -
  have "mx_Empty plain_metrics = []" by (simp add: plain_metrics_def)
  with programs_register_metrics [OF plain_registry.metrics_pkg_axioms] show ?thesis
    by (auto simp: gateway_collectors_def wss_collectors_def)
qed

section \<open>Calls\<close>

text \<open>
  \<^verbatim>\<open>v.WithLabelValues(ls...)\<close> followed by one operation. The package panics when the number of
  values is not the number of labels: \<open>call_ok\<close> is that there are as many, on a collector of the list.
\<close>

datatype metric_op = MInc | MDec | MAdd int | MSet int | MObserve

record metric_call =
  mc_vec :: collector
  mc_labels :: "string list"
  mc_op :: metric_op

definition WithLabelValues :: "collector \<Rightarrow> string list \<Rightarrow> metric_op \<Rightarrow> metric_call list \<Rightarrow> metric_call list" where
  "WithLabelValues v ls op calls = calls @ [\<lparr>mc_vec = v, mc_labels = ls, mc_op = op\<rparr>]"

definition call_ok :: "collector list \<Rightarrow> metric_call \<Rightarrow> bool" where
  "call_ok cs c \<longleftrightarrow> mc_vec c \<in> set cs \<and> length (mc_labels c) = length (co_labels (mc_vec c))"

fun apply_op :: "metric_op \<Rightarrow> int \<Rightarrow> int" where
  "apply_op MInc x = x + 1"
| "apply_op MDec x = x - 1"
| "apply_op (MAdd d) x = x + d"
| "apply_op (MSet y) x = y"
| "apply_op MObserve x = x + 1"

text \<open>The value the calls leave; of a histogram or summary, how many observations.\<close>

definition metric_value :: "collector \<Rightarrow> string list \<Rightarrow> metric_call list \<Rightarrow> int" where
  "metric_value v ls calls =
     foldl (\<lambda>x c. if mc_vec c = v \<and> mc_labels c = ls then apply_op (mc_op c) x else x) 0 calls"

lemma metric_value_simps [simp]:
  "metric_value v ls [] = 0"
  "metric_value v ls (WithLabelValues w ks op calls) =
     (if w = v \<and> ks = ls then apply_op op (metric_value v ls calls) else metric_value v ls calls)"
  by (simp_all add: metric_value_def WithLabelValues_def)

lemma list_all_WithLabelValues [simp]:
  "list_all (call_ok cs) (WithLabelValues v ls op calls) \<longleftrightarrow>
     list_all (call_ok cs) calls \<and> v \<in> set cs \<and> length ls = length (co_labels v)"
  by (auto simp: WithLabelValues_def call_ok_def)

lemma wss_labels [simp]:
  "length (co_labels messageTotal) = 3" "length (co_labels clientTotal) = 1" "length (co_labels messageFlowBytes) = 2"
  "length (co_labels pushErrorTotal) = 2" "length (co_labels loginFailTotal) = 1"
  "messageTotal \<in> set wss_collectors" "clientTotal \<in> set wss_collectors" "messageFlowBytes \<in> set wss_collectors"
  "pushErrorTotal \<in> set wss_collectors" "loginFailTotal \<in> set wss_collectors"
  by (simp_all add: collector_defs wss_collectors_def)

lemma wss_vecs_distinct [simp]:
  "clientTotal \<noteq> pushErrorTotal" "clientTotal \<noteq> messageTotal" "clientTotal \<noteq> messageFlowBytes" "clientTotal \<noteq> loginFailTotal"
  "pushErrorTotal \<noteq> clientTotal" "messageTotal \<noteq> clientTotal" "messageFlowBytes \<noteq> clientTotal" "loginFailTotal \<noteq> clientTotal"
  "messageTotal \<noteq> messageFlowBytes" "messageFlowBytes \<noteq> messageTotal" "messageTotal \<noteq> pushErrorTotal" "pushErrorTotal \<noteq> messageTotal"
  by (simp_all add: collector_defs)

end
