(* ===== verification/GatewayHub.thy ===== *)
theory GatewayHub
  imports WsSession Proxy PeerSeq WireEntity Metrics
begin

text \<open>
  The websocket gateway, \<^verbatim>\<open>gateway/wss/hub.go\<close>: the clients it holds, what it does with a packet of
  its queue, with a client's events, and its lifecycle. The interface \<^verbatim>\<open>lgcluster.Proxy\<close> is the list
  of packets sent through it, and \<open>gw_metrics\<close> of the metric calls made. \<open>gw_closed\<close> keeps the clients the gateway
  has closed and removed. The websocket and protobuf packages are the arguments \<open>W\<close> and \<open>P\<close>.
\<close>

section \<open>State\<close>

datatype 'k packet = useForConnect "'k ws_client" | useForDisconnect "'k ws_client" | useForMsgRelay "'k relay_packet"

record hub_conf =
  hc_JwtAppkey :: string
  hc_JwtSecret :: string
  hc_Listen :: string
  hc_SSL :: bool
  hc_MaxConnections :: int

record 'k gateway =
  gw_ID :: 'k
  gw_conf :: hub_conf
  gw_state :: lifecycle
  gw_lgProxy :: "'k relay_packet list option"
  gw_clients :: "('k, 'k ws_client) gomap option"
  gw_clientNum :: i32
  gw_relayIn :: "'k relay_packet list"
  gw_enqueue :: "'k packet list"
  gw_seq :: sequence
  gw_closed :: "'k ws_client list"
  gw_metrics :: "metric_call list"

text \<open>The id goes to the log only.\<close>

definition NewGateway :: "'k ksuid_api \<Rightarrow> 'k \<Rightarrow> hub_conf \<Rightarrow> 'k gateway" where
  "NewGateway K uuid conf =
     \<lparr>gw_ID = ks_Nil K, gw_conf = conf, gw_state = Closed, gw_lgProxy = Some [], gw_clients = Some [],
      gw_clientNum = 0, gw_relayIn = [], gw_enqueue = [], gw_seq = Seq, gw_closed = [], gw_metrics = []\<rparr>"

text \<open>
  The map of the code holds pointers; here it holds the clients as they are between two packets, and what a push or a close does to
  a client is put back. A client that its own reader takes apart in the meantime is the subject of ClientLife.
\<close>

text \<open>Reading a \<^verbatim>\<open>nil\<close> map finds nothing; writing one panics; a \<^verbatim>\<open>nil\<close> proxy panics.\<close>

definition lookup_client :: "'k \<Rightarrow> 'k gateway \<Rightarrow> 'k ws_client option" where
  "lookup_client uuid g = (case gw_clients g of None \<Rightarrow> None | Some m \<Rightarrow> map_of m uuid)"

definition put_client :: "'k ws_client \<Rightarrow> 'k gateway \<Rightarrow> 'k gateway outcome" where
  "put_client c g = (case gw_clients g of None \<Rightarrow> Panic NilMapWrite
     | Some m \<Rightarrow> Ret (g\<lparr>gw_clients := Some (AList.update (cl_ID c) c m)\<rparr>))"

definition delete_client :: "'k \<Rightarrow> 'k gateway \<Rightarrow> 'k gateway" where
  "delete_client uuid g = g\<lparr>gw_clients := map_option (AList.delete uuid) (gw_clients g)\<rparr>"

text \<open>
  What \<^verbatim>\<open>Send\<close> of the proxy has done when it returns. Until the proxy's channel has room the call waits: \<open>Send\<close> of Proxy is that channel,
  and GatewayServe runs the handlers against it, one \<^verbatim>\<open>Send\<close> at a time.
\<close>

definition proxy_send :: "'k relay_packet \<Rightarrow> 'k gateway \<Rightarrow> 'k gateway outcome" where
  "proxy_send pkt g = (case gw_lgProxy g of None \<Rightarrow> Panic NilDeref
     | Some out \<Rightarrow> Ret (g\<lparr>gw_lgProxy := Some (out @ [pkt])\<rparr>))"

definition metered :: "collector \<Rightarrow> string list \<Rightarrow> metric_op \<Rightarrow> 'k gateway \<Rightarrow> 'k gateway" where
  "metered v ls op g = g\<lparr>gw_metrics := WithLabelValues v ls op (gw_metrics g)\<rparr>"

lemma metered_simps [simp]:
  "gw_clients (metered v ls op g) = gw_clients g" "gw_lgProxy (metered v ls op g) = gw_lgProxy g"
  "gw_clientNum (metered v ls op g) = gw_clientNum g" "gw_ID (metered v ls op g) = gw_ID g"
  "gw_state (metered v ls op g) = gw_state g" "gw_seq (metered v ls op g) = gw_seq g"
  "gw_enqueue (metered v ls op g) = gw_enqueue g" "gw_conf (metered v ls op g) = gw_conf g"
  "lookup_client uuid (metered v ls op g) = lookup_client uuid g"
  "gw_metrics (metered v ls op g) = WithLabelValues v ls op (gw_metrics g)"
  by (simp_all add: metered_def lookup_client_def)

text \<open>The gauge both handlers set at their end; a \<^verbatim>\<open>nil\<close> map has length 0.\<close>

definition client_gauge :: "'k ksuid_api \<Rightarrow> 'k gateway \<Rightarrow> 'k gateway" where
  "client_gauge K g =
     metered clientTotal [ks_String K (gw_ID g)] (MSet (case gw_clients g of None \<Rightarrow> 0 | Some m \<Rightarrow> int (length m))) g"

lemma client_gauge_simps [simp]:
  "gw_clients (client_gauge K g) = gw_clients g" "gw_lgProxy (client_gauge K g) = gw_lgProxy g"
  "gw_clientNum (client_gauge K g) = gw_clientNum g" "gw_ID (client_gauge K g) = gw_ID g"
  by (simp_all add: client_gauge_def)

section \<open>Packets of the queue\<close>

text \<open>
  The message to the login server is built from the client's attributes and then dropped: the
  packet that is sent has no payload.
\<close>

definition login_message :: "'k ksuid_api \<Rightarrow> proto_api \<Rightarrow> u16 \<Rightarrow> 'k gateway \<Rightarrow> 'k \<Rightarrow> client_attrs \<Rightarrow> message" where
  "login_message K P seq g uuid a =
     snd (Message_Write P (NewMessage PIDLogin seq)
       (E_LoginReq \<lparr>lr_GatewayId = ks_String K (gw_ID g), lr_PeerId = ks_String K uuid, lr_AppKey = [],
          lr_Username = at_Username a, lr_Device = ucast (at_Device a), lr_RemoteIp = at_RemoteIP a\<rparr>))"

definition handleClientConnect ::
  "'k ksuid_api \<Rightarrow> proto_api \<Rightarrow> 'k ws_client \<Rightarrow> 'k gateway \<Rightarrow> 'k gateway outcome" where
  "handleClientConnect K P client g =
     obind (put_client client g) (\<lambda>g1.
     case Next (gw_seq g1) of (seq, s) \<Rightarrow>
     let g2 = g1\<lparr>gw_seq := s\<rparr> in
     case cl_Attrs client of
       None \<Rightarrow> Panic NilDeref
     | Some a \<Rightarrow>
         let message = login_message K P seq g2 (cl_ID client) a in
         obind (proxy_send (NewEmptyRelayMessage K (gw_ID g2)) g2) (\<lambda>g3.
         Ret (client_gauge K (g3\<lparr>gw_clientNum := gw_clientNum g3 + 1\<rparr>))))"

definition logout_message :: "'k ksuid_api \<Rightarrow> proto_api \<Rightarrow> u16 \<Rightarrow> 'k \<Rightarrow> message" where
  "logout_message K P seq uuid =
     snd (Message_Write P (NewMessage PIDLogout seq) (E_LogoutReq \<lparr>lo_PeerId = ks_String K uuid\<rparr>))"

definition sendDisconnectPacket :: "'k ksuid_api \<Rightarrow> proto_api \<Rightarrow> 'k \<Rightarrow> 'k gateway \<Rightarrow> 'k gateway outcome" where
  "sendDisconnectPacket K P peerID g =
     (case Next (gw_seq g) of (seq, s) \<Rightarrow>
        let message = logout_message K P seq peerID
        in proxy_send (NewEmptyRelayMessage K (gw_ID g)) (g\<lparr>gw_seq := s\<rparr>))"

definition handleClientDisconnect ::
  "'k ksuid_api \<Rightarrow> proto_api \<Rightarrow> 'k ws_client \<Rightarrow> 'k gateway \<Rightarrow> 'k gateway outcome" where
  "handleClientDisconnect K P client g =
     (if lookup_client (cl_ID client) g = None then Ret g
      else obind (sendDisconnectPacket K P (cl_ID client) (delete_client (cl_ID client) g)) (\<lambda>g1.
        Ret (client_gauge K (g1\<lparr>gw_clientNum := gw_clientNum g1 - 1\<rparr>))))"

text \<open>The loop over the receivers, with the number of clients it pushed to, also when the push failed.\<close>

fun relay_to ::
  "'k ksuid_api \<Rightarrow> ws_api \<Rightarrow> proto_api \<Rightarrow> message \<Rightarrow> 'k list \<Rightarrow> 'k gateway \<Rightarrow> (nat \<times> 'k gateway) outcome" where
  "relay_to K W P payload [] g = Ret (0, g)"
| "relay_to K W P payload (recv # receivers) g =
     (case lookup_client recv g of
        Some c \<Rightarrow>
          obind (Client_Push W (Message_Bytes payload) c) (\<lambda>(err, c').
          obind (put_client c' g) (\<lambda>g1.
          let g2 = (if err \<noteq> None
                    then metered pushErrorTotal [ks_String K (gw_ID g1), PID_String (GetPID (msg_Header payload))] MInc g1
                    else g1)
          in obind (relay_to K W P payload receivers g2) (\<lambda>(aff, g3). Ret (Suc aff, g3))))
      | None \<Rightarrow>
          obind (sendDisconnectPacket K P recv g) (\<lambda>g1. relay_to K W P payload receivers g1))"

text \<open>A \<^verbatim>\<open>nil\<close> or different entity fails the type assertion, a peer id that does not parse is the nil id.\<close>

definition kick_out ::
  "'k ksuid_api \<Rightarrow> ws_api \<Rightarrow> proto_api \<Rightarrow> message \<Rightarrow> 'k gateway \<Rightarrow> 'k gateway outcome" where
  "kick_out K W P payload g =
     (case fst (GetPayloadEntity P payload) of
        Some (E_KickOut kickOut) \<Rightarrow>
          (let pid = (case ks_Parse K (ko_PeerId kickOut) of None \<Rightarrow> ks_Nil K | Some i \<Rightarrow> i)
           in case lookup_client pid g of
                None \<Rightarrow> Ret g
              | Some client \<Rightarrow>
                  obind (Client_Close W client) (\<lambda>client'.
                  Ret ((delete_client pid g)\<lparr>gw_closed := gw_closed g @ [client']\<rparr>)))
      | _ \<Rightarrow> Panic BadTypeAssertion)"

definition handleMsgRelay ::
  "'k ksuid_api \<Rightarrow> ws_api \<Rightarrow> proto_api \<Rightarrow> 'k relay_packet \<Rightarrow> 'k gateway \<Rightarrow> 'k gateway outcome" where
  "handleMsgRelay K W P message g =
     (if rp_Receivers message = [] then Ret g
      else case rp_Payload message of
        None \<Rightarrow> Panic NilDeref
      | Some payload \<Rightarrow>
          obind (relay_to K W P payload (rp_Receivers message) g) (\<lambda>(aff, g1).
          if aff = 0 then Ret g1
          else let g2 = metered messageTotal
                      [ks_String K (gw_ID g1), PID_String (GetPID (msg_Header payload)), msgDirectionPush] MInc g1
               in if GetPID (msg_Header payload) = PIDKickOut then kick_out K W P payload g2
                  else Ret g2))"

definition handle_packet ::
  "'k ksuid_api \<Rightarrow> ws_api \<Rightarrow> proto_api \<Rightarrow> 'k packet \<Rightarrow> 'k gateway \<Rightarrow> 'k gateway outcome" where
  "handle_packet K W P packet g =
     (case packet of
        useForConnect client \<Rightarrow> handleClientConnect K P client g
      | useForDisconnect client \<Rightarrow> handleClientDisconnect K P client g
      | useForMsgRelay message \<Rightarrow> handleMsgRelay K W P message g)"

section \<open>Events of the clients, lifecycle\<close>

definition Gateway_Push :: "'k packet \<Rightarrow> 'k gateway \<Rightarrow> go_error option \<times> 'k gateway" where
  "Gateway_Push p g =
     (if gw_state g \<noteq> Started then (Some ErrHubClosed, g) else (None, g\<lparr>gw_enqueue := gw_enqueue g @ [p]\<rparr>))"

text \<open>The two cases of \<^verbatim>\<open>handleClientEvents\<close>.\<close>

definition handle_client_message :: "'k ksuid_api \<Rightarrow> 'k ClientMessage \<Rightarrow> 'k gateway \<Rightarrow> 'k gateway outcome" where
  "handle_client_message K recvMsg g =
     (if \<not> IsProtocol (GetPID (msg_Header (cm_Payload recvMsg))) then Ret g
      else let pid = PID_String (GetPID (msg_Header (cm_Payload recvMsg)));
               g1 = metered messageFlowBytes [ks_String K (gw_ID g), pid] (MAdd (int (length (msg_Payload (cm_Payload recvMsg))))) g;
               g2 = metered messageTotal [ks_String K (gw_ID g), pid, msgDirectionUp] MInc g1
           in case cm_Attrs recvMsg of
                None \<Rightarrow> Panic NilDeref
              | Some a \<Rightarrow>
                  proxy_send ((NewRelayMessage K (cm_ID recvMsg) (at_Username a) (at_Device a) (gw_ID g2))
                    \<lparr>rp_Payload := Some (cm_Payload recvMsg)\<rparr>) g2)"

definition handle_client_disconnect :: "'k ws_client \<Rightarrow> 'k gateway \<Rightarrow> 'k gateway" where
  "handle_client_disconnect client g = snd (Gateway_Push (useForDisconnect client) g)"

text \<open>The loop over the events of the listener's two channels, in the order its \<^verbatim>\<open>select\<close> takes them.\<close>

datatype 'k client_event = OnMsg "'k ClientMessage" | OnDisconnect "'k ws_client"

fun handleClientEvents :: "'k ksuid_api \<Rightarrow> 'k client_event list \<Rightarrow> 'k gateway \<Rightarrow> 'k gateway outcome" where
  "handleClientEvents K [] g = Ret g"
| "handleClientEvents K (OnMsg recvMsg # events) g = obind (handle_client_message K recvMsg g) (handleClientEvents K events)"
| "handleClientEvents K (OnDisconnect client # events) g = handleClientEvents K events (handle_client_disconnect client g)"

text \<open>
  What came down from the logic servers: \<^verbatim>\<open>Receive\<close> puts it into a channel, and \<^verbatim>\<open>handleSeverEvents\<close>
  takes it from there into the queue, whatever the state.
\<close>

definition Receive :: "'k relay_packet \<Rightarrow> 'k gateway \<Rightarrow> go_error option \<times> 'k gateway" where
  "Receive pkt g = (None, g\<lparr>gw_relayIn := gw_relayIn g @ [pkt]\<rparr>)"

definition handle_server_event :: "'k relay_packet \<Rightarrow> 'k gateway \<Rightarrow> 'k gateway" where
  "handle_server_event msg g = g\<lparr>gw_enqueue := gw_enqueue g @ [useForMsgRelay msg]\<rparr>"

definition handleSeverEvents :: "'k gateway \<Rightarrow> 'k gateway" where
  "handleSeverEvents g = (fold handle_server_event (gw_relayIn g) g)\<lparr>gw_relayIn := []\<rparr>"

definition Gateway_Start :: "'k gateway \<Rightarrow> go_error option \<times> 'k gateway" where
  "Gateway_Start g =
     (case cas (gw_state g) Closed Started of
        (False, _) \<Rightarrow> (Some ErrHubStarted, g)
      | (True, st) \<Rightarrow> (None, g\<lparr>gw_state := st\<rparr>))"

fun shutdown_clients ::
  "'k ksuid_api \<Rightarrow> ws_api \<Rightarrow> proto_api \<Rightarrow> 'k ws_client list \<Rightarrow> 'k gateway \<Rightarrow> 'k gateway outcome" where
  "shutdown_clients K W P [] g = Ret g"
| "shutdown_clients K W P (client # clients) g =
     obind (sendDisconnectPacket K P (cl_ID client) g) (\<lambda>g1.
     obind (Client_Close W client) (\<lambda>client'.
     if cl_Attrs client' = None then Panic NilDeref
     else shutdown_clients K W P clients (g1\<lparr>gw_closed := gw_closed g1 @ [client']\<rparr>)))"

text \<open>\<open>order\<close> is the order of the range over the clients.\<close>

definition Shutdown ::
  "'k ksuid_api \<Rightarrow> ws_api \<Rightarrow> proto_api \<Rightarrow> (('k, 'k ws_client) gomap \<Rightarrow> 'k ws_client list) \<Rightarrow> 'k gateway \<Rightarrow>
   (go_error option \<times> 'k gateway) outcome" where
  "Shutdown K W P order g =
     (case cas (gw_state g) Started Closing of
        (False, _) \<Rightarrow> Ret (Some ErrHubClosed, g)
      | (True, st) \<Rightarrow>
          obind (shutdown_clients K W P (case gw_clients g of None \<Rightarrow> [] | Some m \<Rightarrow> order m) (g\<lparr>gw_state := st\<rparr>)) (\<lambda>g1.
          let g2 = g1\<lparr>gw_clients := None, gw_lgProxy := None\<rparr>
          in Ret (None, g2\<lparr>gw_state := snd (cas (gw_state g2) Closing Closed)\<rparr>)))"

definition IsOpen :: "'k gateway \<Rightarrow> bool" where
  "IsOpen g \<longleftrightarrow> gw_state g = Started"

section \<open>Relaying to receivers\<close>

definition client_running :: "'k ws_client \<Rightarrow> bool" where
  "client_running c \<longleftrightarrow> cl_state c = Started \<and> (case cl_conn c of None \<Rightarrow> False | Some d \<Rightarrow> conn_writable d)"

definition pushed :: "ws_api \<Rightarrow> byte list \<Rightarrow> 'k ws_client \<Rightarrow> 'k ws_client" where
  "pushed W payload c = c\<lparr>cl_conn := map_option (sent (ws_ServerMessage W WsBinary payload)) (cl_conn c)\<rparr>"

lemma Client_Push_running: "client_running c \<Longrightarrow> Client_Push W payload c = Ret (None, pushed W payload c)"
  by (auto simp: client_running_def Client_Push_def writeMessage_def client_write_open pushed_def split: option.splits)

lemma pushed_ID [simp]: "cl_ID (pushed W payload c) = cl_ID c"
  by (simp add: pushed_def)

text \<open>Clients are stored under their own ids.\<close>

definition keyed :: "('k, 'k ws_client) gomap \<Rightarrow> bool" where
  "keyed m \<longleftrightarrow> wf_map m \<and> (\<forall>k c. map_of m k = Some c \<longrightarrow> cl_ID c = k)"

definition relayed :: "'k ksuid_api \<Rightarrow> nat \<Rightarrow> 'k relay_packet list \<Rightarrow> 'k gateway \<Rightarrow> 'k relay_packet list" where
  "relayed K n out g = out @ replicate n (NewEmptyRelayMessage K (gw_ID g))"

lemma sendDisconnectPacket_out:
  "gw_lgProxy g = Some out \<Longrightarrow> sendDisconnectPacket K P uuid g =
    Ret (g\<lparr>gw_seq := snd (Next (gw_seq g)), gw_lgProxy := Some (relayed K 1 out g)\<rparr>)"
  by (simp add: sendDisconnectPacket_def proxy_send_def relayed_def split: prod.splits)

text \<open>A push that leaves the client as it finds it if it panics, and the clients on which it does not.\<close>

definition push_to :: "ws_api \<Rightarrow> byte list \<Rightarrow> 'k ws_client \<Rightarrow> 'k ws_client" where
  "push_to W payload c = (case Client_Push W payload c of Ret (err, c') \<Rightarrow> c' | Panic _ \<Rightarrow> c)"

definition pushable :: "'k ws_client \<Rightarrow> bool" where
  "pushable c \<longleftrightarrow> cl_state c = Started \<longrightarrow> cl_conn c \<noteq> None"

lemma Client_Push_pushable:
  "pushable c \<Longrightarrow> \<exists>e. Client_Push W payload c = Ret (e, push_to W payload c) \<and> pushable (push_to W payload c)"
  by (auto simp: pushable_def push_to_def Client_Push_def writeMessage_def client_write_def split: prod.splits)

lemma push_to_simps:
  "cl_ID (push_to W payload c) = cl_ID c"
  "cl_state c \<noteq> Started \<Longrightarrow> push_to W payload c = c"
  by (simp_all add: push_to_def Client_Push_def writeMessage_def client_write_def split: option.splits prod.splits)

lemma push_to_running: "client_running c \<Longrightarrow> push_to W payload c = pushed W payload c"
  using Client_Push_running [of c W payload] by (simp add: push_to_def)

lemma client_running_pushed: "client_running c \<Longrightarrow> client_running (pushed W payload c)"
  by (auto simp: client_running_def pushed_def split: option.splits)

lemma pushes_running:
  "client_running c \<Longrightarrow> (push_to W payload ^^ n) c =
    c\<lparr>cl_conn := map_option (sent (concat (replicate n (ws_ServerMessage W WsBinary payload)))) (cl_conn c)\<rparr>"
proof (induction n arbitrary: c)
  case 0
  then show ?case by (cases c; cases "cl_conn c") simp_all
next
  case (Suc n)
  from Suc.IH [OF client_running_pushed [OF Suc.prems]] Suc.prems show ?case
    by (simp add: funpow_Suc_right push_to_running del: funpow.simps) (cases "cl_conn c"; simp add: pushed_def)
qed

lemma pushes_stopped: "cl_state c \<noteq> Started \<Longrightarrow> (push_to W payload ^^ n) c = c"
  by (induction n) (simp_all add: push_to_simps(2))

lemma relay_to_spec:
  assumes "gw_clients g = Some m" and "keyed m" and "gw_lgProxy g = Some out"
    and "\<forall>r\<in>set rs. \<forall>c. map_of m r = Some c \<longrightarrow> pushable c"
  shows "\<exists>m' s ms. relay_to K W P msg rs g = Ret (length (filter (\<lambda>r. map_of m r \<noteq> None) rs),
      g\<lparr>gw_seq := s, gw_lgProxy := Some (relayed K (length (filter (\<lambda>r. map_of m r = None) rs)) out g), gw_clients := Some m',
        gw_metrics := ms\<rparr>) \<and>
    keyed m' \<and> (\<forall>k. map_of m' k = map_option (push_to W (Message_Bytes msg) ^^ count_list rs k) (map_of m k))"
  using assms
proof (induction rs arbitrary: g m out)
  case Nil
  then show ?case
    by (intro exI [of _ m] exI [of _ "gw_seq g"] exI [of _ "gw_metrics g"]) (simp add: relayed_def option.map_ident option.map_id)
next
  case (Cons r rs)
  show ?case
  proof (cases "map_of m r")
    case None
    let ?g = "g\<lparr>gw_seq := snd (Next (gw_seq g)), gw_lgProxy := Some (relayed K 1 out g)\<rparr>"
    from Cons.prems have "gw_clients ?g = Some m" "gw_lgProxy ?g = Some (relayed K 1 out g)"
      "\<forall>r\<in>set rs. \<forall>c. map_of m r = Some c \<longrightarrow> pushable c" by simp_all
    from Cons.IH [OF this(1) Cons.prems(2) this(2-3)] obtain m' s ms where
      "relay_to K W P msg rs ?g = Ret (length (filter (\<lambda>r. map_of m r \<noteq> None) rs),
        ?g\<lparr>gw_seq := s, gw_lgProxy := Some (relayed K (length (filter (\<lambda>r. map_of m r = None) rs)) (relayed K 1 out g) ?g),
           gw_clients := Some m', gw_metrics := ms\<rparr>)" "keyed m'"
      "\<forall>k. map_of m' k = map_option (push_to W (Message_Bytes msg) ^^ count_list rs k) (map_of m k)"
      by blast
    with None Cons.prems(1,3) show ?thesis
      by (intro exI [of _ m'] exI [of _ s] exI [of _ ms]) (auto simp: lookup_client_def sendDisconnectPacket_out relayed_def)
  next
    case (Some c)
    with Cons.prems(2,4) have run: "pushable c" and cid: "cl_ID c = r" by (auto simp: keyed_def)
    let ?c = "push_to W (Message_Bytes msg) c"
    obtain e where e: "Client_Push W (Message_Bytes msg) c = Ret (e, ?c)" "pushable ?c" using Client_Push_pushable [OF run] by blast
    let ?m = "AList.update r ?c m"
    let ?g1 = "g\<lparr>gw_clients := Some ?m\<rparr>"
    let ?g = "if e \<noteq> None then metered pushErrorTotal [ks_String K (gw_ID ?g1), PID_String (GetPID (msg_Header msg))] MInc ?g1 else ?g1"
    have "keyed ?m" using Cons.prems(2) cid by (auto simp: keyed_def push_to_simps(1))
    moreover have "\<forall>x\<in>set rs. \<forall>d. map_of ?m x = Some d \<longrightarrow> pushable d"
      using Cons.prems(4) e(2) by auto
    moreover have "gw_clients ?g = Some ?m" "gw_lgProxy ?g = Some out" using Cons.prems(3) by simp_all
    ultimately obtain m' s ms where IH:
      "relay_to K W P msg rs ?g = Ret (length (filter (\<lambda>r. map_of ?m r \<noteq> None) rs),
        ?g\<lparr>gw_seq := s, gw_lgProxy := Some (relayed K (length (filter (\<lambda>r. map_of ?m r = None) rs)) out ?g), gw_clients := Some m',
          gw_metrics := ms\<rparr>)"
      "keyed m'" "\<forall>k. map_of m' k = map_option (push_to W (Message_Bytes msg) ^^ count_list rs k) (map_of ?m k)"
      using Cons.IH [of ?g ?m out] by blast
    have f: "filter (\<lambda>x. map_of ?m x \<noteq> None) rs = filter (\<lambda>x. map_of m x \<noteq> None) rs"
      "filter (\<lambda>x. map_of ?m x = None) rs = filter (\<lambda>x. map_of m x = None) rs"
      using Some by (auto intro: filter_cong)
    have g: "?g\<lparr>gw_seq := s, gw_lgProxy := Some (relayed K n out ?g), gw_clients := Some m', gw_metrics := ms\<rparr> =
        g\<lparr>gw_seq := s, gw_lgProxy := Some (relayed K n out g), gw_clients := Some m', gw_metrics := ms\<rparr>" for n
      by (simp add: relayed_def metered_def)
    have "relay_to K W P msg (r # rs) g = obind (relay_to K W P msg rs ?g) (\<lambda>(aff, g3). Ret (Suc aff, g3))"
      using Some Cons.prems(1) e(1) cid by (simp add: lookup_client_def put_client_def push_to_simps(1) Let_def)
    with IH(1) have "relay_to K W P msg (r # rs) g = Ret (length (filter (\<lambda>r. map_of m r \<noteq> None) (r # rs)),
        g\<lparr>gw_seq := s, gw_lgProxy := Some (relayed K (length (filter (\<lambda>r. map_of m r = None) (r # rs))) out g), gw_clients := Some m',
          gw_metrics := ms\<rparr>)"
      using Some by (simp only: f g) simp
    moreover have "map_of m' k = map_option (push_to W (Message_Bytes msg) ^^ count_list (r # rs) k) (map_of m k)" for k
      using IH(3) Some by (simp add: funpow_Suc_right del: funpow.simps)
    ultimately show ?thesis using IH(2) by blast
  qed
qed

lemma relayed_to_all:
  assumes "gw_clients g = Some m" and "keyed m" and "gw_lgProxy g = Some out"
    and "rp_Payload pkt = Some msg" and "GetPID (msg_Header msg) \<noteq> PIDKickOut"
    and "\<forall>r\<in>set (rp_Receivers pkt). \<forall>c. map_of m r = Some c \<longrightarrow> pushable c"
  shows "\<exists>g'. handleMsgRelay K W P pkt g = Ret g' \<and> gw_clientNum g' = gw_clientNum g \<and>
    (\<forall>k. lookup_client k g' = map_option (push_to W (Message_Bytes msg) ^^ count_list (rp_Receivers pkt) k) (map_of m k)) \<and>
    gw_lgProxy g' = Some (relayed K (length (filter (\<lambda>r. map_of m r = None) (rp_Receivers pkt))) out g)"
proof (cases "rp_Receivers pkt = []")
  case True
  with assms(1,3) show ?thesis by (simp add: handleMsgRelay_def lookup_client_def relayed_def option.map_ident option.map_id)
next
  case False
  obtain m' s ms where "relay_to K W P msg (rp_Receivers pkt) g =
      Ret (length (filter (\<lambda>r. map_of m r \<noteq> None) (rp_Receivers pkt)),
        g\<lparr>gw_seq := s, gw_lgProxy := Some (relayed K (length (filter (\<lambda>r. map_of m r = None) (rp_Receivers pkt))) out g),
          gw_clients := Some m', gw_metrics := ms\<rparr>)"
    "\<forall>k. map_of m' k = map_option (push_to W (Message_Bytes msg) ^^ count_list (rp_Receivers pkt) k) (map_of m k)"
    using relay_to_spec [OF assms(1-3,6)] by blast
  with False assms(4,5) show ?thesis by (auto simp: handleMsgRelay_def lookup_client_def Let_def)
qed

lemma pushable_running: "client_running c \<Longrightarrow> pushable c"
  by (auto simp: client_running_def pushable_def split: option.splits)

lemma distinct_count: "distinct rs \<Longrightarrow> count_list rs k = (if k \<in> set rs then 1 else 0)"
  by (induction rs) auto

lemma relayed_to_receivers:
  assumes "gw_clients g = Some m" and "keyed m" and "gw_lgProxy g = Some out" and "distinct (rp_Receivers pkt)"
    and "rp_Payload pkt = Some msg" and "GetPID (msg_Header msg) \<noteq> PIDKickOut"
    and "\<forall>r\<in>set (rp_Receivers pkt). \<forall>c. map_of m r = Some c \<longrightarrow> client_running c"
  shows "\<exists>g'. handleMsgRelay K W P pkt g = Ret g' \<and> gw_clientNum g' = gw_clientNum g \<and>
    (\<forall>k. lookup_client k g' = (if k \<in> set (rp_Receivers pkt) then map_option (pushed W (Message_Bytes msg)) (map_of m k)
       else map_of m k)) \<and>
    gw_lgProxy g' = Some (relayed K (length (filter (\<lambda>r. map_of m r = None) (rp_Receivers pkt))) out g)"
proof -
  have n: "count_list (rp_Receivers pkt) k = (if k \<in> set (rp_Receivers pkt) then 1 else 0)" for k
    using distinct_count [OF assms(4)] .
  have "map_option (push_to W (Message_Bytes msg) ^^ count_list (rp_Receivers pkt) k) (map_of m k) =
      (if k \<in> set (rp_Receivers pkt) then map_option (pushed W (Message_Bytes msg)) (map_of m k) else map_of m k)" for k
    using assms(7) by (cases "map_of m k") (auto simp: n push_to_running)
  moreover have "\<forall>r\<in>set (rp_Receivers pkt). \<forall>c. map_of m r = Some c \<longrightarrow> pushable c" using assms(7) pushable_running by blast
  from relayed_to_all [OF assms(1-3,5,6) this, of K W P] obtain g' where "handleMsgRelay K W P pkt g = Ret g'"
    "gw_clientNum g' = gw_clientNum g"
    "\<And>k. lookup_client k g' = map_option (push_to W (Message_Bytes msg) ^^ count_list (rp_Receivers pkt) k) (map_of m k)"
    "gw_lgProxy g' = Some (relayed K (length (filter (\<lambda>r. map_of m r = None) (rp_Receivers pkt))) out g)" by blast
  ultimately show ?thesis by (intro exI [of _ g']) simp
qed

text \<open>C28: A message from a logic server, other than a kick-out, whatever its list of receivers: every client of the gateway gets it as
  often as it is listed, as the bytes of the message in one binary websocket frame each time, if it is started and its
  connection takes writes, and not at all if it is not started; no other client is touched; for every listed
  id that is no client one packet goes to the logic servers; the number of clients does not change. Nothing panics as long as no
  started client has lost its connection.\<close>
theorem relay_reaches_receivers:
  assumes "gw_clients g = Some m" and "keyed m" and "gw_lgProxy g = Some out"
    and "rp_Payload pkt = Some msg" and "GetPID (msg_Header msg) \<noteq> PIDKickOut"
    and "\<forall>r\<in>set (rp_Receivers pkt). \<forall>c. map_of m r = Some c \<longrightarrow> pushable c"
  shows "\<exists>g'. handleMsgRelay K W P pkt g = Ret g' \<and> gw_clientNum g' = gw_clientNum g \<and>
    (\<forall>k. map_of m k = None \<longrightarrow> lookup_client k g' = None) \<and>
    (\<forall>k c. map_of m k = Some c \<longrightarrow> (\<exists>c'. lookup_client k g' = Some c' \<and>
      (client_running c \<longrightarrow> c' = c\<lparr>cl_conn := map_option (sent (concat (replicate (count_list (rp_Receivers pkt) k)
         (ws_ServerMessage W WsBinary (Message_Bytes msg))))) (cl_conn c)\<rparr>) \<and>
      (cl_state c \<noteq> Started \<or> k \<notin> set (rp_Receivers pkt) \<longrightarrow> c' = c))) \<and>
    gw_lgProxy g' = Some (relayed K (length (filter (\<lambda>r. map_of m r = None) (rp_Receivers pkt))) out g)"
proof -
  obtain g' where g': "handleMsgRelay K W P pkt g = Ret g'" "gw_clientNum g' = gw_clientNum g"
    "\<And>k. lookup_client k g' = map_option (push_to W (Message_Bytes msg) ^^ count_list (rp_Receivers pkt) k) (map_of m k)"
    "gw_lgProxy g' = Some (relayed K (length (filter (\<lambda>r. map_of m r = None) (rp_Receivers pkt))) out g)"
    using relayed_to_all [OF assms, where K = K and W = W and P = P] by blast
  moreover have "count_list (rp_Receivers pkt) k = 0" if "k \<notin> set (rp_Receivers pkt)" for k
    using that by (simp add: count_list_0_iff)
  ultimately show ?thesis
    by (intro exI [of _ g']) (auto simp: pushes_running pushes_stopped)
qed

section \<open>Counting the clients\<close>

definition count_ok :: "'k gateway \<Rightarrow> bool" where
  "count_ok g \<longleftrightarrow> (case gw_clients g of None \<Rightarrow> False | Some m \<Rightarrow> keyed m \<and> gw_clientNum g = of_nat (length m))"

lemma count_okE:
  assumes "count_ok g"
  obtains m where "gw_clients g = Some m" "keyed m" "gw_clientNum g = of_nat (length m)"
  using assms by (auto simp: count_ok_def split: option.splits)

lemma proxy_send_clients:
  "proxy_send pkt g = Ret g' \<Longrightarrow> gw_clients g' = gw_clients g \<and> gw_clientNum g' = gw_clientNum g"
  by (auto simp: proxy_send_def split: option.splits)

lemma sendDisconnectPacket_clients:
  "sendDisconnectPacket K P uuid g = Ret g' \<Longrightarrow> gw_clients g' = gw_clients g \<and> gw_clientNum g' = gw_clientNum g"
  by (auto simp: sendDisconnectPacket_def split: prod.splits dest: proxy_send_clients)

lemma Client_Push_ID: "Client_Push W payload c = Ret (e, c') \<Longrightarrow> cl_ID c' = cl_ID c"
  by (auto simp: Client_Push_def writeMessage_def client_write_def split: if_splits option.splits prod.splits)

lemma put_existing_count:
  assumes "count_ok g" and "lookup_client (cl_ID c) g \<noteq> None" and "put_client c g = Ret g'"
  shows "count_ok g'"
proof -
  from assms(1) obtain m where m: "gw_clients g = Some m" "keyed m" "gw_clientNum g = of_nat (length m)" by (rule count_okE)
  with assms(2) obtain d where "map_of m (cl_ID c) = Some d" by (auto simp: lookup_client_def)
  with m assms(3) show ?thesis by (auto simp: put_client_def count_ok_def keyed_def length_update_old split: if_splits)
qed

lemma count_ok_cong: "gw_clients g = gw_clients h \<Longrightarrow> gw_clientNum g = gw_clientNum h \<Longrightarrow> count_ok g = count_ok h"
  by (simp add: count_ok_def split: option.splits)

text \<open>A receiver that is a client: pushed to, stored back, and the rest of the receivers.\<close>

lemma relay_to_client:
  assumes "relay_to K W P msg (r # rs) g = Ret (n, g')" and "lookup_client r g = Some c"
  obtains e c' g1 g2 k where "Client_Push W (Message_Bytes msg) c = Ret (e, c')" "put_client c' g = Ret g1"
    "relay_to K W P msg rs g2 = Ret (k, g')" "n = Suc k"
    "g2 = g1 \<or> g2 = metered pushErrorTotal [ks_String K (gw_ID g1), PID_String (GetPID (msg_Header msg))] MInc g1"
proof -
  from assms obtain e c' where p: "Client_Push W (Message_Bytes msg) c = Ret (e, c')" by (auto simp: obind_eq_Ret)
  with assms obtain g1 where g1: "put_client c' g = Ret g1" by (auto simp: obind_eq_Ret)
  let ?g2 = "if e \<noteq> None then metered pushErrorTotal [ks_String K (gw_ID g1), PID_String (GetPID (msg_Header msg))] MInc g1 else g1"
  from assms p g1 obtain k where "relay_to K W P msg rs ?g2 = Ret (k, g')" "n = Suc k"
    by (auto simp: obind_eq_Ret Let_def)
  with that [OF p g1, of ?g2 k] show thesis by simp
qed

lemma count_ok_metered [simp]: "count_ok (metered v ls op g) = count_ok g"
  by (rule count_ok_cong) simp_all

lemma relay_to_count:
  "relay_to K W P msg rs g = Ret (n, g') \<Longrightarrow> count_ok g \<Longrightarrow> count_ok g'"
proof (induction rs arbitrary: g n)
  case (Cons r rs)
  show ?case
  proof (cases "lookup_client r g")
    case None
    with Cons.prems obtain g1 where "sendDisconnectPacket K P r g = Ret g1" "relay_to K W P msg rs g1 = Ret (n, g')"
      by (auto simp: obind_eq_Ret)
    moreover from this have "count_ok g1"
      using Cons.prems(2) sendDisconnectPacket_clients [of K P r g g1]
      by (auto simp: count_ok_def split: option.splits)
    ultimately show ?thesis using Cons.IH [of g1 n] by blast
  next
    case (Some c)
    from Cons.prems(1) Some obtain e c' g1 g2 k where s: "Client_Push W (Message_Bytes msg) c = Ret (e, c')" "put_client c' g = Ret g1"
      "relay_to K W P msg rs g2 = Ret (k, g')"
      "g2 = g1 \<or> g2 = metered pushErrorTotal [ks_String K (gw_ID g1), PID_String (GetPID (msg_Header msg))] MInc g1"
      by (rule relay_to_client)
    have "cl_ID c = r" using Some Cons.prems(2) by (auto simp: count_ok_def lookup_client_def keyed_def split: option.splits)
    then have "lookup_client (cl_ID c') g \<noteq> None" using Some Client_Push_ID [OF s(1)] by simp
    from put_existing_count [OF Cons.prems(2) this s(2)] s(4) have "count_ok g2" by auto
    with Cons.IH [OF s(3)] show ?thesis by blast
  qed
qed simp

text \<open>The packets that keep the count: a connection of a new client, a disconnection, and a relayed message that does not kick out.\<close>

definition counted :: "'k packet \<Rightarrow> 'k gateway \<Rightarrow> bool" where
  "counted p g \<longleftrightarrow> (case p of
       useForConnect c \<Rightarrow> lookup_client (cl_ID c) g = None
     | useForDisconnect c \<Rightarrow> True
     | useForMsgRelay pkt \<Rightarrow> (case rp_Payload pkt of None \<Rightarrow> True | Some msg \<Rightarrow> GetPID (msg_Header msg) \<noteq> PIDKickOut))"

text \<open>The number of clients a gateway checks its limit against is the number of clients it holds: connecting a new client,
  disconnecting any client and relaying any message other than a kick-out keep it so, in 32-bit arithmetic.\<close>
theorem client_count_tracks:
  assumes "count_ok g" and "counted p g" and "handle_packet K W P p g = Ret g'"
  shows "count_ok g'"
proof (cases p)
  case (useForConnect c)
  from assms(1) obtain m where m: "gw_clients g = Some m" "keyed m" "gw_clientNum g = of_nat (length m)" by (rule count_okE)
  have "map_of m (cl_ID c) = None" using assms(2) m(1) by (simp add: counted_def useForConnect lookup_client_def)
  moreover have "gw_clients g' = Some (AList.update (cl_ID c) c m) \<and> gw_clientNum g' = gw_clientNum g + 1"
    using assms(3) m(1)
    by (auto simp: handle_packet_def useForConnect handleClientConnect_def put_client_def obind_eq_Ret Let_def
        split: prod.splits option.splits dest!: proxy_send_clients)
  ultimately show ?thesis using m(2,3) by (auto simp: count_ok_def keyed_def length_update_new)
next
  case (useForDisconnect c)
  from assms(1) obtain m where m: "gw_clients g = Some m" "keyed m" "gw_clientNum g = of_nat (length m)" by (rule count_okE)
  show ?thesis
  proof (cases "map_of m (cl_ID c)")
    case None
    with assms(1,3) m(1) show ?thesis
      by (simp add: handle_packet_def useForDisconnect handleClientDisconnect_def lookup_client_def)
  next
    case (Some d)
    with assms(3) m(1) have "gw_clients g' = Some (AList.delete (cl_ID c) m) \<and> gw_clientNum g' = gw_clientNum g - 1"
      by (auto simp: handle_packet_def useForDisconnect handleClientDisconnect_def lookup_client_def delete_client_def
          obind_eq_Ret dest!: sendDisconnectPacket_clients)
    moreover have "length m = Suc (length (AList.delete (cl_ID c) m))"
      using length_delete_present [OF _ Some] m(2) by (simp add: keyed_def)
    ultimately show ?thesis using m(2,3) by (auto simp: count_ok_def keyed_def split: if_splits)
  qed
next
  case (useForMsgRelay pkt)
  with assms show ?thesis
    by (auto simp: handle_packet_def handleMsgRelay_def counted_def obind_eq_Ret
        split: option.splits if_splits dest: relay_to_count)
qed

section \<open>Where the gateway fails\<close>

text \<open>The login and logout messages never leave the gateway: they are built and dropped, and the packet sent in their place has
  no payload, so every client that connects makes the proxy panic as soon as it takes that packet.\<close>
theorem login_crashes_proxy:
  assumes "gw_clients g = Some m" and "gw_lgProxy g = Some out" and "cl_Attrs client = Some a"
  shows "\<exists>g' pkt. handleClientConnect K P client g = Ret g' \<and> gw_lgProxy g' = Some (out @ [pkt]) \<and>
    (\<forall>px :: ('k, 's) proxy. handleClientMessage K pkt px = Panic NilDeref)"
  using assms
  by (auto simp: handleClientConnect_def put_client_def proxy_send_def handleClientMessage_def NewEmptyRelayMessage_def
      zero_relay_def Let_def split: prod.splits)

text \<open>A kick-out leaves the count one too high for good: the client is removed and closed without being counted down, and the
  disconnection that follows finds it gone and does nothing.\<close>
theorem kickout_leaks_count:
  assumes "count_ok g" and "lookup_client uuid g = Some c" and "client_running c"
    and "rp_Receivers pkt = [uuid]" and "rp_Payload pkt = Some msg" and "GetPID (msg_Header msg) = PIDKickOut"
    and "GetPayloadEntity P msg = (Some (E_KickOut k), None)" and "ks_Parse K (ko_PeerId k) = Some uuid"
  shows "\<exists>g' m'. handleMsgRelay K W P pkt g = Ret g' \<and> gw_clients g' = Some m' \<and> lookup_client uuid g' = None \<and>
    gw_clientNum g' = of_nat (length m') + 1 \<and> handleClientDisconnect K P c g' = Ret g'"
proof -
  from assms(1) obtain m where m: "gw_clients g = Some m" "keyed m" "gw_clientNum g = of_nat (length m)" by (rule count_okE)
  with assms(2) have l: "map_of m uuid = Some c" "cl_ID c = uuid" by (auto simp: lookup_client_def keyed_def)
  obtain d where d: "cl_conn c = Some d" "cl_state c = Started" "conn_writable d"
    using assms(3) by (auto simp: client_running_def split: option.splits)
  let ?c = "pushed W (Message_Bytes msg) c"
  let ?m = "AList.update uuid ?c m"
  let ?g = "g\<lparr>gw_clients := Some ?m\<rparr>"
  have r: "relay_to K W P msg [uuid] g = Ret (1, ?g)"
    using m(1) l assms(3) by (simp add: lookup_client_def Client_Push_running put_client_def)
  obtain c' where c': "Client_Close W ?c = Ret c'"
    using d by (simp add: pushed_def Client_Close_simps)
  let ?q = "metered messageTotal [ks_String K (gw_ID g), PID_String PIDKickOut, msgDirectionPush] MInc ?g"
  let ?g' = "(delete_client uuid ?q)\<lparr>gw_closed := gw_closed ?q @ [c']\<rparr>"
  have h: "handleMsgRelay K W P pkt g = Ret ?g'"
    using r c' assms(4-8) by (simp add: handleMsgRelay_def kick_out_def lookup_client_def Let_def)
  have "length ?m = Suc (length (AList.delete uuid ?m))"
    using length_delete_present [of ?m uuid ?c] m(2) by (simp add: keyed_def)
  then have "length m = Suc (length (AList.delete uuid ?m))" using l(1) by (simp add: length_update_old)
  then have "gw_clientNum ?g' = of_nat (length (AList.delete uuid ?m)) + 1"
    using m(3) by (simp add: delete_client_def)
  moreover have "gw_clients ?g' = Some (AList.delete uuid ?m)" "lookup_client uuid ?g' = None"
    by (simp_all add: delete_client_def lookup_client_def)
  ultimately show ?thesis using h l(2) by (intro exI [of _ ?g'] exI) (simp add: handleClientDisconnect_def)
qed

text \<open>A client whose connection ends before the gateway has handled its connect packet crashes the gateway: its reader has
  dropped its attributes by then, and the handler dereferences them.\<close>
theorem early_disconnect_panics:
  assumes "cl_state p = Started" and "client_exit p = Ret p'" and "gw_clients g = Some m"
  shows "handleClientConnect K P p' g = Panic NilDeref"
proof -
  have "cl_Attrs p' = None"
    using assms(1,2) by (cases "cl_conn p") (auto simp: client_exit_simps, simp add: client_exit_def)
  with assms(3) show ?thesis by (simp add: handleClientConnect_def put_client_def Let_def split: prod.splits)
qed

section \<open>Messages of the clients\<close>

definition handle_client_messages :: "'k ksuid_api \<Rightarrow> 'k ClientMessage list \<Rightarrow> 'k gateway \<Rightarrow> 'k gateway outcome" where
  "handle_client_messages K msgs = handleClientEvents K (map OnMsg msgs)"

lemma handle_client_messages_simps [simp]:
  "handle_client_messages K [] g = Ret g"
  "handle_client_messages K (msg # msgs) g = obind (handle_client_message K msg g) (handle_client_messages K msgs)"
  by (simp_all add: handle_client_messages_def)

definition relay_of :: "'k ksuid_api \<Rightarrow> 'k \<Rightarrow> 'k \<Rightarrow> client_attrs \<Rightarrow> message \<Rightarrow> 'k relay_packet" where
  "relay_of K location uuid a msg =
     \<lparr>rp_Uuid = uuid, rp_Username = at_Username a, rp_Device = at_Device a, rp_Location = location,
      rp_Receivers = [], rp_Payload = Some msg\<rparr>"

text \<open>What is counted of each message, whether it can be passed on or not.\<close>

definition flow_calls :: "'k ksuid_api \<Rightarrow> 'k \<Rightarrow> message list \<Rightarrow> metric_call list \<Rightarrow> metric_call list" where
  "flow_calls K gid ms calls =
     fold (\<lambda>m. let pid = PID_String (GetPID (msg_Header m)) in
         WithLabelValues messageTotal [ks_String K gid, pid, msgDirectionUp] MInc \<circ>
         WithLabelValues messageFlowBytes [ks_String K gid, pid] (MAdd (int (length (msg_Payload m)))))
       (filter (\<lambda>m. IsProtocol (GetPID (msg_Header m))) ms) calls"

lemma handle_client_messages_out:
  assumes "gw_lgProxy g = Some out"
  shows "handle_client_messages K (map (\<lambda>m. \<lparr>cm_ID = uuid, cm_Attrs = Some a, cm_Payload = m\<rparr>) ms) g =
    Ret (g\<lparr>gw_lgProxy := Some (out @ map (relay_of K (gw_ID g) uuid a) (filter (\<lambda>m. IsProtocol (GetPID (msg_Header m))) ms)),
           gw_metrics := flow_calls K (gw_ID g) ms (gw_metrics g)\<rparr>)"
  using assms
proof (induction ms arbitrary: g out)
  case Nil
  then show ?case by (cases g) (simp add: flow_calls_def)
next
  case (Cons m ms)
  show ?case
  proof (cases "IsProtocol (GetPID (msg_Header m))")
    case True
    let ?g = "g\<lparr>gw_lgProxy := Some (out @ [relay_of K (gw_ID g) uuid a m]), gw_metrics := flow_calls K (gw_ID g) [m] (gw_metrics g)\<rparr>"
    have "handle_client_message K \<lparr>cm_ID = uuid, cm_Attrs = Some a, cm_Payload = m\<rparr> g = Ret ?g"
      using Cons.prems True
      by (simp add: handle_client_message_def proxy_send_def NewRelayMessage_def zero_relay_def relay_of_def metered_def
          flow_calls_def Let_def)
    with Cons.IH [of ?g] True show ?thesis by (simp add: flow_calls_def)
  next
    case False
    with Cons show ?thesis by (simp add: handle_client_message_def flow_calls_def)
  qed
qed

section \<open>Lifecycle\<close>

definition gateway_stop ::
  "'k ksuid_api \<Rightarrow> ws_api \<Rightarrow> proto_api \<Rightarrow> (('k, 'k ws_client) gomap \<Rightarrow> 'k ws_client list) \<Rightarrow> 'k gateway \<Rightarrow>
   go_error option \<times> 'k gateway" where
  "gateway_stop K W P order g = (case Shutdown K W P order g of Ret r \<Rightarrow> r | Panic _ \<Rightarrow> (None, g))"

lemma shutdown_clients_state: "shutdown_clients K W P cs g = Ret g' \<Longrightarrow> gw_state g' = gw_state g"
proof (induction cs arbitrary: g)
  case (Cons c cs)
  then obtain g1 c' where "sendDisconnectPacket K P (cl_ID c) g = Ret g1"
    "shutdown_clients K W P cs (g1\<lparr>gw_closed := gw_closed g1 @ [c']\<rparr>) = Ret g'"
    by (auto simp: obind_eq_Ret split: if_splits)
  moreover have "gw_state g1 = gw_state g"
    using calculation(1) by (auto simp: sendDisconnectPacket_def proxy_send_def split: prod.splits option.splits)
  ultimately show ?case using Cons.IH by fastforce
qed simp

interpretation gateway_life: guarded_lifecycle gw_state Closed Started Gateway_Start "gateway_stop K W P order"
  "\<lambda>_. True" "\<lambda>g. \<exists>r. Shutdown K W P order g = Ret r" ErrHubStarted
proof unfold_locales
  fix g
  assume "\<exists>r. Shutdown K W P order g = Ret r" and s: "gw_state g = Started"
  then obtain r where r: "Shutdown K W P order g = Ret r" by blast
  then have "gw_state (snd r) = Closed"
    using s by (auto simp: Shutdown_def obind_eq_Ret Let_def dest!: shutdown_clients_state)
  with r show "gw_state (snd (gateway_stop K W P order g)) = Closed" by (simp add: gateway_stop_def)
qed (auto simp: Gateway_Start_def gateway_stop_def Shutdown_def)

section \<open>The clients that are online\<close>

text \<open>
  What the queue's second goroutine does to the clients, with everything else forgotten: the ids
  that are online. A kick-out message takes its peer off when it reaches at least one receiver.
\<close>

definition kicked :: "'k ksuid_api \<Rightarrow> proto_api \<Rightarrow> 'k relay_packet \<Rightarrow> 'k set \<Rightarrow> 'k set" where
  "kicked K P pkt s =
     (case rp_Payload pkt of
        None \<Rightarrow> {}
      | Some msg \<Rightarrow>
          if GetPID (msg_Header msg) \<noteq> PIDKickOut \<or> set (rp_Receivers pkt) \<inter> s = {} then {}
          else (case fst (GetPayloadEntity P msg) of
                  Some (E_KickOut k) \<Rightarrow> {case ks_Parse K (ko_PeerId k) of None \<Rightarrow> ks_Nil K | Some i \<Rightarrow> i}
                | _ \<Rightarrow> {}))"

definition session_step :: "'k ksuid_api \<Rightarrow> proto_api \<Rightarrow> 'k packet \<Rightarrow> 'k set \<Rightarrow> 'k set" where
  "session_step K P p s =
     (case p of
        useForConnect c \<Rightarrow> insert (cl_ID c) s
      | useForDisconnect c \<Rightarrow> s - {cl_ID c}
      | useForMsgRelay pkt \<Rightarrow> s - kicked K P pkt s)"

definition online :: "'k gateway \<Rightarrow> 'k set" where
  "online g = {k. lookup_client k g \<noteq> None}"

definition hub_ok :: "'k gateway \<Rightarrow> bool" where
  "hub_ok g \<longleftrightarrow> (\<exists>m. gw_clients g = Some m \<and> keyed m)"

lemma hub_ok_cong: "gw_clients g = gw_clients h \<Longrightarrow> hub_ok g = hub_ok h \<and> online g = online h"
  by (simp add: hub_ok_def online_def lookup_client_def)

lemma put_client_online:
  "put_client c g = Ret g' \<Longrightarrow> hub_ok g \<Longrightarrow> hub_ok g' \<and> online g' = insert (cl_ID c) (online g)"
  by (auto simp: put_client_def hub_ok_def online_def lookup_client_def keyed_def)

lemma delete_client_online: "hub_ok g \<Longrightarrow> hub_ok (delete_client k g) \<and> online (delete_client k g) = online g - {k}"
  by (auto simp: delete_client_def hub_ok_def online_def lookup_client_def keyed_def split: if_splits)

lemma relay_to_online:
  "relay_to K W P msg rs g = Ret (n, g') \<Longrightarrow> hub_ok g \<Longrightarrow>
   hub_ok g' \<and> online g' = online g \<and> (n = 0 \<longleftrightarrow> set rs \<inter> online g = {})"
proof (induction rs arbitrary: g n)
  case (Cons r rs)
  show ?case
  proof (cases "lookup_client r g")
    case None
    with Cons.prems obtain g1 where s: "sendDisconnectPacket K P r g = Ret g1" "relay_to K W P msg rs g1 = Ret (n, g')"
      by (auto simp: obind_eq_Ret)
    moreover have "hub_ok g1 = hub_ok g" "online g1 = online g"
      using sendDisconnectPacket_clients [OF s(1)] hub_ok_cong [of g1 g] by auto
    moreover have "r \<notin> online g" using None by (simp add: online_def)
    ultimately show ?thesis using Cons.IH [of g1 n] Cons.prems(2) by auto
  next
    case (Some c)
    from Cons.prems(1) Some obtain e c' g1 g2 k where s: "Client_Push W (Message_Bytes msg) c = Ret (e, c')" "put_client c' g = Ret g1"
      "relay_to K W P msg rs g2 = Ret (k, g')" "n = Suc k"
      "g2 = g1 \<or> g2 = metered pushErrorTotal [ks_String K (gw_ID g1), PID_String (GetPID (msg_Header msg))] MInc g1"
      by (rule relay_to_client)
    have c2: "gw_clients g2 = gw_clients g1" using s(5) by auto
    have "cl_ID c = r" using Some Cons.prems(2) by (auto simp: hub_ok_def lookup_client_def keyed_def)
    then have "cl_ID c' = r" "r \<in> online g" using Some Client_Push_ID [OF s(1)] by (auto simp: online_def)
    moreover have "hub_ok g2" "online g2 = insert (cl_ID c') (online g)"
      using put_client_online [OF s(2) Cons.prems(2)] hub_ok_cong [OF c2] by simp_all
    ultimately show ?thesis using Cons.IH [OF s(3)] s(4) by auto
  qed
qed simp

lemma kick_out_online:
  assumes "kick_out K W P payload g = Ret g'" and "hub_ok g"
  obtains k where "fst (GetPayloadEntity P payload) = Some (E_KickOut k)" "hub_ok g'"
    "online g' = online g - {case ks_Parse K (ko_PeerId k) of None \<Rightarrow> ks_Nil K | Some i \<Rightarrow> i}"
proof -
  obtain k where k: "fst (GetPayloadEntity P payload) = Some (E_KickOut k)"
    using assms(1) by (auto simp: kick_out_def split: option.splits entity.splits)
  let ?pid = "case ks_Parse K (ko_PeerId k) of None \<Rightarrow> ks_Nil K | Some i \<Rightarrow> i"
  have "hub_ok g' \<and> online g' = online g - {?pid}"
  proof (cases "lookup_client ?pid g")
    case None
    then have "g' = g" using assms(1) k by (simp add: kick_out_def Let_def)
    moreover have "?pid \<notin> online g" using None by (simp add: online_def)
    ultimately show ?thesis using assms(2) by simp
  next
    case (Some c)
    then obtain c' where "g' = (delete_client ?pid g)\<lparr>gw_closed := gw_closed g @ [c']\<rparr>"
      using assms(1) k by (auto simp: kick_out_def Let_def obind_eq_Ret)
    with delete_client_online [OF assms(2), of ?pid] hub_ok_cong [of g' "delete_client ?pid g"] show ?thesis by simp
  qed
  with k that show thesis by blast
qed

lemma handleClientConnect_clients:
  assumes "handleClientConnect K P c g = Ret g'"
  obtains g1 where "put_client c g = Ret g1" "gw_clients g' = gw_clients g1"
proof -
  obtain g1 where g1: "put_client c g = Ret g1"
    using assms by (auto simp: handleClientConnect_def obind_eq_Ret)
  obtain n s where "Next (gw_seq g1) = (n, s)" by (cases "Next (gw_seq g1)")
  with assms g1 have "gw_clients g' = gw_clients g1"
    by (auto simp: handleClientConnect_def obind_eq_Ret Let_def split: option.splits dest!: proxy_send_clients)
  with g1 that show thesis by blast
qed

lemma handle_packet_online:
  assumes "hub_ok g" and "handle_packet K W P p g = Ret g'"
  shows "hub_ok g' \<and> online g' = session_step K P p (online g)"
proof (cases p)
  case (useForConnect c)
  then have "handleClientConnect K P c g = Ret g'" using assms(2) by (simp add: handle_packet_def)
  then obtain g1 where "put_client c g = Ret g1" "gw_clients g' = gw_clients g1"
    by (rule handleClientConnect_clients)
  with put_client_online [OF _ assms(1), of c g1] hub_ok_cong [of g' g1] show ?thesis
    by (simp add: session_step_def useForConnect)
next
  case (useForDisconnect c)
  show ?thesis
  proof (cases "lookup_client (cl_ID c) g")
    case None
    then have "g' = g" "cl_ID c \<notin> online g"
      using assms(2) by (simp_all add: handle_packet_def useForDisconnect handleClientDisconnect_def online_def)
    with assms(1) show ?thesis by (simp add: session_step_def useForDisconnect)
  next
    case (Some d)
    with assms(2) have "gw_clients g' = gw_clients (delete_client (cl_ID c) g)"
      by (auto simp: handle_packet_def useForDisconnect handleClientDisconnect_def obind_eq_Ret
          dest!: sendDisconnectPacket_clients)
    with delete_client_online [OF assms(1), of "cl_ID c"] hub_ok_cong [of g' "delete_client (cl_ID c) g"] show ?thesis
      by (simp add: session_step_def useForDisconnect)
  qed
next
  case (useForMsgRelay pkt)
  show ?thesis
  proof (cases "rp_Receivers pkt = []")
    case True
    with assms show ?thesis
      by (auto simp: handle_packet_def useForMsgRelay handleMsgRelay_def session_step_def kicked_def split: option.splits)
  next
    case False
    with assms(2) obtain msg n g1 where r: "rp_Payload pkt = Some msg"
      "relay_to K W P msg (rp_Receivers pkt) g = Ret (n, g1)"
      by (auto simp: handle_packet_def useForMsgRelay handleMsgRelay_def obind_eq_Ret split: option.splits)
    let ?q = "metered messageTotal [ks_String K (gw_ID g1), PID_String (GetPID (msg_Header msg)), msgDirectionPush] MInc g1"
    have g': "(if n = 0 then Ret g1 else if GetPID (msg_Header msg) = PIDKickOut then kick_out K W P msg ?q else Ret ?q) = Ret g'"
      using assms(2) False r by (auto simp: handle_packet_def useForMsgRelay handleMsgRelay_def Let_def split: if_splits)
    note R = relay_to_online [OF r(2) assms(1)]
    have Q: "hub_ok ?q = hub_ok g1" "online ?q = online g1" using hub_ok_cong [of ?q g1] by simp_all
    show ?thesis
    proof (cases "n \<noteq> 0 \<and> GetPID (msg_Header msg) = PIDKickOut")
      case True
      then have "kick_out K W P msg ?q = Ret g'" using g' by simp
      then obtain k where "fst (GetPayloadEntity P msg) = Some (E_KickOut k)" "hub_ok g'"
        "online g' = online ?q - {case ks_Parse K (ko_PeerId k) of None \<Rightarrow> ks_Nil K | Some i \<Rightarrow> i}"
        using R Q(1) by (auto elim: kick_out_online)
      with True R Q r(1) show ?thesis by (simp add: session_step_def useForMsgRelay kicked_def)
    next
      case False
      then have "hub_ok g' \<and> online g' = online g1" using g' R Q by (auto split: if_splits)
      moreover have "kicked K P pkt (online g) = {}" using False R r(1) by (auto simp: kicked_def)
      ultimately show ?thesis using R by (simp add: session_step_def useForMsgRelay)
    qed
  qed
qed

text \<open>The gateway as a system: packets one after another, none of which panics.\<close>

definition hub_step :: "'k ksuid_api \<Rightarrow> ws_api \<Rightarrow> proto_api \<Rightarrow> 'k gateway \<Rightarrow> 'k gateway \<Rightarrow> bool" where
  "hub_step K W P g g' \<longleftrightarrow> (\<exists>p. handle_packet K W P p g = Ret g')"

interpretation sessions: simulation "NewGateway K uuid conf" "hub_step K W P" hub_ok online
  "{}" "\<lambda>s t. \<exists>p. t = session_step K P p s"
proof unfold_locales
  show "hub_ok (NewGateway K uuid conf)" by (simp add: NewGateway_def hub_ok_def keyed_def wf_map_def)
  show "online (NewGateway K uuid conf) = {}" by (simp add: NewGateway_def online_def lookup_client_def)
qed (use handle_packet_online in \<open>unfold hub_step_def, blast+\<close>)

text \<open>C4: The gateway refines a set of sessions: every packet it handles changes who is online exactly as the packet says. A
  connection adds its client, a disconnection removes its own, a relayed message changes nobody unless it is a
  kick-out that reached a receiver, which removes the peer it names and no other.\<close>
theorem hub_refines_sessions:
  assumes "reachable (NewGateway K uuid conf) (hub_step K W P) g" and "handle_packet K W P p g = Ret g'"
  shows "online g' = session_step K P p (online g)"
  using handle_packet_online [OF sessions.reachable_inv [OF assms(1)] assms(2)] by blast

section \<open>What the metrics say\<close>

text \<open>Every call names a collector the gateway's package registers and gives it as many label values as it has labels.\<close>

definition calls_ok :: "'k gateway \<Rightarrow> bool" where
  "calls_ok g \<longleftrightarrow> list_all (call_ok wss_collectors) (gw_metrics g)"

definition gauge_ok :: "'k ksuid_api \<Rightarrow> 'k gateway \<Rightarrow> bool" where
  "gauge_ok K g \<longleftrightarrow>
     metric_value clientTotal [ks_String K (gw_ID g)] (gw_metrics g) = (case gw_clients g of None \<Rightarrow> 0 | Some m \<Rightarrow> int (length m))"

text \<open>An operation that keeps the gateway's id and the gauge of clients, and makes only good calls.\<close>

definition quiet :: "'k gateway \<Rightarrow> 'k gateway \<Rightarrow> bool" where
  "quiet g g' \<longleftrightarrow> gw_ID g' = gw_ID g \<and> (calls_ok g \<longrightarrow> calls_ok g') \<and>
     (\<forall>ls. metric_value clientTotal ls (gw_metrics g') = metric_value clientTotal ls (gw_metrics g))"

lemma quiet_trans: "quiet g h \<Longrightarrow> quiet h k \<Longrightarrow> quiet g k"
  by (simp add: quiet_def)

lemma quiet_same: "gw_ID g' = gw_ID g \<Longrightarrow> gw_metrics g' = gw_metrics g \<Longrightarrow> quiet g g'"
  by (simp add: quiet_def calls_ok_def)

lemma quiet_metered:
  "v \<in> set wss_collectors \<Longrightarrow> v \<noteq> clientTotal \<Longrightarrow> length ls = length (co_labels v) \<Longrightarrow> quiet g (metered v ls op g)"
  by (auto simp: quiet_def calls_ok_def)

lemma quiet_proxy_send: "proxy_send pkt g = Ret g' \<Longrightarrow> quiet g g'"
  by (rule quiet_same) (auto simp: proxy_send_def split: option.splits)

lemma quiet_put_client: "put_client c g = Ret g' \<Longrightarrow> quiet g g'"
  by (rule quiet_same) (auto simp: put_client_def split: option.splits)

lemma quiet_sendDisconnectPacket: "sendDisconnectPacket K P uuid g = Ret g' \<Longrightarrow> quiet g g'"
  by (rule quiet_same) (auto simp: sendDisconnectPacket_def proxy_send_def split: prod.splits option.splits)

lemma quiet_relay_to: "relay_to K W P msg rs g = Ret (n, g') \<Longrightarrow> quiet g g'"
proof (induction rs arbitrary: g n)
  case Nil
  then show ?case by (simp add: quiet_same)
next
  case (Cons r rs)
  show ?case
  proof (cases "lookup_client r g")
    case None
    with Cons.prems obtain g1 where "sendDisconnectPacket K P r g = Ret g1" "relay_to K W P msg rs g1 = Ret (n, g')"
      by (auto simp: obind_eq_Ret)
    with Cons.IH [of g1 n] show ?thesis by (blast intro: quiet_trans quiet_sendDisconnectPacket)
  next
    case (Some c)
    from Cons.prems Some obtain e c' g1 g2 k where p: "put_client c' g = Ret g1" and g2: "relay_to K W P msg rs g2 = Ret (k, g')"
      "g2 = g1 \<or> g2 = metered pushErrorTotal [ks_String K (gw_ID g1), PID_String (GetPID (msg_Header msg))] MInc g1"
      by (rule relay_to_client)
    from g2(2) have q: "quiet g1 g2" by (elim disjE) (simp_all add: quiet_same quiet_metered)
    from quiet_put_client [OF p] q Cons.IH [OF g2(1)] show ?thesis by (blast intro: quiet_trans)
  qed
qed

lemma quiet_kick_out: "kick_out K W P msg g = Ret g' \<Longrightarrow> quiet g g'"
  by (rule quiet_same)
     (auto simp: kick_out_def obind_eq_Ret delete_client_def Let_def split: option.splits entity.splits if_splits)

lemma quiet_handleMsgRelay:
  assumes "handleMsgRelay K W P pkt g = Ret g'"
  shows "quiet g g'"
proof (cases "rp_Receivers pkt = []")
  case True
  with assms show ?thesis by (simp add: handleMsgRelay_def quiet_same)
next
  case False
  with assms obtain msg n g1 where r: "rp_Payload pkt = Some msg" "relay_to K W P msg (rp_Receivers pkt) g = Ret (n, g1)"
    by (auto simp: handleMsgRelay_def obind_eq_Ret split: option.splits)
  let ?q = "metered messageTotal [ks_String K (gw_ID g1), PID_String (GetPID (msg_Header msg)), msgDirectionPush] MInc g1"
  have "g' = g1 \<or> g' = ?q \<or> kick_out K W P msg ?q = Ret g'"
    using assms False r by (auto simp: handleMsgRelay_def Let_def split: if_splits)
  moreover have "quiet g1 ?q" by (rule quiet_metered) simp_all
  ultimately show ?thesis
    using quiet_relay_to [OF r(2)] by (blast intro: quiet_trans quiet_kick_out)
qed

lemma client_gauge_ok: "gauge_ok K (client_gauge K g) \<and> (calls_ok g \<longrightarrow> calls_ok (client_gauge K g))"
  by (simp add: gauge_ok_def calls_ok_def client_gauge_def)

text \<open>The two handlers end by setting the gauge, or have done nothing.\<close>

lemma handleClientConnect_gauge:
  assumes "handleClientConnect K P c g = Ret g'"
  obtains h where "quiet g h" "g' = client_gauge K h"
proof -
  obtain g1 where p: "put_client c g = Ret g1"
    using assms by (auto simp: handleClientConnect_def obind_eq_Ret)
  obtain n t where N: "Next (gw_seq g1) = (n, t)" by (cases "Next (gw_seq g1)")
  with assms p obtain g3 where s: "proxy_send (NewEmptyRelayMessage K (gw_ID g1)) (g1\<lparr>gw_seq := t\<rparr>) = Ret g3"
    "g' = client_gauge K (g3\<lparr>gw_clientNum := gw_clientNum g3 + 1\<rparr>)"
    by (auto simp: handleClientConnect_def obind_eq_Ret Let_def split: option.splits)
  have "quiet g1 (g1\<lparr>gw_seq := t\<rparr>)" "quiet g3 (g3\<lparr>gw_clientNum := gw_clientNum g3 + 1\<rparr>)" by (simp_all add: quiet_same)
  with quiet_put_client [OF p] quiet_proxy_send [OF s(1)] have "quiet g (g3\<lparr>gw_clientNum := gw_clientNum g3 + 1\<rparr>)"
    by (blast intro: quiet_trans)
  with s(2) that show thesis by blast
qed

lemma handleClientDisconnect_gauge:
  assumes "handleClientDisconnect K P c g = Ret g'"
  shows "lookup_client (cl_ID c) g = None \<and> g' = g \<or> (\<exists>h. quiet g h \<and> g' = client_gauge K h)"
proof (cases "lookup_client (cl_ID c) g")
  case None
  with assms show ?thesis by (simp add: handleClientDisconnect_def)
next
  case (Some d)
  with assms obtain g1 where s: "sendDisconnectPacket K P (cl_ID c) (delete_client (cl_ID c) g) = Ret g1"
    "g' = client_gauge K (g1\<lparr>gw_clientNum := gw_clientNum g1 - 1\<rparr>)"
    by (auto simp: handleClientDisconnect_def obind_eq_Ret)
  have "quiet g (delete_client (cl_ID c) g)" "quiet g1 (g1\<lparr>gw_clientNum := gw_clientNum g1 - 1\<rparr>)"
    by (simp_all add: quiet_same delete_client_def)
  with quiet_sendDisconnectPacket [OF s(1)] s(2) show ?thesis by (blast intro: quiet_trans)
qed

lemma hub_ok_length:
  assumes "hub_ok g" and "gw_clients g = Some m"
  shows "length m = card (online g)"
proof -
  have "distinct (keys m)" using assms by (simp add: hub_ok_def keyed_def wf_map_def)
  moreover have "online g = set (keys m)" using assms(2) by (simp add: online_def lookup_client_def set_keys dom_def)
  ultimately show ?thesis by (simp add: distinct_card)
qed

lemma gauge_ok_online:
  "hub_ok g \<Longrightarrow> gauge_ok K g \<longleftrightarrow> metric_value clientTotal [ks_String K (gw_ID g)] (gw_metrics g) = int (card (online g))"
  using hub_ok_length [of g] by (auto simp: gauge_ok_def hub_ok_def split: option.splits)

lemma client_gauge_step:
  assumes "handle_packet K W P p g = Ret g'"
  shows "(gauge_ok K g \<and> hub_ok g \<and> counted p g \<longrightarrow> gauge_ok K g') \<and> (calls_ok g \<longrightarrow> calls_ok g') \<and>
    (\<forall>c. p = useForConnect c \<or> p = useForDisconnect c \<and> cl_ID c \<in> online g \<longrightarrow> gauge_ok K g')"
proof (cases p)
  case (useForConnect c)
  then have "handleClientConnect K P c g = Ret g'" using assms by (simp add: handle_packet_def)
  then obtain h where "quiet g h" "g' = client_gauge K h" by (rule handleClientConnect_gauge)
  with client_gauge_ok [of K h] show ?thesis by (simp add: quiet_def)
next
  case (useForDisconnect c)
  then have "handleClientDisconnect K P c g = Ret g'" using assms by (simp add: handle_packet_def)
  from handleClientDisconnect_gauge [OF this] show ?thesis
  proof (elim disjE conjE exE)
    assume "lookup_client (cl_ID c) g = None" "g' = g"
    with useForDisconnect show ?thesis by (simp add: online_def)
  next
    fix h
    assume "quiet g h" "g' = client_gauge K h"
    with client_gauge_ok [of K h] show ?thesis by (simp add: quiet_def)
  qed
next
  case (useForMsgRelay pkt)
  then have q: "quiet g g'" using assms by (auto simp: handle_packet_def intro: quiet_handleMsgRelay)
  moreover have "gauge_ok K g'" if "gauge_ok K g" "hub_ok g" "counted p g"
  proof -
    have "kicked K P pkt (online g) = {}" using that(3) by (auto simp: kicked_def counted_def useForMsgRelay split: option.splits)
    with handle_packet_online [OF that(2) assms] have "hub_ok g'" "online g' = online g"
      by (simp_all add: session_step_def useForMsgRelay)
    with that(1,2) q show ?thesis by (simp add: gauge_ok_online quiet_def)
  qed
  ultimately show ?thesis using useForMsgRelay by (simp add: quiet_def)
qed

text \<open>C6: The gateway knows how many clients it holds: the number it checks its limit against, in 32-bit arithmetic, stays exact under
  every packet but a kick-out or a second connection of one client. The gauge of clients is set right by every packet that connects or
  disconnects a client the gateway holds, whatever it was before, and stays right under every packet but a kick-out; the
  calls of all handlers go to collectors the package has registered, with the right number of labels, so that none of them panics.\<close>
theorem client_gauge_exact:
  assumes "handle_packet K W P p g = Ret g'"
  shows "(count_ok g \<and> counted p g \<longrightarrow> count_ok g') \<and>
    (gauge_ok K g \<and> hub_ok g \<and> counted p g \<longrightarrow> gauge_ok K g') \<and> (calls_ok g \<longrightarrow> calls_ok g') \<and>
    (\<forall>c. p = useForConnect c \<or> p = useForDisconnect c \<and> cl_ID c \<in> online g \<longrightarrow> gauge_ok K g')"
  using client_gauge_step [OF assms] client_count_tracks [OF _ _ assms] by blast

section \<open>Witnesses\<close>

definition example_hub_conf :: hub_conf where
  "example_hub_conf = \<lparr>hc_JwtAppkey = [], hc_JwtSecret = [], hc_Listen = '':8000'', hc_SSL = False, hc_MaxConnections = 2\<rparr>"

definition example_gateway :: "id20 gateway" where
  "example_gateway = (NewGateway id20_api (id20_of 9) example_hub_conf)
     \<lparr>gw_state := Started, gw_clients := Some [(id20_of 1, example_client [])], gw_clientNum := 1\<rparr>"

lemma example_gateway_simps [simp]:
  "gw_clients example_gateway = Some [(id20_of 1, example_client [])]" "gw_lgProxy example_gateway = Some []"
  "gw_clientNum example_gateway = 1" "keyed [(id20_of 1, example_client [])]" "client_running (example_client [])"
  "gw_relayIn example_gateway = []"
  by (simp_all add: example_gateway_def NewGateway_def keyed_def wf_map_def client_running_def conn_writable_def)

lemma example_count_ok: "count_ok example_gateway"
  by (simp add: count_ok_def)

lemma relay_reaches_receivers_witness:
  "\<exists>g' c'. handleMsgRelay id20_api plain_ws plain_proto ((zero_relay id20_api)\<lparr>rp_Receivers := [id20_of 1, id20_of 2, id20_of 1],
      rp_Payload := Some (NewMessage PIDChat 3)\<rparr>) example_gateway = Ret g' \<and> lookup_client (id20_of 1) g' = Some c' \<and>
    c' = (example_client [])\<lparr>cl_conn := Some (sent (concat (replicate 2 (ws_ServerMessage plain_ws WsBinary (Message_Bytes (NewMessage PIDChat 3)))))
      (open_conn []))\<rparr>"
proof -
  let ?pkt = "(zero_relay id20_api)\<lparr>rp_Receivers := [id20_of 1, id20_of 2, id20_of 1], rp_Payload := Some (NewMessage PIDChat 3)\<rparr>"
  let ?m = "[(id20_of 1, example_client [])]"
  have p: "rp_Payload ?pkt = Some (NewMessage PIDChat 3)" "GetPID (msg_Header (NewMessage PIDChat 3)) \<noteq> PIDKickOut"
    "\<forall>r\<in>set (rp_Receivers ?pkt). \<forall>c. map_of ?m r = Some c \<longrightarrow> pushable c"
    by (auto simp: GetPID_NewMessage pushable_def)
  obtain g' where g': "handleMsgRelay id20_api plain_ws plain_proto ?pkt example_gateway = Ret g'"
    and all: "\<And>k c. map_of ?m k = Some c \<Longrightarrow> \<exists>c'. lookup_client k g' = Some c' \<and>
      (client_running c \<longrightarrow> c' = c\<lparr>cl_conn := map_option (sent (concat (replicate (count_list (rp_Receivers ?pkt) k)
         (ws_ServerMessage plain_ws WsBinary (Message_Bytes (NewMessage PIDChat 3)))))) (cl_conn c)\<rparr>)"
    using relay_reaches_receivers [OF example_gateway_simps(1,4,2) p, of id20_api plain_ws plain_proto] by blast
  have n: "count_list (rp_Receivers ?pkt) (id20_of 1) = 2" by simp
  obtain c' where "lookup_client (id20_of 1) g' = Some c'" "client_running (example_client []) \<longrightarrow> c' = (example_client [])\<lparr>cl_conn :=
      map_option (sent (concat (replicate 2 (ws_ServerMessage plain_ws WsBinary (Message_Bytes (NewMessage PIDChat 3))))))
        (cl_conn (example_client []))\<rparr>"
    using all [of "id20_of 1" "example_client []"] unfolding n by auto
  with g' show ?thesis by (intro exI [of _ g'] exI [of _ c']) simp
qed

lemma client_count_tracks_witness:
  "\<exists>g'. handle_packet id20_api plain_ws plain_proto (useForDisconnect (example_client [])) example_gateway = Ret g' \<and> count_ok g'"
proof -
  let ?g = "delete_client (id20_of 1) example_gateway"
  have "gw_lgProxy ?g = Some []" by (simp add: delete_client_def)
  from sendDisconnectPacket_out [OF this, of id20_api plain_proto "id20_of 1"]
  obtain g' where "handle_packet id20_api plain_ws plain_proto (useForDisconnect (example_client [])) example_gateway = Ret g'"
    by (simp add: handle_packet_def handleClientDisconnect_def lookup_client_def)
  with client_count_tracks [OF example_count_ok _ this] show ?thesis by (simp add: counted_def)
qed

lemma client_gauge_exact_witness:
  "\<exists>g'. handle_packet id20_api plain_ws plain_proto (useForDisconnect (example_client [])) example_gateway = Ret g' \<and>
    gauge_ok id20_api g'"
proof -
  let ?g = "delete_client (id20_of 1) example_gateway"
  have "gw_lgProxy ?g = Some []" by (simp add: delete_client_def)
  from sendDisconnectPacket_out [OF this, of id20_api plain_proto "id20_of 1"]
  obtain g' where "handle_packet id20_api plain_ws plain_proto (useForDisconnect (example_client [])) example_gateway = Ret g'"
    by (simp add: handle_packet_def handleClientDisconnect_def lookup_client_def)
  with client_gauge_exact [OF this] show ?thesis by (auto simp: online_def lookup_client_def)
qed

lemma login_crashes_proxy_witness:
  "\<exists>g' pkt. handleClientConnect id20_api plain_proto (example_client []) example_gateway = Ret g' \<and> gw_lgProxy g' = Some [pkt] \<and>
    (\<forall>px :: (id20, unit) proxy. handleClientMessage id20_api pkt px = Panic NilDeref)"
  using login_crashes_proxy [OF example_gateway_simps(1,2), of "example_client []" example_attrs id20_api plain_proto] by auto

definition example_kick :: message where
  "example_kick = snd (Message_Write plain_proto (NewMessage PIDKickOut 4) (E_KickOut \<lparr>ko_PeerId = string_of (id20_bytes (id20_of 1))\<rparr>))"

lemma example_kick_simps:
  "GetPID (msg_Header example_kick) = PIDKickOut"
  "GetPayloadEntity plain_proto example_kick = (Some (E_KickOut \<lparr>ko_PeerId = string_of (id20_bytes (id20_of 1))\<rparr>), None)"
proof -
  let ?e = "E_KickOut \<lparr>ko_PeerId = string_of (id20_bytes (id20_of 1))\<rparr>"
  have m: "Marshal plain_proto ?e = Some (bytes_of (string_of (id20_bytes (id20_of 1))))" by (simp add: plain_proto_def)
  note W = Message_Write_ok [OF m wf_NewMessage, of PIDKickOut 4]
  show "GetPID (msg_Header example_kick) = PIDKickOut" using W(3) by (simp add: example_kick_def GetPID_NewMessage)
  then show "GetPayloadEntity plain_proto example_kick = (Some ?e, None)"
    using W(2) by (intro GetPayloadEntity_Write [OF plain_proto_ok m]) (simp_all add: example_kick_def GetEmptyMessage_def)
qed

lemma kickout_leaks_count_witness:
  "\<exists>g' m'. handleMsgRelay id20_api plain_ws plain_proto
      ((zero_relay id20_api)\<lparr>rp_Receivers := [id20_of 1], rp_Payload := Some example_kick\<rparr>) example_gateway = Ret g' \<and>
    gw_clients g' = Some m' \<and> lookup_client (id20_of 1) g' = None \<and> gw_clientNum g' = of_nat (length m') + 1"
proof -
  have "ks_Parse id20_api (string_of (id20_bytes (id20_of 1))) = Some (id20_of 1)"
    using id20.Parse_String [of "id20_of 1"] by (simp add: id20_api_def)
  then show ?thesis
    using kickout_leaks_count [OF example_count_ok, of "id20_of 1" "example_client []"
      "(zero_relay id20_api)\<lparr>rp_Receivers := [id20_of 1], rp_Payload := Some example_kick\<rparr>" example_kick plain_proto
      "\<lparr>ko_PeerId = string_of (id20_bytes (id20_of 1))\<rparr>" id20_api plain_ws] example_kick_simps
    by (auto simp: lookup_client_def)
qed

lemma early_disconnect_panics_witness:
  "\<exists>p'. client_exit (example_client []) = Ret p' \<and> handleClientConnect id20_api plain_proto p' example_gateway = Panic NilDeref"
proof -
  obtain p' where "client_exit (example_client []) = Ret p'"
    using client_exit_simps(2) [of "example_client []" "open_conn []"] by simp
  with early_disconnect_panics [OF _ this example_gateway_simps(1), of id20_api plain_proto] show ?thesis by simp
qed

lemma hub_refines_sessions_witness:
  "\<exists>g'. handle_packet id20_api plain_ws plain_proto (useForConnect (example_client []))
      (NewGateway id20_api (id20_of 9) example_hub_conf) = Ret g' \<and> online g' = {id20_of 1}"
proof -
  let ?g = "NewGateway id20_api (id20_of 9) example_hub_conf"
  obtain n t where N: "Next (gw_seq ?g) = (n, t)" by (cases "Next (gw_seq ?g)")
  have "\<exists>g'. handle_packet id20_api plain_ws plain_proto (useForConnect (example_client [])) ?g = Ret g'"
    using N by (simp add: handle_packet_def handleClientConnect_def put_client_def NewGateway_def proxy_send_def Let_def)
  moreover have "online ?g = {}" by (rule sessions.abs_of_init)
  ultimately show ?thesis
    using hub_refines_sessions [OF reach_init, where K = id20_api and uuid = "id20_of 9" and conf = example_hub_conf
        and W = plain_ws and P = plain_proto and p = "useForConnect (example_client [])"] by (auto simp: session_step_def)
qed

end
