(* ===== verification/GatewayServe.thy ===== *)
theory GatewayServe
  imports GatewayQueue GatewayHub
begin

text \<open>
  The gateway at work: the packet queue of \<^verbatim>\<open>gateway/wss/hub.go\<close>, the handling of its packets, and the
  proxy they are sent to, whose channel takes a hundred packets and then makes its senders wait. GatewayHub says what
  a handler does to the gateway and which packets it gives to \<^verbatim>\<open>Send\<close>; here each of these calls is a step of
  its own, which is not enabled while the channel is full.
\<close>

section \<open>Packets one after another\<close>

fun handle_packets ::
  "'k ksuid_api \<Rightarrow> ws_api \<Rightarrow> proto_api \<Rightarrow> 'k packet list \<Rightarrow> 'k gateway \<Rightarrow> 'k gateway outcome" where
  "handle_packets K W P [] g = Ret g"
| "handle_packets K W P (p # ps) g = obind (handle_packet K W P p g) (handle_packets K W P ps)"

lemma handle_packets_append:
  "handle_packets K W P (ps @ qs) g = obind (handle_packets K W P ps g) (handle_packets K W P qs)"
  by (induction ps arbitrary: g) (simp_all add: obind_assoc cong: obind_cong)


section \<open>What a handler sends\<close>

text \<open>The packets given to \<^verbatim>\<open>Send\<close> so far; handling a packet only adds to them, and a connect adds one.\<close>

definition given :: "'k gateway \<Rightarrow> 'k relay_packet list" where
  "given g = (case gw_lgProxy g of None \<Rightarrow> [] | Some out \<Rightarrow> out)"

definition gives_more :: "'k gateway \<Rightarrow> 'k gateway \<Rightarrow> bool" where
  "gives_more g g' \<longleftrightarrow> (\<exists>new. given g' = given g @ new)"

lemma gives_more_refl: "given g = given g' \<Longrightarrow> gives_more g g'"
  by (simp add: gives_more_def)

lemma gives_more_trans: "gives_more g h \<Longrightarrow> gives_more h i \<Longrightarrow> gives_more g i"
  by (auto simp: gives_more_def)

lemma given_simps [simp]:
  "given (metered v ls op g) = given g" "given (client_gauge K g) = given g"
  "given (delete_client k g) = given g" "put_client c g = Ret g' \<Longrightarrow> given g' = given g"
  by (auto simp: given_def delete_client_def put_client_def split: option.splits)

lemma proxy_send_gives: "proxy_send pkt g = Ret g' \<Longrightarrow> given g' = given g @ [pkt]"
  by (auto simp: proxy_send_def given_def split: option.splits)

lemma sendDisconnectPacket_gives: "sendDisconnectPacket K P k g = Ret g' \<Longrightarrow> gives_more g g'"
  by (auto simp: sendDisconnectPacket_def gives_more_def given_def split: prod.splits dest!: proxy_send_gives)

lemma relay_to_gives: "relay_to K W P msg rs g = Ret (n, g') \<Longrightarrow> gives_more g g'"
proof (induction rs arbitrary: g n)
  case (Cons r rs)
  show ?case
  proof (cases "lookup_client r g")
    case None
    with Cons.prems obtain g1 where "sendDisconnectPacket K P r g = Ret g1" "relay_to K W P msg rs g1 = Ret (n, g')"
      by (auto simp: obind_eq_Ret)
    with Cons.IH show ?thesis by (blast intro: gives_more_trans sendDisconnectPacket_gives)
  next
    case (Some c)
    with Cons.prems obtain e :: "go_error option" and c' g1 m where "put_client c' g = Ret g1"
      "relay_to K W P msg rs (if e \<noteq> None then metered pushErrorTotal [ks_String K (gw_ID g1), PID_String (GetPID (msg_Header msg))] MInc g1 else g1) =
        Ret (m, g')"
      by (auto simp: obind_eq_Ret Let_def)
    from gives_more_trans [OF gives_more_refl Cons.IH [OF this(2)]] this(1) show ?thesis by (auto split: if_splits)
  qed
qed (simp add: gives_more_refl)

lemma kick_out_gives: "kick_out K W P msg g = Ret g' \<Longrightarrow> gives_more g g'"
  by (rule gives_more_refl)
     (auto simp: kick_out_def obind_eq_Ret given_def delete_client_def Let_def split: option.splits entity.splits)

lemma handleMsgRelay_gives:
  assumes "handleMsgRelay K W P pkt g = Ret g'"
  shows "gives_more g g'"
proof (cases "rp_Receivers pkt = []")
  case True
  with assms show ?thesis by (simp add: handleMsgRelay_def gives_more_refl)
next
  case False
  with assms obtain m aff g1 where m: "rp_Payload pkt = Some m" and r: "relay_to K W P m (rp_Receivers pkt) g = Ret (aff, g1)"
    by (auto simp: handleMsgRelay_def obind_eq_Ret split: option.splits)
  let ?g = "metered messageTotal [ks_String K (gw_ID g1), PID_String (GetPID (msg_Header m)), msgDirectionPush] MInc g1"
  have "g' = g1 \<or> g' = ?g \<or> kick_out K W P m ?g = Ret g'"
    using assms False m r by (auto simp: handleMsgRelay_def Let_def split: if_splits)
  then have "gives_more g1 g'"
    using kick_out_gives [of K W P m ?g g'] gives_more_trans [OF gives_more_refl [of g1 ?g]] by (auto intro: gives_more_refl)
  with relay_to_gives [OF r] show ?thesis by (rule gives_more_trans)
qed

definition connects :: "'k packet list \<Rightarrow> nat" where
  "connects ps = length (filter (\<lambda>p. case p of useForConnect c \<Rightarrow> True | _ \<Rightarrow> False) ps)"

lemma handle_packet_gives:
  assumes "handle_packet K W P p g = Ret g'"
  shows "\<exists>new. given g' = given g @ new \<and> connects [p] \<le> length new"
proof (cases p)
  case (useForConnect c)
  with assms obtain g1 where g1: "put_client c g = Ret g1"
    by (auto simp: handle_packet_def handleClientConnect_def obind_eq_Ret)
  obtain seq s where "Next (gw_seq g1) = (seq, s)" by (cases "Next (gw_seq g1)")
  with assms useForConnect g1 obtain g2 where
    g2: "proxy_send (NewEmptyRelayMessage K (gw_ID g1)) (g1\<lparr>gw_seq := s\<rparr>) = Ret g2"
      "g' = client_gauge K (g2\<lparr>gw_clientNum := gw_clientNum g2 + 1\<rparr>)"
    by (auto simp: handle_packet_def handleClientConnect_def obind_eq_Ret Let_def split: option.splits)
  have "given g' = given g2" "given (g1\<lparr>gw_seq := s\<rparr>) = given g1" by (simp_all add: g2(2)) (simp_all add: given_def)
  with given_simps(4) [OF g1] proxy_send_gives [OF g2(1)] useForConnect show ?thesis by (simp add: connects_def)
next
  case (useForDisconnect c)
  show ?thesis
  proof (cases "lookup_client (cl_ID c) g = None")
    case False
    with assms useForDisconnect obtain g1 where
      "sendDisconnectPacket K P (cl_ID c) (delete_client (cl_ID c) g) = Ret g1" "given g' = given g1"
      by (auto simp: handle_packet_def handleClientDisconnect_def obind_eq_Ret) (simp add: given_def)
    with sendDisconnectPacket_gives [OF this(1)] useForDisconnect show ?thesis by (auto simp: gives_more_def connects_def)
  qed (use assms useForDisconnect in \<open>simp add: handle_packet_def handleClientDisconnect_def connects_def\<close>)
next
  case (useForMsgRelay m)
  with handleMsgRelay_gives [of K W P m g g'] assms show ?thesis
    by (auto simp: handle_packet_def gives_more_def connects_def)
qed

lemma handle_packets_gives:
  "handle_packets K W P ps g = Ret g' \<Longrightarrow> \<exists>new. given g' = given g @ new \<and> connects ps \<le> length new"
proof (induction ps arbitrary: g)
  case (Cons p ps)
  then obtain g1 where g1: "handle_packet K W P p g = Ret g1" "handle_packets K W P ps g1 = Ret g'"
    by (auto simp: obind_eq_Ret)
  from handle_packet_gives [OF g1(1)] Cons.IH [OF g1(2)] obtain a b where
    "given g1 = given g @ a" "connects [p] \<le> length a" "given g' = given g1 @ b" "connects ps \<le> length b" by blast
  then show ?case by (intro exI [of _ "a @ b"]) (simp add: connects_def split: if_splits)
qed (simp add: connects_def)

section \<open>The system\<close>

text \<open>
  The queue, the gateway, and the proxy \<open>sg_proxy\<close> it is wired to. \<open>sg_unsent\<close> is the packets the handler that is
  running still has to give to \<^verbatim>\<open>Send\<close>, \<open>None\<close> when none is running; a packet takes its effect on the gateway when its handler
  begins, and is done when all it sends has been taken by the channel. \<open>sg_running\<close> is whether the proxy's goroutines
  have been started. \<open>sg_accepted\<close> is what the channel has taken, from this goroutine (\<open>True\<close>) and from the one that
  handles the clients' messages (\<open>False\<close>), and \<open>sg_taken\<close> what the proxy has taken out.
\<close>

record ('k, 's) serving =
  sg_queue :: "'k packet packet_queue"
  sg_gateway :: "'k gateway"
  sg_unsent :: "'k relay_packet list option"
  sg_proxy :: "('k, 's) proxy"
  sg_running :: bool
  sg_accepted :: "(bool \<times> 'k relay_packet) list"
  sg_taken :: "'k relay_packet list"

definition serving_init :: "'k gateway \<Rightarrow> ('k, 's) proxy \<Rightarrow> bool \<Rightarrow> ('k, 's) serving" where
  "serving_init g px started = \<lparr>sg_queue = queue_init, sg_gateway = g, sg_unsent = None, sg_proxy = px, sg_running = started,
     sg_accepted = [], sg_taken = []\<rparr>"

text \<open>What the two goroutines of the queue do on their own.\<close>

inductive serve_work ::
  "'k ksuid_api \<Rightarrow> ws_api \<Rightarrow> proto_api \<Rightarrow> ('k, 's) serving \<Rightarrow> ('k, 's) serving \<Rightarrow> bool"
  for K :: "'k ksuid_api" and W :: ws_api and P :: proto_api where
  serve_handle: "q_busy (sg_queue s) = Some p \<Longrightarrow> sg_unsent s = None \<Longrightarrow> handle_packet K W P p (sg_gateway s) = Ret g' \<Longrightarrow>
    serve_work K W P s (s\<lparr>sg_gateway := g', sg_unsent := Some (drop (length (given (sg_gateway s))) (given g'))\<rparr>)"
| serve_send: "sg_unsent s = Some (pkt # pkts) \<Longrightarrow> Send pkt (sg_proxy s) = Some (e, px) \<Longrightarrow>
    serve_work K W P s (s\<lparr>sg_unsent := Some pkts, sg_proxy := px, sg_accepted := sg_accepted s @ [(True, pkt)]\<rparr>)"
| serve_finish: "q_busy (sg_queue s) = Some p \<Longrightarrow> sg_unsent s = Some [] \<Longrightarrow> q_next (sg_queue s) < 1 \<Longrightarrow>
    serve_work K W P s (s\<lparr>sg_unsent := None,
      sg_queue := (sg_queue s)\<lparr>q_busy := None, q_done := q_done (sg_queue s) @ [p], q_next := q_next (sg_queue s) + 1\<rparr>\<rparr>)"
| serve_queue: "queue_internal (\<lambda>_. False) (sg_queue s) q \<Longrightarrow> q_done q = q_done (sg_queue s) \<Longrightarrow>
    serve_work K W P s (s\<lparr>sg_queue := q\<rparr>)"

text \<open>
  The others: producers of packets, the goroutine that sends the clients' messages up, the proxy's own once it
  runs, and whatever changes its cluster.
\<close>

inductive serve_step ::
  "'k ksuid_api \<Rightarrow> ws_api \<Rightarrow> proto_api \<Rightarrow> ('k, 's) serving \<Rightarrow> ('k, 's) serving \<Rightarrow> bool"
  for K :: "'k ksuid_api" and W :: ws_api and P :: proto_api where
  works: "serve_work K W P s t \<Longrightarrow> serve_step K W P s t"
| puts: "length (q_enqueue (sg_queue s)) < 1 \<Longrightarrow>
    serve_step K W P s (s\<lparr>sg_queue := (sg_queue s)\<lparr>q_enqueue := q_enqueue (sg_queue s) @ [p],
      q_accepted := q_accepted (sg_queue s) @ [p]\<rparr>\<rparr>)"
| sends: "Send pkt (sg_proxy s) = Some (e, px) \<Longrightarrow>
    serve_step K W P s (s\<lparr>sg_proxy := px, sg_accepted := sg_accepted s @ [(False, pkt)]\<rparr>)"
| takes: "sg_running s \<Longrightarrow> px_in (sg_proxy s) = pkt # pkts \<Longrightarrow>
    handleClientMessage K pkt ((sg_proxy s)\<lparr>px_in := pkts\<rparr>) = Ret px \<Longrightarrow>
    serve_step K W P s (s\<lparr>sg_proxy := px, sg_taken := sg_taken s @ [pkt]\<rparr>)"
| regroups: "serve_step K W P s (s\<lparr>sg_proxy := (sg_proxy s)\<lparr>px_bu := bu\<rparr>\<rparr>)"

definition handled :: "('k, 's) serving \<Rightarrow> 'k packet list" where
  "handled s = q_done (sg_queue s) @ (if sg_unsent s = None then [] else opt_list (q_busy (sg_queue s)))"

definition unsent :: "('k, 's) serving \<Rightarrow> 'k relay_packet list" where
  "unsent s = (case sg_unsent s of None \<Rightarrow> [] | Some pkts \<Rightarrow> pkts)"

definition own_sent :: "('k, 's) serving \<Rightarrow> 'k relay_packet list" where
  "own_sent s = map snd (filter fst (sg_accepted s))"

text \<open>The handler waits in \<^verbatim>\<open>Send\<close>: it has a packet to send and there is no room.\<close>

definition waits_to_send :: "('k, 's) serving \<Rightarrow> bool" where
  "waits_to_send s \<longleftrightarrow> unsent s \<noteq> [] \<and> length (px_in (sg_proxy s)) = in_capacity"

section \<open>Invariant\<close>

definition serving_inv :: "'k ksuid_api \<Rightarrow> ws_api \<Rightarrow> proto_api \<Rightarrow> 'k gateway \<Rightarrow> ('k, 's) serving \<Rightarrow> bool" where
  "serving_inv K W P g0 s \<longleftrightarrow>
     queue_reaches (\<lambda>_. False) (sg_queue s) \<and> handle_packets K W P (handled s) g0 = Ret (sg_gateway s) \<and>
     (sg_unsent s \<noteq> None \<longrightarrow> q_busy (sg_queue s) \<noteq> None) \<and>
     (\<exists>g1. handle_packets K W P (q_done (sg_queue s)) g0 = Ret g1 \<and> length (given g1) \<le> length (given g0 @ own_sent s)) \<and>
     given (sg_gateway s) = given g0 @ own_sent s @ unsent s \<and>
     map snd (sg_accepted s) = sg_taken s @ px_in (sg_proxy s) \<and> length (px_in (sg_proxy s)) \<le> in_capacity"

lemma Send_content: "Send pkt px = Some (e, px') \<Longrightarrow> px_in px' = px_in px @ [pkt] \<and> length (px_in px) < in_capacity"
  by (auto simp: Send_def split: if_splits)

lemma handleClientMessage_in: "handleClientMessage K pkt px = Ret px' \<Longrightarrow> px_in px' = px_in px"
  by (auto simp: handleClientMessage_def obind_eq_Ret split: option.splits)

lemma queue_internal_busy:
  "queue_internal bad q q' \<Longrightarrow> q_done q' = q_done q \<Longrightarrow> q_busy q = Some p \<Longrightarrow> q_busy q' = Some p"
  by (cases rule: queue_internal.cases, assumption) auto

lemma queue_reaches_step: "queue_reaches bad q \<Longrightarrow> queue_step bad q q' \<Longrightarrow> queue_reaches bad q'"
  by (rule reach_step)

lemma serving_inv_work:
  assumes inv: "serving_inv K W P g0 s" and "serve_work K W P s t"
  shows "serving_inv K W P g0 t"
  using assms(2)
proof cases
  case (serve_handle p g')
  from handle_packet_gives [OF serve_handle(4)] inv serve_handle show ?thesis
    by (auto simp: serving_inv_def handled_def unsent_def own_sent_def handle_packets_append)
next
  case (serve_send pkt pkts e px)
  with inv Send_content [OF serve_send(3)] show ?thesis by (auto simp: serving_inv_def handled_def unsent_def own_sent_def)
next
  case (serve_finish p)
  have "queue_reaches (\<lambda>_. False) (sg_queue t)"
    using inv queue_reaches_step [OF _ internal [OF finish [OF serve_finish(2,4)]]] serve_finish(1) by (simp add: serving_inv_def)
  with inv serve_finish show ?thesis by (auto simp: serving_inv_def handled_def unsent_def own_sent_def)
next
  case (serve_queue q)
  have "queue_reaches (\<lambda>_. False) q" using inv queue_reaches_step [OF _ internal [OF serve_queue(2)]] by (simp add: serving_inv_def)
  moreover have "opt_list (q_busy q) = opt_list (q_busy (sg_queue s))" if "sg_unsent s \<noteq> None"
    using that inv queue_internal_busy [OF serve_queue(2,3)] by (auto simp: serving_inv_def)
  moreover have "q_busy q \<noteq> None" if "sg_unsent s \<noteq> None"
    using that inv queue_internal_busy [OF serve_queue(2,3)] by (auto simp: serving_inv_def)
  ultimately show ?thesis using inv serve_queue by (auto simp: serving_inv_def handled_def unsent_def own_sent_def)
qed

definition new_gateway :: "'k ksuid_api \<Rightarrow> 'k \<Rightarrow> hub_conf \<Rightarrow> 'k gateway" where
  "new_gateway K uuid conf = snd (Gateway_Start (NewGateway K uuid conf))"

lemma new_gateway_simps:
  "gw_clients (new_gateway K uuid conf) = Some []" "given (new_gateway K uuid conf) = []"
  "hub_ok (new_gateway K uuid conf)" "online (new_gateway K uuid conf) = {}" "IsOpen (new_gateway K uuid conf)"
  by (simp_all add: new_gateway_def Gateway_Start_def NewGateway_def given_def hub_ok_def keyed_def wf_map_def online_def
      lookup_client_def IsOpen_def cas_def)

interpretation serving: invariant_system "serving_init (new_gateway K uuid conf) px0 started" "serve_step K W P"
  "\<lambda>s. px_in px0 = [] \<longrightarrow> serving_inv K W P (new_gateway K uuid conf) s"
proof unfold_locales
  show "px_in px0 = [] \<longrightarrow> serving_inv K W P (new_gateway K uuid conf) (serving_init (new_gateway K uuid conf) px0 started)"
    by (simp add: serving_inv_def serving_init_def handled_def unsent_def own_sent_def reach_init) (simp add: queue_init_def)
next
  fix s t :: "('a, 'b) serving"
  assume inv: "px_in px0 = [] \<longrightarrow> serving_inv K W P (new_gateway K uuid conf) s" and "serve_step K W P s t"
  show "px_in px0 = [] \<longrightarrow> serving_inv K W P (new_gateway K uuid conf) t"
  proof
    assume "px_in px0 = []"
    with inv have inv: "serving_inv K W P (new_gateway K uuid conf) s" by blast
    from \<open>serve_step K W P s t\<close> show "serving_inv K W P (new_gateway K uuid conf) t"
    proof cases
      case works
      with inv show ?thesis by (rule serving_inv_work)
    next
      case (puts p)
      with inv queue_reaches_step [OF _ put [of "sg_queue s" "\<lambda>_. False" p]] show ?thesis
        by (auto simp: serving_inv_def handled_def unsent_def own_sent_def)
    next
      case (sends pkt e px)
      with inv Send_content [OF sends(2)] show ?thesis by (auto simp: serving_inv_def handled_def unsent_def own_sent_def)
    next
      case (takes pkt pkts px)
      with inv handleClientMessage_in [OF takes(4)] show ?thesis by (auto simp: serving_inv_def handled_def unsent_def own_sent_def)
    next
      case (regroups bu)
      with inv show ?thesis by (auto simp: serving_inv_def handled_def unsent_def own_sent_def)
    qed
  qed
qed

section \<open>The gateway works off its queue\<close>











section \<open>A proxy that is not started\<close>

lemma unstarted_takes_nothing:
  assumes "reachable (serving_init g px0 False) (serve_step K W P) s"
  shows "\<not> sg_running s \<and> sg_taken s = []"
  using assms
proof (induction rule: reachable.induct)
  case (reach_step s t)
  from reach_step.hyps(2) reach_step.IH show ?case
    by (cases rule: serve_step.cases) (auto elim: serve_work.cases)
qed (simp add: serving_init_def)

lemma unstarted_limits:
  assumes "reachable (serving_init (new_gateway K uuid conf) px0 False) (serve_step K W P) s" and "px_in px0 = []"
  shows "length (sg_accepted s) \<le> 100 \<and> connects (q_done (sg_queue s)) \<le> 100"
proof -
  have inv: "serving_inv K W P (new_gateway K uuid conf) s" using serving.reachable_inv [OF assms(1)] assms(2) by blast
  then have "map snd (sg_accepted s) = px_in (sg_proxy s)" "length (px_in (sg_proxy s)) \<le> in_capacity"
    using unstarted_takes_nothing [OF assms(1)] by (simp_all add: serving_inv_def)
  then have acc: "length (sg_accepted s) \<le> in_capacity" by (metis length_map)
  have "length (own_sent s) \<le> length (sg_accepted s)" by (simp add: own_sent_def)
  moreover obtain g1 where "handle_packets K W P (q_done (sg_queue s)) (new_gateway K uuid conf) = Ret g1" "length (given g1) \<le> length (own_sent s)"
    using inv new_gateway_simps(2) [of K uuid conf] by (auto simp: serving_inv_def)
  ultimately show ?thesis using acc handle_packets_gives by (fastforce simp: in_capacity_def new_gateway_simps(2))
qed

lemma full_channel_stays:
  assumes "serve_step K W P s t" and "\<not> sg_running s" and "waits_to_send s"
  shows "\<not> sg_running t \<and> waits_to_send t \<and> sg_gateway t = sg_gateway s \<and> q_done (sg_queue t) = q_done (sg_queue s)"
proof -
  have full: "Send pkt (sg_proxy s) = None" for pkt using assms(3) by (simp add: waits_to_send_def Send_def)
  have "sg_unsent s \<noteq> None" "sg_unsent s \<noteq> Some []" using assms(3) by (auto simp: waits_to_send_def unsent_def split: option.splits)
  with assms full show ?thesis
    by (cases rule: serve_step.cases) (auto simp: waits_to_send_def unsent_def elim: serve_work.cases)
qed

lemma full_channel_forever:
  assumes "reachable s (serve_step K W P) t" and "\<not> sg_running s" and "waits_to_send s"
  shows "sg_gateway t = sg_gateway s \<and> q_done (sg_queue t) = q_done (sg_queue s)"
proof -
  from assms(1) have "\<not> sg_running t \<and> waits_to_send t \<and> sg_gateway t = sg_gateway s \<and> q_done (sg_queue t) = q_done (sg_queue s)"
  proof (induction rule: reachable.induct)
    case (reach_step t u)
    with full_channel_stays [OF reach_step.hyps(2)] show ?case by simp
  qed (use assms(2,3) in simp)
  then show ?thesis by blast
qed

text \<open>The channel fills, and a connect after that waits.\<close>

definition connecting :: "'k packet \<Rightarrow> 'k packet packet_queue" where
  "connecting p = queue_init\<lparr>q_accepted := [p], q_waiting := True, q_busy := Some p\<rparr>"

lemma packet_begins:
  assumes "reachable i (serve_step K W P) s" and "sg_queue s = queue_init" and "sg_unsent s = None"
    and "handle_packet K W P p (sg_gateway s) = Ret g'"
  shows "reachable i (serve_step K W P) (s\<lparr>sg_queue := connecting p, sg_gateway := g',
    sg_unsent := Some (drop (length (given (sg_gateway s))) (given g'))\<rparr>)"
proof -
  let ?S = "serve_step K W P" and ?q = "queue_init\<lparr>q_accepted := [p], q_waiting := True\<rparr>"
  let ?R = "reachable i ?S"
  have step: "?R u" if "?R t" "?S t u" for t u using that by (rule reach_step)
  have queue: "?R (s\<lparr>sg_queue := r\<rparr>)" if "?R (s\<lparr>sg_queue := q\<rparr>)" "queue_internal (\<lambda>_. False) q r" "q_done r = q_done q" for q r
    using step [OF that(1) works [OF serve_queue [of "s\<lparr>sg_queue := q\<rparr>" r]]] that(2,3) by simp
  have "?R (s\<lparr>sg_queue := queue_init\<lparr>q_enqueue := [p], q_accepted := [p]\<rparr>\<rparr>)"
    using step [OF assms(1) puts [of s K W P p]] assms(2) by (simp add: queue_init_def)
  from queue [OF this take_idle [of _ p "[]"]] have "?R (s\<lparr>sg_queue := ?q\<lparr>q_hand := Some p\<rparr>\<rparr>)" by (simp add: queue_init_def)
  from queue [OF this deliver [of _ p]] have "?R (s\<lparr>sg_queue := ?q\<lparr>q_dequeue := [p]\<rparr>\<rparr>)" by (simp add: queue_init_def)
  from queue [OF this fetch_good [of _ p "[]"]] have b: "?R (s\<lparr>sg_queue := connecting p\<rparr>)"
    by (simp add: queue_init_def connecting_def)
  have "?S (s\<lparr>sg_queue := connecting p\<rparr>) (s\<lparr>sg_queue := connecting p, sg_gateway := g',
    sg_unsent := Some (drop (length (given (sg_gateway s))) (given g'))\<rparr>)"
    using works [OF serve_handle [of "s\<lparr>sg_queue := connecting p\<rparr>" p K W P g']] assms(3,4) by (simp add: connecting_def)
  with b show ?thesis by (rule reach_step)
qed

lemma connect_given:
  assumes "cl_Attrs c = Some a"
  shows "\<exists>g'. handle_packet K W P (useForConnect c) (new_gateway K uuid conf) = Ret g' \<and>
    given g' = [NewEmptyRelayMessage K (gw_ID (new_gateway K uuid conf))]"
proof -
  obtain n t where "Next (gw_seq (new_gateway K uuid conf)) = (n, t)" by (cases "Next (gw_seq (new_gateway K uuid conf))")
  with assms show ?thesis
    by (simp add: handle_packet_def handleClientConnect_def put_client_def new_gateway_def Gateway_Start_def NewGateway_def
        proxy_send_def Let_def cas_def given_def)
qed

lemma channel_fills:
  "n \<le> in_capacity \<Longrightarrow> px_in px0 = [] \<Longrightarrow> reachable (serving_init g px0 started) (serve_step K W P)
     ((serving_init g px0 started)\<lparr>sg_proxy := px0\<lparr>px_in := replicate n pkt\<rparr>, sg_accepted := replicate n (False, pkt)\<rparr>)"
proof (induction n)
  case 0
  then have "(serving_init g px0 started)\<lparr>sg_proxy := px0\<lparr>px_in := []\<rparr>, sg_accepted := []\<rparr> = serving_init g px0 started"
    by (simp add: serving_init_def)
  then show ?case by (simp add: reach_init)
next
  case (Suc n)
  let ?s = "(serving_init g px0 started)\<lparr>sg_proxy := px0\<lparr>px_in := replicate n pkt\<rparr>, sg_accepted := replicate n (False, pkt)\<rparr>"
  have "Send pkt (sg_proxy ?s) = Some (None, px0\<lparr>px_in := replicate n pkt @ [pkt]\<rparr>)" using Suc.prems(1) by (simp add: Send_def)
  from sends [OF this, of K W P] have more: "serve_step K W P ?s
      ((serving_init g px0 started)\<lparr>sg_proxy := px0\<lparr>px_in := replicate (Suc n) pkt\<rparr>, sg_accepted := replicate (Suc n) (False, pkt)\<rparr>)"
    by (simp add: replicate_append_same)
  have "reachable (serving_init g px0 started) (serve_step K W P) ?s" using Suc by simp
  then show ?case using more by (rule reach_step)
qed

lemma waiting_reachable:
  assumes "px_in px0 = []"
  shows "\<exists>s. reachable (serving_init (new_gateway K uuid conf) px0 started) (serve_step K W P) s \<and> waits_to_send s"
proof -
  let ?c = "\<lparr>cl_ID = uuid, cl_Attrs = Some \<lparr>at_Username = [], at_Device = 0, at_RemoteIP = [], at_Version = []\<rparr>, cl_conf = None,
    cl_conn = None, cl_state = Started, cl_onMsg = [], cl_onDisconnect = 0\<rparr>"
  let ?g = "new_gateway K uuid conf"
  obtain g' where g': "handle_packet K W P (useForConnect ?c) ?g = Ret g'" "given g' = [NewEmptyRelayMessage K (gw_ID ?g)]"
    using connect_given [of ?c] by fastforce
  let ?s = "(serving_init ?g px0 started)\<lparr>sg_proxy := px0\<lparr>px_in := replicate in_capacity (zero_relay K)\<rparr>,
    sg_accepted := replicate in_capacity (False, zero_relay K)\<rparr>"
  have "sg_queue ?s = queue_init" "sg_unsent ?s = None" "sg_gateway ?s = ?g" by (simp_all add: serving_init_def)
  note s = this
  let ?t = "?s\<lparr>sg_queue := connecting (useForConnect ?c), sg_gateway := g',
    sg_unsent := Some (drop (length (given (sg_gateway ?s))) (given g'))\<rparr>"
  have "reachable (serving_init ?g px0 started) (serve_step K W P) ?t"
    by (rule packet_begins [OF channel_fills [OF order_refl assms] s(1,2)]) (simp only: s(3) g'(1))
  moreover have "waits_to_send ?t"
    by (simp add: waits_to_send_def unsent_def s(3) g'(2) new_gateway_simps(2))
  ultimately show ?thesis by blast
qed

section \<open>Witnesses\<close>


end
