(* ===== verification/GatewayStop.thy ===== *)
theory GatewayStop
  imports GatewayHub
begin

text \<open>
  The end of a gateway: what \<^verbatim>\<open>Shutdown\<close> of \<^verbatim>\<open>gateway/wss/hub.go\<close> does to the clients, and what the goroutines that
  \<^verbatim>\<open>Start\<close> spawned meet afterwards, since none of them is told to end.
\<close>

section \<open>Closing the clients\<close>

definition closed_client :: "ws_api \<Rightarrow> 'k ws_client \<Rightarrow> 'k ws_client" where
  "closed_client W c = c\<lparr>cl_conn := map_option (\<lambda>d. conn_Close (sent (ws_ServerMessage W WsClose []) d)) (cl_conn c),
     cl_state := Closed\<rparr>"

definition closable :: "'k ws_client \<Rightarrow> bool" where
  "closable c \<longleftrightarrow> client_running c \<and> cl_Attrs c \<noteq> None"

lemma Client_Close_closable: "closable c \<Longrightarrow> Client_Close W c = Ret (closed_client W c) \<and> cl_Attrs (closed_client W c) \<noteq> None"
  by (auto simp: closable_def client_running_def closed_client_def Client_Close_simps split: option.splits)

lemma relayed_append: "relayed K n (relayed K k out g) g = relayed K (k + n) out g"
  by (simp add: relayed_def replicate_add)

lemma shutdown_clients_closable:
  assumes "gw_lgProxy g = Some out" and "list_all closable cs"
  shows "\<exists>s. shutdown_clients K W P cs g = Ret (g\<lparr>gw_seq := s, gw_lgProxy := Some (relayed K (length cs) out g),
      gw_closed := gw_closed g @ map (closed_client W) cs\<rparr>)"
  using assms
proof (induction cs arbitrary: g out)
  case Nil
  then show ?case by (intro exI [of _ "gw_seq g"]) (simp add: relayed_def)
next
  case (Cons c cs)
  let ?g = "g\<lparr>gw_seq := snd (Next (gw_seq g)), gw_lgProxy := Some (relayed K 1 out g), gw_closed := gw_closed g @ [closed_client W c]\<rparr>"
  have "gw_lgProxy ?g = Some (relayed K 1 out g)" "list_all closable cs" using Cons.prems(2) by simp_all
  from Cons.IH [OF this] obtain s where "shutdown_clients K W P cs ?g = Ret (?g\<lparr>gw_seq := s,
      gw_lgProxy := Some (relayed K (length cs) (relayed K 1 out g) ?g), gw_closed := gw_closed ?g @ map (closed_client W) cs\<rparr>)"
    by blast
  moreover have "relayed K (length cs) (relayed K 1 out g) ?g = relayed K (Suc (length cs)) out g"
    using relayed_append [of K "length cs" 1 out g] by (simp add: relayed_def)
  ultimately show ?case
    using Cons.prems Client_Close_closable [of c W]
    by (intro exI [of _ s]) (simp add: sendDisconnectPacket_out)
qed

section \<open>After the end\<close>

text \<open>What is left of a gateway after \<^verbatim>\<open>Shutdown\<close>: no map of clients and no proxy.\<close>

definition gone :: "'k gateway \<Rightarrow> bool" where
  "gone g \<longleftrightarrow> gw_clients g = None \<and> gw_lgProxy g = None"

lemma gone_panics:
  assumes "gone g"
  shows "handle_packet K W P (useForConnect c) g = Panic NilMapWrite"
    and "rp_Receivers pkt \<noteq> [] \<Longrightarrow> rp_Payload pkt \<noteq> None \<Longrightarrow> handle_packet K W P (useForMsgRelay pkt) g = Panic NilDeref"
    and "IsProtocol (GetPID (msg_Header (cm_Payload msg))) \<Longrightarrow> handleClientEvents K [OnMsg msg] g = Panic NilDeref"
    and "handle_packet K W P (useForDisconnect c) g = Ret g"
proof -
  have n: "lookup_client uuid g = None" "proxy_send p g = Panic NilDeref" "sendDisconnectPacket K P uuid g = Panic NilDeref" for uuid p
    using assms by (simp_all add: gone_def lookup_client_def proxy_send_def sendDisconnectPacket_def split: prod.split)
  show "handle_packet K W P (useForConnect c) g = Panic NilMapWrite"
    using assms by (simp add: handle_packet_def handleClientConnect_def put_client_def gone_def)
  show "handle_packet K W P (useForDisconnect c) g = Ret g"
    by (simp add: handle_packet_def handleClientDisconnect_def n)
  show "handle_packet K W P (useForMsgRelay pkt) g = Panic NilDeref" if "rp_Receivers pkt \<noteq> []" "rp_Payload pkt \<noteq> None"
    using that n by (cases "rp_Receivers pkt") (auto simp: handle_packet_def handleMsgRelay_def)
  have "gw_lgProxy (metered v ls op h) = None" if "gw_lgProxy h = None" for v ls op and h :: "'a gateway"
    using that by simp
  then show "handleClientEvents K [OnMsg msg] g = Panic NilDeref" if "IsProtocol (GetPID (msg_Header (cm_Payload msg)))"
    using that assms by (cases "cm_Attrs msg") (simp_all add: handle_client_message_def proxy_send_def gone_def Let_def)
qed

text \<open>C38: \<^verbatim>\<open>Shutdown\<close> of a started gateway whose clients are connected returns no error, sends every client a close frame and closes its
  connection, each once and in any order, and sends one packet per client to the logic servers. But the goroutines of the gateway go
  on without map and proxy: the next client message, a connection already in the queue, or a message from a logic server
  panics, and so it is after the next \<^verbatim>\<open>Start\<close>, which succeeds.\<close>
theorem shutdown_closes_then_panics:
  assumes "gw_state g = Started" and "gw_clients g = Some m" and "gw_lgProxy g = Some out"
    and "list_all closable (map snd m)" and "mset (order m) = mset (map snd m)"
  shows "\<exists>g1 g2. Shutdown K W P order g = Ret (None, g1) \<and>
    mset (gw_closed g1) = mset (gw_closed g) + mset (map (closed_client W) (map snd m)) \<and>
    (\<exists>s. shutdown_clients K W P (order m) (g\<lparr>gw_state := Closing\<rparr>) = Ret s \<and> gw_lgProxy s = Some (relayed K (length m) out g)) \<and>
    gw_state g1 = Closed \<and> Gateway_Start g1 = (None, g2) \<and>
    (\<forall>h\<in>{g1, g2}. handle_packet K W P (useForConnect c) h = Panic NilMapWrite \<and>
      (rp_Receivers pkt \<noteq> [] \<and> rp_Payload pkt \<noteq> None \<longrightarrow> handle_packet K W P (useForMsgRelay pkt) h = Panic NilDeref) \<and>
      (IsProtocol (GetPID (msg_Header (cm_Payload msg))) \<longrightarrow> handleClientEvents K [OnMsg msg] h = Panic NilDeref))"
proof -
  let ?g = "g\<lparr>gw_state := Closing\<rparr>"
  have "set (order m) = set (map snd m)" using assms(5) by (rule mset_eq_setD)
  then have "list_all closable (order m)" using assms(4) by (simp add: list_all_iff)
  moreover have "gw_lgProxy ?g = Some out" using assms(3) by simp
  ultimately obtain s where s: "shutdown_clients K W P (order m) ?g = Ret (?g\<lparr>gw_seq := s,
      gw_lgProxy := Some (relayed K (length (order m)) out ?g), gw_closed := gw_closed ?g @ map (closed_client W) (order m)\<rparr>)"
    using shutdown_clients_closable by blast
  let ?g1 = "?g\<lparr>gw_seq := s, gw_lgProxy := None, gw_closed := gw_closed ?g @ map (closed_client W) (order m), gw_clients := None,
      gw_state := Closed\<rparr>"
  have S: "Shutdown K W P order g = Ret (None, ?g1)"
    using s assms(1,2) by (simp add: Shutdown_def Let_def)
  have l: "length (order m) = length m" using mset_eq_length [OF assms(5)] by simp
  have "mset (map (closed_client W) (order m)) = mset (map (closed_client W) (map snd m))"
    using assms(5) by (simp only: mset_map)
  then have c0: "mset (gw_closed ?g1) = mset (gw_closed g) + mset (map (closed_client W) (map snd m))" by simp
  have r: "relayed K (length (order m)) out ?g = relayed K (length m) out g" by (simp add: relayed_def l)
  let ?g2 = "?g1\<lparr>gw_state := Started\<rparr>"
  have st: "Gateway_Start ?g1 = (None, ?g2)" by (simp add: Gateway_Start_def)
  have "handle_packet K W P (useForConnect c) h = Panic NilMapWrite \<and>
      (rp_Receivers pkt \<noteq> [] \<and> rp_Payload pkt \<noteq> None \<longrightarrow> handle_packet K W P (useForMsgRelay pkt) h = Panic NilDeref) \<and>
      (IsProtocol (GetPID (msg_Header (cm_Payload msg))) \<longrightarrow> handleClientEvents K [OnMsg msg] h = Panic NilDeref)"
    if "gone h" for h
    using gone_panics(1-3) [OF that] by blast
  moreover have "gone ?g1" "gone ?g2" by (simp_all add: gone_def)
  ultimately have "\<forall>h\<in>{?g1, ?g2}. handle_packet K W P (useForConnect c) h = Panic NilMapWrite \<and>
      (rp_Receivers pkt \<noteq> [] \<and> rp_Payload pkt \<noteq> None \<longrightarrow> handle_packet K W P (useForMsgRelay pkt) h = Panic NilDeref) \<and>
      (IsProtocol (GetPID (msg_Header (cm_Payload msg))) \<longrightarrow> handleClientEvents K [OnMsg msg] h = Panic NilDeref)"
    by blast
  moreover have "\<exists>s. shutdown_clients K W P (order m) ?g = Ret s \<and> gw_lgProxy s = Some (relayed K (length m) out g)"
    using s r by simp
  moreover have "gw_state ?g1 = Closed" by simp
  ultimately show ?thesis using S c0 st by blast
qed

lemma shutdown_closes_then_panics_witness:
  "\<exists>g1. Shutdown id20_api plain_ws plain_proto (map snd) example_gateway = Ret (None, g1) \<and>
    gw_closed g1 = [closed_client plain_ws (example_client [])] \<and>
    handle_packet id20_api plain_ws plain_proto (useForConnect (example_client [])) g1 = Panic NilMapWrite"
proof -
  have g: "gw_state example_gateway = Started" "gw_closed example_gateway = []" by (simp_all add: example_gateway_def NewGateway_def)
  have "list_all closable (map snd [(id20_of 1, example_client [])])"
    using example_gateway_simps by (simp add: closable_def)
  from shutdown_closes_then_panics [OF g(1) example_gateway_simps(1,2) this, of "map snd" id20_api plain_ws plain_proto
      "example_client []" "zero_relay id20_api" "\<lparr>cm_ID = id20_of 1, cm_Attrs = None, cm_Payload = NewMessage PIDChat 1\<rparr>"]
  obtain g1 where g1: "Shutdown id20_api plain_ws plain_proto (map snd) example_gateway = Ret (None, g1)"
    "mset (gw_closed g1) = mset (gw_closed example_gateway) + mset (map (closed_client plain_ws) (map snd [(id20_of 1, example_client [])]))"
    "handle_packet id20_api plain_ws plain_proto (useForConnect (example_client [])) g1 = Panic NilMapWrite"
    by blast
  from g1(2) g(2) have "gw_closed g1 = [closed_client plain_ws (example_client [])]" by (simp add: mset_single_iff)
  with g1 show ?thesis by blast
qed

end
