(* ===== verification/ClientLife.thy ===== *)
theory ClientLife
  imports WsClient
begin

text \<open>
  One life of a websocket client (\<^verbatim>\<open>peer/ws_client.go\<close>) under concurrency: the caller of \<^verbatim>\<open>Start\<close>, the
  goroutine of \<^verbatim>\<open>readHandler\<close>, and any number of callers of \<^verbatim>\<open>Push\<close> and of \<^verbatim>\<open>Close\<close>, in their atomic
  steps. WsClient says what each of them does alone; here are only the fields they share: the state, and whether the
  connection and the attributes are \<^verbatim>\<open>nil\<close>. What a write or a log line does with a \<^verbatim>\<open>nil\<close> one is a panic.
\<close>

section \<open>Steps\<close>

text \<open>
  \<open>OpenLog\<close> is the log line of \<^verbatim>\<open>Start\<close>, after the reader is spawned. The reader leaves its loop at any time, and its
  deferred function closes, notifies and cleans field by field. \<^verbatim>\<open>Push\<close> looks at the state, then uses the connection twice.
\<close>

datatype open_pc = OpenIdle | OpenLog | OpenDone "go_error option" | OpenPanic
datatype read_pc = RdNone | RdLoop | RdExit | RdClose | RdNotify | RdCleanConn | RdCleanAttrs | RdReset | RdGone
datatype push_pc = PushIdle | PushDeadline | PushWrite | PushDone "go_error option" | PushPanic
datatype shut_pc = ShutIdle | ShutWrite | ShutConn | ShutReset | ShutDone | ShutPanic

text \<open>\<open>cy_winner\<close> only records who won the swap from started to closing: the reader, or one of the closers.\<close>

datatype winner = Nobody | ReaderWon | CloserWon nat

record client_sys =
  cy_state :: lifecycle
  cy_conn :: bool
  cy_attrs :: bool
  cy_open :: open_pc
  cy_read :: read_pc
  cy_push :: "nat \<Rightarrow> push_pc"
  cy_shut :: "nat \<Rightarrow> shut_pc"
  cy_closes :: nat
  cy_notified :: nat
  cy_winner :: winner

definition client_init :: client_sys where
  "client_init = \<lparr>cy_state = Closed, cy_conn = True, cy_attrs = True, cy_open = OpenIdle, cy_read = RdNone,
     cy_push = (\<lambda>_. PushIdle), cy_shut = (\<lambda>_. ShutIdle), cy_closes = 0, cy_notified = 0, cy_winner = Nobody\<rparr>"

inductive client_step :: "client_sys \<Rightarrow> client_sys \<Rightarrow> bool" where
  open_swap: "cy_open s = OpenIdle \<Longrightarrow> cas (cy_state s) Closed Started = (True, st) \<Longrightarrow>
    client_step s (s\<lparr>cy_state := st, cy_open := OpenLog, cy_read := RdLoop\<rparr>)"
| open_log: "cy_open s = OpenLog \<Longrightarrow>
    client_step s (s\<lparr>cy_open := (if cy_attrs s then OpenDone None else OpenPanic)\<rparr>)"
| read_break: "cy_read s = RdLoop \<Longrightarrow> client_step s (s\<lparr>cy_read := RdExit\<rparr>)"
| read_lost: "cy_read s = RdExit \<Longrightarrow> cas (cy_state s) Started Closing = (False, st) \<Longrightarrow> client_step s (s\<lparr>cy_read := RdGone\<rparr>)"
| read_won: "cy_read s = RdExit \<Longrightarrow> cas (cy_state s) Started Closing = (True, st) \<Longrightarrow>
    client_step s (s\<lparr>cy_state := st, cy_read := RdClose, cy_winner := ReaderWon\<rparr>)"
| read_close: "cy_read s = RdClose \<Longrightarrow> client_step s (s\<lparr>cy_read := RdNotify, cy_closes := Suc (cy_closes s)\<rparr>)"
| read_notify: "cy_read s = RdNotify \<Longrightarrow> client_step s (s\<lparr>cy_read := RdCleanConn, cy_notified := Suc (cy_notified s)\<rparr>)"
| read_clean_conn: "cy_read s = RdCleanConn \<Longrightarrow> client_step s (s\<lparr>cy_read := RdCleanAttrs, cy_conn := False\<rparr>)"
| read_clean_attrs: "cy_read s = RdCleanAttrs \<Longrightarrow> client_step s (s\<lparr>cy_read := RdReset, cy_attrs := False\<rparr>)"
| read_reset: "cy_read s = RdReset \<Longrightarrow>
    client_step s (s\<lparr>cy_read := RdGone, cy_state := snd (cas (cy_state s) Closing Closed)\<rparr>)"
| push_load: "cy_push s i = PushIdle \<Longrightarrow>
    client_step s (s\<lparr>cy_push := (cy_push s)(i := if cy_state s \<noteq> Started then PushDone (Some ErrClientIsClosed) else PushDeadline)\<rparr>)"
| push_deadline: "cy_push s i = PushDeadline \<Longrightarrow> pc \<in> (if cy_conn s then {PushWrite, PushDone (Some e)} else {PushPanic}) \<Longrightarrow>
    client_step s (s\<lparr>cy_push := (cy_push s)(i := pc)\<rparr>)"
| push_write: "cy_push s i = PushWrite \<Longrightarrow>
    client_step s (s\<lparr>cy_push := (cy_push s)(i := if cy_conn s then PushDone e else PushPanic)\<rparr>)"
| shut_lost: "cy_shut s i = ShutIdle \<Longrightarrow> cas (cy_state s) Started Closing = (False, st) \<Longrightarrow>
    client_step s (s\<lparr>cy_shut := (cy_shut s)(i := ShutDone)\<rparr>)"
| shut_won: "cy_shut s i = ShutIdle \<Longrightarrow> cas (cy_state s) Started Closing = (True, st) \<Longrightarrow>
    client_step s (s\<lparr>cy_state := st, cy_shut := (cy_shut s)(i := ShutWrite), cy_winner := CloserWon i\<rparr>)"
| shut_write: "cy_shut s i = ShutWrite \<Longrightarrow> pc \<in> (if cy_conn s then {ShutConn, ShutReset} else {ShutPanic}) \<Longrightarrow>
    client_step s (s\<lparr>cy_shut := (cy_shut s)(i := pc)\<rparr>)"
| shut_conn: "cy_shut s i = ShutConn \<Longrightarrow>
    client_step s (s\<lparr>cy_shut := (cy_shut s)(i := if cy_conn s then ShutReset else ShutPanic),
      cy_closes := cy_closes s + (if cy_conn s then 1 else 0)\<rparr>)"
| shut_reset: "cy_shut s i = ShutReset \<Longrightarrow>
    client_step s (s\<lparr>cy_shut := (cy_shut s)(i := ShutDone), cy_state := snd (cas (cy_state s) Closing Closed)\<rparr>)"

section \<open>The invariant\<close>

definition working :: "shut_pc \<Rightarrow> bool" where
  "working pc \<longleftrightarrow> pc \<in> {ShutWrite, ShutConn, ShutReset}"

text \<open>The shared fields while the reader that won the swap goes through its deferred function: the state, whether the connection and
  the attributes are there, how often the connection was closed and the gateway told.\<close>

fun reader_fields :: "read_pc \<Rightarrow> (lifecycle \<times> bool \<times> bool \<times> nat \<times> nat) option" where
  "reader_fields RdClose = Some (Closing, True, True, 0, 0)"
| "reader_fields RdNotify = Some (Closing, True, True, 1, 0)"
| "reader_fields RdCleanConn = Some (Closing, True, True, 1, 1)"
| "reader_fields RdCleanAttrs = Some (Closing, False, True, 1, 1)"
| "reader_fields RdReset = Some (Closing, False, False, 1, 1)"
| "reader_fields RdGone = Some (Closed, False, False, 1, 1)"
| "reader_fields _ = None"

lemma working_simps [simp]: "\<not> working ShutIdle" "\<not> working ShutDone" "working ShutWrite" "working ShutConn" "working ShutReset"
    "\<not> working ShutPanic"
  by (simp_all add: working_def)

text \<open>What the shared fields are, by who won the swap.\<close>

fun life_of :: "winner \<Rightarrow> client_sys \<Rightarrow> bool" where
  "life_of Nobody s \<longleftrightarrow> cy_state s = (if cy_open s = OpenIdle then Closed else Started) \<and> cy_conn s \<and> cy_attrs s \<and>
     cy_closes s = 0 \<and> cy_notified s = 0 \<and> cy_read s \<in> {RdNone, RdLoop, RdExit} \<and> (cy_open s = OpenIdle \<longleftrightarrow> cy_read s = RdNone) \<and>
     (\<forall>i. \<not> working (cy_shut s i)) \<and> cy_open s \<noteq> OpenPanic \<and> (\<forall>i. cy_push s i \<noteq> PushPanic)"
| "life_of ReaderWon s \<longleftrightarrow> reader_fields (cy_read s) = Some (cy_state s, cy_conn s, cy_attrs s, cy_closes s, cy_notified s) \<and>
     (\<forall>i. \<not> working (cy_shut s i)) \<and> (\<forall>i. cy_push s i = PushPanic \<longrightarrow> \<not> cy_conn s) \<and> (cy_open s = OpenPanic \<longrightarrow> \<not> cy_attrs s)"
| "life_of (CloserWon i) s \<longleftrightarrow> cy_state s = (if working (cy_shut s i) then Closing else Closed) \<and> cy_conn s \<and> cy_attrs s \<and>
     (cy_shut s i \<in> {ShutWrite, ShutConn} \<longrightarrow> cy_closes s = 0) \<and> cy_closes s \<le> 1 \<and> cy_notified s = 0 \<and>
     cy_read s \<in> {RdLoop, RdExit, RdGone} \<and> (\<forall>j. j \<noteq> i \<longrightarrow> \<not> working (cy_shut s j)) \<and> cy_shut s i \<noteq> ShutIdle \<and>
     cy_open s \<noteq> OpenPanic \<and> (\<forall>j. cy_push s j \<noteq> PushPanic)"

definition client_life :: "client_sys \<Rightarrow> bool" where
  "client_life s \<longleftrightarrow> life_of (cy_winner s) s \<and> (\<forall>i. cy_shut s i \<noteq> ShutPanic) \<and> (cy_winner s \<noteq> Nobody \<longrightarrow> cy_open s \<noteq> OpenIdle)"

lemma cas_result: "cas v old new = (b, st) \<longleftrightarrow> (b \<longleftrightarrow> v = old) \<and> st = (if b then new else v)"
  by (auto simp: cas_def)

lemma client_life_working:
  "client_life s \<Longrightarrow> working (cy_shut s i) \<Longrightarrow> cy_winner s = CloserWon i"
  by (cases "cy_winner s", simp_all add: client_life_def) metis

lemma reader_fields_state: "reader_fields pc = Some (st, x) \<Longrightarrow> st \<noteq> Started"
  by (cases pc) auto

lemma client_life_started:
  "client_life s \<Longrightarrow> cy_state s = Started \<Longrightarrow> cy_winner s = Nobody"
  by (cases "cy_winner s") (auto simp: client_life_def dest: reader_fields_state split: if_splits)

lemma client_life_step:
  assumes "client_step s t" and "client_life s"
  shows "client_life t"
  using assms(1)
proof cases
  case (push_deadline i pc e)
  then have "cy_conn s \<Longrightarrow> pc \<noteq> PushPanic" by auto
  with push_deadline(1) assms(2) show ?thesis by (cases "cy_winner s", simp_all add: client_life_def) metis
next
  case (shut_lost i st)
  have "working (((cy_shut s)(i := ShutDone)) j) = working (cy_shut s j)"
    "((cy_shut s)(i := ShutDone)) j = ShutPanic \<longleftrightarrow> cy_shut s j = ShutPanic" for j
    using shut_lost(2) by simp_all
  moreover have "((cy_shut s)(i := ShutDone)) j = cy_shut s j" if "cy_winner s = CloserWon j" for j
    using that shut_lost(2) assms(2) by (auto simp: client_life_def)
  ultimately show ?thesis using shut_lost(1) assms(2)
    by (cases "cy_winner s", simp_all add: client_life_def del: fun_upd_apply)
next
  case (shut_won i st)
  then have st: "cy_state s = Started" "st = Closing" by (simp_all add: cas_result)
  then have N: "cy_winner s = Nobody" using client_life_started [OF assms(2)] by blast
  have A: "cy_conn s" "cy_attrs s" "cy_closes s = 0" "cy_notified s = 0" "cy_open s \<noteq> OpenPanic" "\<And>j. cy_push s j \<noteq> PushPanic"
      "\<And>j. \<not> working (cy_shut s j)" "\<And>j. cy_shut s j \<noteq> ShutPanic"
    using assms(2) N by (simp_all add: client_life_def)
  moreover have "cy_open s \<noteq> OpenIdle \<and> cy_read s \<in> {RdLoop, RdExit, RdGone}"
    using assms(2) N st(1) by (cases "cy_open s = OpenIdle") (auto simp: client_life_def)
  ultimately show ?thesis using shut_won(1) st(2) by (simp add: client_life_def)
next
  case (shut_write i pc)
  then have W: "cy_winner s = CloserWon i" by (intro client_life_working [OF assms(2)]) simp
  then have "pc \<in> {ShutConn, ShutReset}" using shut_write(3) assms(2) by (simp add: client_life_def)
  then have "working pc" "pc \<noteq> ShutPanic" "pc \<noteq> ShutIdle" by auto
  with W shut_write(1,2) assms(2) show ?thesis by (simp add: client_life_def)
next
  case (shut_conn i)
  then have W: "cy_winner s = CloserWon i" by (intro client_life_working [OF assms(2)]) simp
  with shut_conn assms(2) show ?thesis by (simp add: client_life_def)
next
  case (shut_reset i)
  then have W: "cy_winner s = CloserWon i" by (intro client_life_working [OF assms(2)]) simp
  with shut_reset assms(2) show ?thesis by (simp add: client_life_def)
qed (cases "cy_winner s"; insert assms(2); auto simp: client_life_def cas_result split: if_splits)+

interpretation lives: invariant_system client_init client_step client_life
proof unfold_locales
  show "client_life client_init" by (simp add: client_life_def client_init_def)
qed (rule client_life_step)

abbreviation client_reaches :: "client_sys \<Rightarrow> bool" where
  "client_reaches \<equiv> reachable client_init client_step"

section \<open>Whoever closes, closes alone\<close>

text \<open>C20: However \<^verbatim>\<open>Start\<close>, the reader, pushes and closes of one client interleave, the connection is closed at most once and the gateway told
  at most once, only about a closed connection, and never about a client that the gateway closed itself; a closed client has been
  disconnected by exactly one of the two. No \<^verbatim>\<open>Close\<close> ever meets a nil connection. A push, or the log line of \<^verbatim>\<open>Start\<close>, panics
  only after the reader has told the gateway and dropped the connection or the attributes.\<close>
theorem client_closed_once:
  assumes "client_reaches s"
  shows "cy_closes s \<le> 1 \<and> cy_notified s \<le> cy_closes s \<and> (cy_state s = Started \<longrightarrow> cy_closes s = 0) \<and>
    (cy_state s = Closed \<and> cy_open s \<noteq> OpenIdle \<longrightarrow> (cy_winner s = ReaderWon \<and> cy_notified s = 1) \<or> (\<exists>i. cy_winner s = CloserWon i)) \<and>
    (\<forall>i. cy_winner s = CloserWon i \<longrightarrow> cy_notified s = 0) \<and> (\<forall>i. cy_shut s i \<noteq> ShutPanic) \<and>
    (\<forall>i. cy_push s i = PushPanic \<longrightarrow> cy_notified s = 1 \<and> \<not> cy_conn s) \<and> (cy_open s = OpenPanic \<longrightarrow> cy_notified s = 1 \<and> \<not> cy_attrs s)"
proof -
  have "client_life s" by (rule lives.reachable_inv [OF assms])
  then have L: "life_of (cy_winner s) s" and P: "\<forall>i. cy_shut s i \<noteq> ShutPanic" by (simp_all add: client_life_def)
  show ?thesis
  proof (cases "cy_winner s")
    case Nobody
    with L P show ?thesis by simp
  next
    case ReaderWon
    with L P show ?thesis by (cases "cy_read s") auto
  next
    case (CloserWon i)
    with L P have "cy_closes s \<le> 1" "cy_notified s = 0" "cy_state s \<noteq> Started" "cy_open s \<noteq> OpenPanic" "\<forall>j. cy_push s j \<noteq> PushPanic"
      by (simp_all split: if_splits)
    with CloserWon P show ?thesis by simp
  qed
qed

section \<open>The races\<close>

text \<open>A run: one step after another.\<close>

lemma client_steps: "client_reaches s \<Longrightarrow> client_step s t \<Longrightarrow> client_reaches t"
  by (rule reach_step)

definition opened :: client_sys where
  "opened = client_init\<lparr>cy_state := Started, cy_open := OpenLog, cy_read := RdLoop, cy_push := (\<lambda>_. PushIdle)(0 := PushDeadline)\<rparr>"

lemma opened_reached: "client_reaches opened"
proof -
  have "client_reaches (client_init\<lparr>cy_state := Started, cy_open := OpenLog, cy_read := RdLoop\<rparr>)"
    by (rule client_steps [OF reach_init open_swap]) (simp_all add: client_init_def)
  from client_steps [OF this push_load [of _ 0]] show ?thesis by (simp add: opened_def client_init_def cong: if_cong)
qed

definition cleaned :: "read_pc \<Rightarrow> client_sys" where
  "cleaned pc = opened\<lparr>cy_state := Closing, cy_read := pc, cy_conn := pc \<in> {RdClose, RdNotify, RdCleanConn},
     cy_attrs := pc \<noteq> RdReset, cy_closes := (if pc = RdClose then 0 else 1),
     cy_notified := (if pc \<in> {RdClose, RdNotify} then 0 else 1), cy_winner := ReaderWon\<rparr>"

lemma cleaned_reached: "client_reaches (cleaned RdReset)"
proof -
  have "client_reaches (opened\<lparr>cy_read := RdExit\<rparr>)"
    by (rule client_steps [OF opened_reached read_break]) (simp add: opened_def)
  from client_steps [OF this read_won [of _ Closing]] have "client_reaches (cleaned RdClose)"
    by (simp add: cleaned_def opened_def client_init_def)
  from client_steps [OF this read_close] have "client_reaches (cleaned RdNotify)" by (simp add: cleaned_def opened_def client_init_def)
  from client_steps [OF this read_notify] have "client_reaches (cleaned RdCleanConn)" by (simp add: cleaned_def opened_def client_init_def)
  from client_steps [OF this read_clean_conn] have "client_reaches (cleaned RdCleanAttrs)" by (simp add: cleaned_def opened_def client_init_def)
  from client_steps [OF this read_clean_attrs] show ?thesis by (simp add: cleaned_def opened_def client_init_def)
qed

text \<open>Neither panic is ruled out: a client that disconnects while a message is pushed to it, or while it is being admitted, can
  crash the gateway, since \<^verbatim>\<open>clean\<close> drops the fields without the lock that the writers hold.\<close>
theorem client_races_panic:
  "\<exists>s. client_reaches s \<and> cy_push s 0 = PushPanic \<and> cy_open s = OpenPanic"
proof -
  have "client_reaches ((cleaned RdReset)\<lparr>cy_open := OpenPanic\<rparr>)"
    using client_steps [OF cleaned_reached open_log] by (simp add: cleaned_def opened_def client_init_def)
  from client_steps [OF this push_deadline [of _ 0 PushPanic]] show ?thesis
    by (intro exI [of _ "((cleaned RdReset)\<lparr>cy_open := OpenPanic\<rparr>)\<lparr>cy_push := (cy_push ((cleaned RdReset)\<lparr>cy_open := OpenPanic\<rparr>))(0 := PushPanic)\<rparr>"])
       (simp add: cleaned_def opened_def client_init_def)
qed

lemma client_closed_once_witness:
  "client_reaches (cleaned RdReset) \<and> cy_notified (cleaned RdReset) \<le> cy_closes (cleaned RdReset) \<and> \<not> cy_conn (cleaned RdReset)"
  using client_closed_once [OF cleaned_reached] cleaned_reached by (simp add: cleaned_def)

end
