(* ===== verification/Threads.thy ===== *)
theory Threads
  imports PeerServer ClientLife WsSession
begin

text \<open>
  The interleaved systems of PeerServer and ClientLife against the operations they interleave: a thread that runs alone,
  from the beginning of its operation, takes a few steps, is never stuck, and leaves the shared fields as the
  operation of the same name leaves those of the record.
\<close>

section \<open>A peer\<close>

text \<open>\<open>PeerStart\<close> is the caller of \<^verbatim>\<open>Start\<close> with the first step of the goroutine it waits for.\<close>

datatype peer_thread = PeerStart | PeerReader | PeerCloser nat

definition peer_acts :: "peer_thread \<Rightarrow> peer_sys \<Rightarrow> peer_sys \<Rightarrow> bool" where
  "peer_acts th s t \<longleftrightarrow> peer_step s t \<and> (th = PeerStart \<or> ps_start t = ps_start s) \<and>
     (ps_reader t = ps_reader s \<or> th = PeerReader \<or> th = PeerStart \<and> ps_reader s \<in> {ReadNone, ReadSetup}) \<and>
     (\<forall>i. th = PeerCloser i \<or> ps_closer t i = ps_closer s i)"

fun peer_begins :: "peer_thread \<Rightarrow> peer_sys \<Rightarrow> bool" where
  "peer_begins PeerStart s \<longleftrightarrow> ps_start s = StartIdle \<and> ps_reader s = ReadNone \<and> ps_state s = SClosed"
| "peer_begins PeerReader s \<longleftrightarrow> ps_reader s = ReadExit"
| "peer_begins (PeerCloser i) s \<longleftrightarrow> ps_closer s i = CloseIdle"

fun peer_ended :: "peer_thread \<Rightarrow> peer_sys \<Rightarrow> bool" where
  "peer_ended PeerStart s \<longleftrightarrow> ps_start s = StartDone None"
| "peer_ended PeerReader s \<longleftrightarrow> ps_reader s = ReadGone"
| "peer_ended (PeerCloser i) s \<longleftrightarrow> ps_closer s i = CloseDone"

text \<open>What the thread has before it: the steps, and the state, the closings and the notices when it is done.\<close>

fun peer_load :: "peer_thread \<Rightarrow> peer_sys \<Rightarrow> nat" where
  "peer_load PeerStart s = (case ps_start s of StartIdle \<Rightarrow> 4 | StartWait \<Rightarrow> (if ps_reader s = ReadSetup then 3 else 2) | StartReady \<Rightarrow> 1 | _ \<Rightarrow> 0)"
| "peer_load PeerReader s = (case ps_reader s of ReadExit \<Rightarrow> 4 | ReadClose \<Rightarrow> 3 | ReadNotify \<Rightarrow> 2 | ReadReset \<Rightarrow> 1 | _ \<Rightarrow> 0)"
| "peer_load (PeerCloser i) s = (case ps_closer s i of CloseIdle \<Rightarrow> 4 | CloseWrite \<Rightarrow> 3 | CloseConn \<Rightarrow> 2 | CloseReset \<Rightarrow> 1 | CloseDone \<Rightarrow> 0)"

definition after_closing :: "srv_state \<Rightarrow> srv_state" where
  "after_closing st = (if st \<in> {SStarted, SClosing} then SClosed else st)"

fun peer_outlook :: "peer_thread \<Rightarrow> peer_sys \<Rightarrow> srv_state \<times> nat \<times> nat" where
  "peer_outlook PeerStart s =
     (case ps_start s of StartDone _ \<Rightarrow> ps_state s | StartIdle \<Rightarrow> SStarted | _ \<Rightarrow> snd (cas (ps_state s) SStarting SStarted),
      ps_conn_closes s, ps_notified s)"
| "peer_outlook PeerReader s =
     (let won = (case ps_reader s of ReadExit \<Rightarrow> ps_state s = SStarted | ReadGone \<Rightarrow> False | _ \<Rightarrow> True)
      in (if won then after_closing (ps_state s) else ps_state s,
          ps_conn_closes s + (if won \<and> ps_reader s \<in> {ReadExit, ReadClose} then 1 else 0),
          ps_notified s + (if won \<and> ps_reader s \<in> {ReadExit, ReadClose, ReadNotify} then 1 else 0)))"
| "peer_outlook (PeerCloser i) s =
     (let won = (case ps_closer s i of CloseIdle \<Rightarrow> ps_state s = SStarted | CloseDone \<Rightarrow> False | _ \<Rightarrow> True)
      in (if won then after_closing (ps_state s) else ps_state s,
          ps_conn_closes s + (if won \<and> ps_closer s i \<noteq> CloseReset then 1 else 0), ps_notified s))"

text \<open>A thread that is under way; the one that won a swap finds the closing state.\<close>

fun peer_going :: "peer_thread \<Rightarrow> peer_sys \<Rightarrow> bool" where
  "peer_going PeerStart s \<longleftrightarrow> (if ps_start s = StartIdle then ps_reader s = ReadNone \<and> ps_state s = SClosed else ps_reader s \<in> {ReadSetup, ReadLoop}) \<and>
     (ps_reader s = ReadSetup \<longrightarrow> ps_start s = StartWait) \<and> (ps_start s \<in> {StartWait, StartReady} \<longrightarrow> ps_state s = SStarting) \<and>
     (case ps_start s of StartDone e \<Rightarrow> e = None | _ \<Rightarrow> True)"
| "peer_going PeerReader s \<longleftrightarrow> ps_reader s \<notin> {ReadNone, ReadSetup, ReadLoop} \<and> (ending_pc (ps_reader s) \<longrightarrow> ps_state s = SClosing)"
| "peer_going (PeerCloser i) s \<longleftrightarrow> (closing_pc (ps_closer s i) \<longrightarrow> ps_state s = SClosing)"

lemma peer_begins_going: "peer_begins th s \<Longrightarrow> peer_going th s"
  by (cases th) auto

lemma start_acts:
  "peer_acts PeerStart s t \<Longrightarrow> peer_going PeerStart s \<Longrightarrow>
   peer_going PeerStart t \<and> peer_load PeerStart t < peer_load PeerStart s \<and> peer_outlook PeerStart t = peer_outlook PeerStart s"
  unfolding peer_acts_def by (elim conjE, erule peer_step.cases) (auto split: if_splits)

lemma reader_acts:
  "peer_acts PeerReader s t \<Longrightarrow> peer_going PeerReader s \<Longrightarrow>
   peer_going PeerReader t \<and> peer_load PeerReader t < peer_load PeerReader s \<and> peer_outlook PeerReader t = peer_outlook PeerReader s"
  unfolding peer_acts_def by (elim conjE, erule peer_step.cases) (auto simp: after_closing_def split: if_splits)

lemma closer_acts:
  "peer_acts (PeerCloser i) s t \<Longrightarrow> peer_going (PeerCloser i) s \<Longrightarrow>
   peer_going (PeerCloser i) t \<and> peer_load (PeerCloser i) t < peer_load (PeerCloser i) s \<and>
   peer_outlook (PeerCloser i) t = peer_outlook (PeerCloser i) s"
  unfolding peer_acts_def by (elim conjE, erule peer_step.cases) (auto simp: after_closing_def split: if_splits)

lemma peer_actsI: "peer_step s t \<Longrightarrow> (peer_step s t \<Longrightarrow> peer_acts th s t) \<Longrightarrow> \<exists>t. peer_acts th s t"
  by blast

lemma peer_enabled:
  assumes "peer_going th s" and "\<not> peer_ended th s"
  shows "\<exists>t. peer_acts th s t"
proof (cases th)
  case PeerStart
  note [simp] = peer_acts_def this
  show ?thesis
  proof (cases "ps_start s")
    case StartIdle
    with assms show ?thesis by (intro peer_actsI [OF start_begin]) auto
  next
    case StartWait
    show ?thesis
    proof (cases "ps_reader s = ReadSetup")
      case True
      then show ?thesis by (intro peer_actsI [OF reader_setup]) auto
    next
      case False
      with StartWait show ?thesis by (intro peer_actsI [OF start_waited]) auto
    qed
  next
    case StartReady
    with assms show ?thesis by (intro peer_actsI [OF start_finish]) auto
  next
    case (StartDone e)
    with assms show ?thesis by simp
  qed
next
  case PeerReader
  note [simp] = peer_acts_def this
  show ?thesis
  proof (cases "ps_reader s")
    case ReadExit
    then show ?thesis by (intro peer_actsI [OF reader_defer]) auto
  next
    case ReadClose
    then show ?thesis by (intro peer_actsI [OF reader_close]) auto
  next
    case ReadNotify
    then show ?thesis by (intro peer_actsI [OF reader_notify]) auto
  next
    case ReadReset
    then show ?thesis by (intro peer_actsI [OF reader_reset]) auto
  qed (use assms in simp_all)
next
  case (PeerCloser i)
  note [simp] = peer_acts_def this
  show ?thesis
  proof (cases "ps_closer s i")
    case CloseIdle
    then show ?thesis by (intro peer_actsI [OF close_begin]) auto
  next
    case CloseWrite
    then show ?thesis by (intro peer_actsI [OF close_write]) auto
  next
    case CloseConn
    then show ?thesis by (intro peer_actsI [OF close_conn]) auto
  next
    case CloseReset
    then show ?thesis by (intro peer_actsI [OF close_reset]) auto
  qed (use assms in simp_all)
qed

interpretation peer_threads: computing_system "peer_acts th" "peer_going th" "peer_load th" "peer_ended th" "peer_outlook th"
proof unfold_locales
  fix s t
  assume "peer_going th s" and "peer_acts th s t"
  then have "peer_going th t \<and> peer_load th t < peer_load th s \<and> peer_outlook th t = peer_outlook th s"
    by (cases th) (blast dest: start_acts reader_acts closer_acts)+
  then show "peer_going th t" "peer_load th t < peer_load th s" "peer_outlook th t = peer_outlook th s" by blast+
qed (rule peer_enabled)

text \<open>The operation a thread carries out.\<close>

fun peer_call :: "peer_thread \<Rightarrow> conn \<Rightarrow> side \<Rightarrow> 'k server \<Rightarrow> (go_error option \<times> 'k server) outcome" where
  "peer_call PeerStart c side p = Ret (Server_Start (Some c) side p)"
| "peer_call PeerReader c side p = obind (reader_exit p) (\<lambda>p'. Ret (None, p'))"
| "peer_call (PeerCloser i) c side p = obind (Server_Close p) (\<lambda>p'. Ret (None, p'))"

definition peer_closed :: "'k server \<Rightarrow> bool" where
  "peer_closed p \<longleftrightarrow> (case sv_conn p of None \<Rightarrow> False | Some c \<Rightarrow> cn_closed c)"

lemma peer_outlook_call:
  assumes "peer_begins th s" and "ps_state s = sv_state p" and "sv_conn p = Some c" and "\<not> cn_closed c"
  shows "\<exists>p'. peer_call th c side p = Ret (None, p') \<and> peer_outlook th s =
    (sv_state p', ps_conn_closes s + of_bool (peer_closed p'), ps_notified s + (sv_onDisconnect p' - sv_onDisconnect p))"
proof (cases th)
  case PeerStart
  with assms show ?thesis by (auto simp: Server_Start_simps peer_closed_def)
next
  case PeerReader
  with assms show ?thesis
    by (cases "sv_state p = SStarted") (auto simp: reader_exit_simps peer_closed_def conn_Close_def after_closing_def)
next
  case (PeerCloser i)
  with assms show ?thesis
    by (cases "sv_state p = SStarted") (auto simp: Server_Close_simps peer_closed_def conn_Close_def after_closing_def)
qed

lemma peer_ended_outlook:
  "peer_ended th s \<Longrightarrow> peer_outlook th s = (ps_state s, ps_conn_closes s, ps_notified s)"
  by (cases th) auto

text \<open>C22: The interleaved model of a peer against its operations: a caller of \<^verbatim>\<open>Start\<close> or \<^verbatim>\<open>Close\<close>, or the deferred function of the
  reader, that runs undisturbed takes at most four steps, is never stuck, and when it is done the state, the closings of the
  connection and the notices to the listener are those the operation run as one call gives, and \<^verbatim>\<open>Start\<close> returns what it returns.\<close>
theorem peer_steps_alone:
  assumes "peer_begins th s" and "ps_state s = sv_state p" and "sv_conn p = Some c" and "\<not> cn_closed c"
    and "run (peer_acts th) s ss"
  shows "length ss \<le> 4 \<and> (\<exists>ts. run (peer_acts th) s (ss @ ts) \<and> peer_ended th (last (s # ss @ ts))) \<and>
    (\<exists>p'. peer_call th c side p = Ret (None, p') \<and>
      (peer_ended th (last (s # ss)) \<longrightarrow> ps_state (last (s # ss)) = sv_state p' \<and>
        ps_conn_closes (last (s # ss)) = ps_conn_closes s + of_bool (peer_closed p') \<and>
        ps_notified (last (s # ss)) = ps_notified s + (sv_onDisconnect p' - sv_onDisconnect p)))"
proof -
  note going = peer_begins_going [OF assms(1)]
  have "peer_load th s \<le> 4" using assms(1) by (cases th) auto
  then have a: "length ss \<le> 4" using peer_threads.runs_drain(1) [OF going assms(5)] by simp
  have b: "\<exists>ts. run (peer_acts th) s (ss @ ts) \<and> peer_ended th (last (s # ss @ ts))"
    by (rule peer_threads.runs_drain(2) [OF going assms(5)])
  have c: "peer_outlook th s = (ps_state (last (s # ss)), ps_conn_closes (last (s # ss)), ps_notified (last (s # ss)))"
    if "peer_ended th (last (s # ss))"
    using peer_ended_outlook [OF that] peer_threads.run_outlook [OF going assms(5)] by simp
  obtain p' where "peer_call th c side p = Ret (None, p')" "peer_outlook th s =
      (sv_state p', ps_conn_closes s + of_bool (peer_closed p'), ps_notified s + (sv_onDisconnect p' - sv_onDisconnect p))"
    using peer_outlook_call [OF assms(1-4), of side] by blast
  with a b c show ?thesis by (intro conjI exI [of _ p'] impI) (simp_all only: prod.inject)
qed

lemma peer_steps_alone_witness:
  "\<exists>ts. run (peer_acts PeerStart) peer_init ts \<and> ps_start (last (peer_init # ts)) = StartDone None \<and> ps_state (last (peer_init # ts)) = SStarted"
proof -
  let ?p = "(NewServer (id20_of 5) [])\<lparr>sv_conn := Some (open_conn [])\<rparr>"
  have p: "peer_begins PeerStart peer_init" "ps_state peer_init = sv_state ?p" "sv_conn ?p = Some (open_conn [])" "\<not> cn_closed (open_conn [])"
    by (simp_all add: peer_init_def NewServer_def)
  from peer_steps_alone [OF p, of "[]" SideServer] obtain ts where
    ts: "run (peer_acts PeerStart) peer_init ts" "peer_ended PeerStart (last (peer_init # ts))" by auto
  from peer_steps_alone [OF p ts(1), of SideServer] ts(2) obtain p' where
    "Server_Start (Some (open_conn [])) SideServer ?p = (None, p')" "ps_state (last (peer_init # ts)) = sv_state p'"
    unfolding peer_call.simps outcome.inject by blast
  moreover have "sv_state ?p = SClosed" by (simp add: NewServer_def)
  ultimately have "ps_state (last (peer_init # ts)) = SStarted" by (auto simp: Server_Start_simps)
  with ts show ?thesis unfolding peer_ended.simps by blast
qed

section \<open>A client\<close>

text \<open>The caller of \<^verbatim>\<open>Start\<close>, the deferred function of the reader, and the callers of \<^verbatim>\<open>Push\<close> and \<^verbatim>\<open>Close\<close>.\<close>

datatype client_thread = ClientStart | ClientReader | ClientPusher nat | ClientCloser nat

definition client_acts :: "client_thread \<Rightarrow> client_sys \<Rightarrow> client_sys \<Rightarrow> bool" where
  "client_acts th s t \<longleftrightarrow> client_step s t \<and> (th = ClientStart \<or> cy_open t = cy_open s) \<and>
     (cy_read t = cy_read s \<or> th = ClientReader \<or> th = ClientStart \<and> cy_read s = RdNone) \<and>
     (\<forall>i. th = ClientPusher i \<or> cy_push t i = cy_push s i) \<and> (\<forall>i. th = ClientCloser i \<or> cy_shut t i = cy_shut s i)"

fun client_begins :: "client_thread \<Rightarrow> client_sys \<Rightarrow> bool" where
  "client_begins ClientStart s \<longleftrightarrow> cy_open s = OpenIdle \<and> cy_read s = RdNone \<and> cy_state s = Closed"
| "client_begins ClientReader s \<longleftrightarrow> cy_read s = RdExit \<and> cy_conn s"
| "client_begins (ClientPusher i) s \<longleftrightarrow> cy_push s i = PushIdle"
| "client_begins (ClientCloser i) s \<longleftrightarrow> cy_shut s i = ShutIdle"

fun client_panicked :: "client_thread \<Rightarrow> client_sys \<Rightarrow> bool" where
  "client_panicked ClientStart s \<longleftrightarrow> cy_open s = OpenPanic"
| "client_panicked ClientReader s \<longleftrightarrow> False"
| "client_panicked (ClientPusher i) s \<longleftrightarrow> cy_push s i = PushPanic"
| "client_panicked (ClientCloser i) s \<longleftrightarrow> cy_shut s i = ShutPanic"

fun client_ended :: "client_thread \<Rightarrow> client_sys \<Rightarrow> bool" where
  "client_ended ClientStart s \<longleftrightarrow> cy_open s \<in> {OpenDone None, OpenPanic}"
| "client_ended ClientReader s \<longleftrightarrow> cy_read s = RdGone"
| "client_ended (ClientPusher i) s \<longleftrightarrow> (case cy_push s i of PushDone _ \<Rightarrow> True | PushPanic \<Rightarrow> True | _ \<Rightarrow> False)"
| "client_ended (ClientCloser i) s \<longleftrightarrow> cy_shut s i \<in> {ShutDone, ShutPanic}"

fun client_load :: "client_thread \<Rightarrow> client_sys \<Rightarrow> nat" where
  "client_load ClientStart s = (case cy_open s of OpenIdle \<Rightarrow> 2 | OpenLog \<Rightarrow> 1 | _ \<Rightarrow> 0)"
| "client_load ClientReader s = (case cy_read s of RdExit \<Rightarrow> 6 | RdClose \<Rightarrow> 5 | RdNotify \<Rightarrow> 4 | RdCleanConn \<Rightarrow> 3
     | RdCleanAttrs \<Rightarrow> 2 | RdReset \<Rightarrow> 1 | _ \<Rightarrow> 0)"
| "client_load (ClientPusher i) s = (case cy_push s i of PushIdle \<Rightarrow> 3 | PushDeadline \<Rightarrow> 2 | PushWrite \<Rightarrow> 1 | _ \<Rightarrow> 0)"
| "client_load (ClientCloser i) s = (case cy_shut s i of ShutIdle \<Rightarrow> 4 | ShutWrite \<Rightarrow> 3 | ShutConn \<Rightarrow> 2 | ShutReset \<Rightarrow> 1 | _ \<Rightarrow> 0)"

text \<open>The shared fields, and what they will be when the thread is done; \<open>None\<close> is a panic.\<close>

type_synonym client_fields = "lifecycle \<times> bool \<times> bool \<times> nat"

definition fields_of :: "client_sys \<Rightarrow> client_fields" where
  "fields_of s = (cy_state s, cy_conn s, cy_attrs s, cy_notified s)"

definition reset_fields :: "client_sys \<Rightarrow> client_fields" where
  "reset_fields s = (snd (cas (cy_state s) Closing Closed), cy_conn s, cy_attrs s, cy_notified s)"

fun client_outlook :: "client_thread \<Rightarrow> client_sys \<Rightarrow> client_fields option" where
  "client_outlook ClientStart s =
     (case cy_open s of
        OpenIdle \<Rightarrow> if cy_attrs s then Some (Started, cy_conn s, cy_attrs s, cy_notified s) else None
      | OpenLog \<Rightarrow> if cy_attrs s then Some (fields_of s) else None
      | OpenDone _ \<Rightarrow> Some (fields_of s)
      | OpenPanic \<Rightarrow> None)"
| "client_outlook ClientReader s = Some
     (case cy_read s of
        RdExit \<Rightarrow> if cy_state s = Started then (Closed, False, False, Suc (cy_notified s)) else fields_of s
      | RdClose \<Rightarrow> (fst (reset_fields s), False, False, Suc (cy_notified s))
      | RdNotify \<Rightarrow> (fst (reset_fields s), False, False, Suc (cy_notified s))
      | RdCleanConn \<Rightarrow> (fst (reset_fields s), False, False, cy_notified s)
      | RdCleanAttrs \<Rightarrow> (fst (reset_fields s), cy_conn s, False, cy_notified s)
      | RdReset \<Rightarrow> reset_fields s
      | _ \<Rightarrow> fields_of s)"
| "client_outlook (ClientPusher i) s =
     (case cy_push s i of
        PushIdle \<Rightarrow> if cy_state s \<noteq> Started \<or> cy_conn s then Some (fields_of s) else None
      | PushDone _ \<Rightarrow> Some (fields_of s)
      | PushPanic \<Rightarrow> None
      | _ \<Rightarrow> if cy_conn s then Some (fields_of s) else None)"
| "client_outlook (ClientCloser i) s =
     (case cy_shut s i of
        ShutIdle \<Rightarrow> if cy_state s \<noteq> Started then Some (fields_of s)
                    else if cy_conn s then Some (Closed, cy_conn s, cy_attrs s, cy_notified s) else None
      | ShutReset \<Rightarrow> Some (reset_fields s)
      | ShutDone \<Rightarrow> Some (fields_of s)
      | ShutPanic \<Rightarrow> None
      | _ \<Rightarrow> if cy_conn s then Some (reset_fields s) else None)"

fun client_going :: "client_thread \<Rightarrow> client_sys \<Rightarrow> bool" where
  "client_going ClientStart s \<longleftrightarrow> (case cy_open s of OpenIdle \<Rightarrow> cy_read s = RdNone \<and> cy_state s = Closed
     | OpenDone e \<Rightarrow> e = None \<and> cy_read s \<noteq> RdNone | _ \<Rightarrow> cy_read s \<noteq> RdNone)"
| "client_going ClientReader s \<longleftrightarrow> cy_read s \<notin> {RdNone, RdLoop}"
| "client_going _ s \<longleftrightarrow> True"

lemmas client_thread_defs = fields_of_def reset_fields_def cas_result

definition client_progress :: "client_thread \<Rightarrow> client_sys \<Rightarrow> client_sys \<Rightarrow> bool" where
  "client_progress th s t \<longleftrightarrow> client_going th t \<and> client_load th t < client_load th s \<and> client_outlook th t = client_outlook th s"

lemma client_start_acts: "client_acts ClientStart s t \<Longrightarrow> client_going ClientStart s \<Longrightarrow> client_progress ClientStart s t"
  unfolding client_acts_def client_progress_def
  by (elim conjE, erule client_step.cases) (auto simp: client_thread_defs split: if_splits)

lemma client_reader_acts: "client_acts ClientReader s t \<Longrightarrow> client_going ClientReader s \<Longrightarrow> client_progress ClientReader s t"
  unfolding client_acts_def client_progress_def
  by (elim conjE, erule client_step.cases) (auto simp: client_thread_defs split: if_splits)

lemma client_pusher_acts: "client_acts (ClientPusher i) s t \<Longrightarrow> client_progress (ClientPusher i) s t"
  unfolding client_acts_def client_progress_def
  by (elim conjE, erule client_step.cases) (auto simp: client_thread_defs split: if_splits)

lemma client_closer_acts: "client_acts (ClientCloser i) s t \<Longrightarrow> client_progress (ClientCloser i) s t"
  unfolding client_acts_def client_progress_def
  by (elim conjE, erule client_step.cases) (auto simp: client_thread_defs split: if_splits)

lemma client_actsI: "client_step s t \<Longrightarrow> (client_step s t \<Longrightarrow> client_acts th s t) \<Longrightarrow> \<exists>t. client_acts th s t"
  by blast

lemma client_start_enabled:
  assumes "client_going ClientStart s" and "\<not> client_ended ClientStart s"
  shows "\<exists>t. client_acts ClientStart s t"
proof (cases "cy_open s")
  case OpenIdle
  with assms show ?thesis by (intro client_actsI [OF open_swap [of _ Started]]) (auto simp: client_acts_def)
next
  case OpenLog
  then show ?thesis by (intro client_actsI [OF open_log]) (auto simp: client_acts_def)
qed (use assms in auto)

lemma client_reader_enabled:
  assumes "client_going ClientReader s" and "\<not> client_ended ClientReader s"
  shows "\<exists>t. client_acts ClientReader s t"
proof (cases "cy_read s")
  case RdExit
  show ?thesis
  proof (cases "cy_state s = Started")
    case True
    with RdExit show ?thesis by (intro client_actsI [OF read_won [of _ Closing]]) (auto simp: client_acts_def)
  next
    case False
    with RdExit show ?thesis by (intro client_actsI [OF read_lost [of _ "cy_state s"]]) (auto simp: client_acts_def)
  qed
next
  case RdClose
  then show ?thesis by (intro client_actsI [OF read_close]) (auto simp: client_acts_def)
next
  case RdNotify
  then show ?thesis by (intro client_actsI [OF read_notify]) (auto simp: client_acts_def)
next
  case RdCleanConn
  then show ?thesis by (intro client_actsI [OF read_clean_conn]) (auto simp: client_acts_def)
next
  case RdCleanAttrs
  then show ?thesis by (intro client_actsI [OF read_clean_attrs]) (auto simp: client_acts_def)
next
  case RdReset
  then show ?thesis by (intro client_actsI [OF read_reset]) (auto simp: client_acts_def)
qed (use assms in auto)

lemma client_pusher_enabled:
  assumes "\<not> client_ended (ClientPusher i) s"
  shows "\<exists>t. client_acts (ClientPusher i) s t"
proof (cases "cy_push s i")
  case PushIdle
  then show ?thesis by (intro client_actsI [OF push_load]) (auto simp: client_acts_def)
next
  case PushDeadline
  then show ?thesis
    by (intro client_actsI [OF push_deadline [of _ _ "if cy_conn s then PushWrite else PushPanic"]]) (auto simp: client_acts_def)
next
  case PushWrite
  then show ?thesis by (intro client_actsI [OF push_write]) (auto simp: client_acts_def)
qed (use assms in auto)

lemma client_closer_enabled:
  assumes "\<not> client_ended (ClientCloser i) s"
  shows "\<exists>t. client_acts (ClientCloser i) s t"
proof (cases "cy_shut s i")
  case ShutIdle
  show ?thesis
  proof (cases "cy_state s = Started")
    case True
    with ShutIdle show ?thesis by (intro client_actsI [OF shut_won [of _ i Closing]]) (auto simp: client_acts_def)
  next
    case False
    with ShutIdle show ?thesis by (intro client_actsI [OF shut_lost [of _ i "cy_state s"]]) (auto simp: client_acts_def)
  qed
next
  case ShutWrite
  then show ?thesis
    by (intro client_actsI [OF shut_write [of _ _ "if cy_conn s then ShutConn else ShutPanic"]]) (auto simp: client_acts_def)
next
  case ShutConn
  then show ?thesis by (intro client_actsI [OF shut_conn]) (auto simp: client_acts_def)
next
  case ShutReset
  then show ?thesis by (intro client_actsI [OF shut_reset]) (auto simp: client_acts_def)
qed (use assms in auto)

interpretation client_threads: computing_system "client_acts th" "client_going th" "client_load th" "client_ended th" "client_outlook th"
proof unfold_locales
  fix s t
  assume "client_going th s" and "client_acts th s t"
  then have "client_progress th s t"
    by (cases th) (blast dest: client_start_acts client_reader_acts client_pusher_acts client_closer_acts)+
  then show "client_going th t" "client_load th t < client_load th s" "client_outlook th t = client_outlook th s"
    by (simp_all add: client_progress_def)
next
  fix s
  assume "client_going th s" and "\<not> client_ended th s"
  then show "\<exists>t. client_acts th s t"
    by (cases th) (blast dest: client_start_enabled client_reader_enabled client_pusher_enabled client_closer_enabled)+
qed

fun client_call :: "client_thread \<Rightarrow> ws_api \<Rightarrow> byte list \<Rightarrow> 'k ws_client \<Rightarrow> 'k ws_client outcome" where
  "client_call ClientStart W payload p = obind (Client_Start p) (\<lambda>(err, p'). Ret p')"
| "client_call ClientReader W payload p = client_exit p"
| "client_call (ClientPusher i) W payload p = obind (Client_Push W payload p) (\<lambda>(err, p'). Ret p')"
| "client_call (ClientCloser i) W payload p = Client_Close W p"

definition client_view :: "'k ws_client \<Rightarrow> client_sys \<Rightarrow> bool" where
  "client_view p s \<longleftrightarrow> cy_state s = cl_state p \<and> (cy_conn s \<longleftrightarrow> cl_conn p \<noteq> None) \<and> (cy_attrs s \<longleftrightarrow> cl_Attrs p \<noteq> None)"

text \<open>The shared fields after a call, with the notices of \<open>s\<close> and those of the call.\<close>

definition fields_after :: "client_sys \<Rightarrow> 'k ws_client \<Rightarrow> 'k ws_client outcome \<Rightarrow> client_fields option" where
  "fields_after s p r = (case r of Panic _ \<Rightarrow> None | Ret p' \<Rightarrow>
     Some (cl_state p', cl_conn p' \<noteq> None, cl_Attrs p' \<noteq> None, cy_notified s + (cl_onDisconnect p' - cl_onDisconnect p)))"

lemma client_outlook_call:
  assumes "client_begins th s" and "client_view p s"
  shows "client_outlook th s = fields_after s p (client_call th W payload p)"
proof (cases th)
  case ClientStart
  with assms show ?thesis by (cases "cl_Attrs p") (auto simp: client_view_def fields_after_def fields_of_def Client_Start_def)
next
  case ClientReader
  with assms show ?thesis
    by (cases "cl_state p = Started") (auto simp: client_view_def fields_after_def fields_of_def client_exit_simps)
next
  case (ClientPusher i)
  with assms show ?thesis
    by (cases "cl_conn p")
       (auto simp: client_view_def fields_after_def fields_of_def Client_Push_def writeMessage_def client_write_def split: prod.splits)
next
  case (ClientCloser i)
  with assms show ?thesis
    by (cases "cl_conn p")
       (auto simp: client_view_def fields_after_def fields_of_def Client_Close_def Client_WriteControl_def client_write_def Let_def
          split: prod.splits)
qed

lemma client_ended_outlook:
  "client_ended th s \<Longrightarrow> client_outlook th s = (if client_panicked th s then None else Some (fields_of s))"
  by (cases th) (auto split: push_pc.splits)

text \<open>C37: The interleaved model of a client against its operations: a caller of \<^verbatim>\<open>Start\<close>, \<^verbatim>\<open>Push\<close> or \<^verbatim>\<open>Close\<close>, or the deferred function
  of the reader, that runs undisturbed takes at most six steps and is never stuck; when it is done it has panicked exactly when
  the operation run as one call panics, and otherwise the state, whether the connection and the attributes are there, and the
  notices to the gateway are those the call leaves.\<close>
theorem client_steps_alone:
  assumes "client_begins th s" and "client_view p s" and "run (client_acts th) s ss"
  shows "length ss \<le> 6 \<and> (\<exists>ts. run (client_acts th) s (ss @ ts) \<and> client_ended th (last (s # ss @ ts))) \<and>
    (client_ended th (last (s # ss)) \<longrightarrow>
      (if client_panicked th (last (s # ss)) then None else Some (fields_of (last (s # ss)))) =
        fields_after s p (client_call th W payload p))"
proof -
  have going: "client_going th s" using assms(1) by (cases th) auto
  have "client_load th s \<le> 6" using assms(1) by (cases th) auto
  then have "length ss \<le> 6" using client_threads.runs_drain(1) [OF going assms(3)] by simp
  moreover have "client_outlook th (last (s # ss)) = fields_after s p (client_call th W payload p)"
    using client_threads.run_outlook [OF going assms(3)] client_outlook_call [OF assms(1,2)] by simp
  ultimately show ?thesis
    using client_threads.runs_drain(2) [OF going assms(3)] client_ended_outlook [of th "last (s # ss)"] by (simp del: last.simps)
qed

lemma client_steps_alone_witness:
  "\<exists>ts. run (client_acts ClientStart) client_init ts \<and> fields_of (last (client_init # ts)) = (Started, True, True, 0) \<and>
    cy_open (last (client_init # ts)) = OpenDone None"
proof -
  let ?p = "(example_client [])\<lparr>cl_state := Closed\<rparr>"
  have p: "client_begins ClientStart client_init" "client_view ?p client_init"
    by (simp_all add: client_init_def client_view_def)
  from client_steps_alone [OF p, of "[]"] obtain ts where
    ts: "run (client_acts ClientStart) client_init ts" "client_ended ClientStart (last (client_init # ts))" by auto
  have "fields_after client_init ?p (client_call ClientStart plain_ws [] ?p) = Some (Started, True, True, 0)"
    by (simp add: fields_after_def Client_Start_def client_init_def)
  with client_steps_alone [OF p ts(1), of plain_ws "[]"] ts(2)
  have "\<not> client_panicked ClientStart (last (client_init # ts)) \<and> fields_of (last (client_init # ts)) = (Started, True, True, 0)"
    unfolding client_ended.simps by (auto simp del: last.simps split: if_splits)
  with ts show ?thesis by (intro exI [of _ ts]) (simp del: last.simps)
qed

end
