(* ===== verification/PeerWrites.thy ===== *)
theory PeerWrites
  imports PeerServer
begin

text \<open>
  The goroutines that write to one peer of \<^verbatim>\<open>peer/tcp_peer.go\<close>: callers of \<^verbatim>\<open>Push\<close>, the reader that answers
  pings, the heartbeat. Each takes the lock, writes its frame in pieces of any size, and lets the lock go, or fails at
  its write deadline with a part of the frame written.
\<close>

section \<open>Writers\<close>

text \<open>
  \<open>wy_todo i\<close> is what goroutine \<open>i\<close> still has to write, one frame after another; the holder of the lock has the bytes
  that are left; \<open>wy_log\<close> has every frame written by whom, and whether it was written whole.
\<close>

record write_sys =
  wy_todo :: "nat \<Rightarrow> frame list"
  wy_lock :: "(nat \<times> frame \<times> byte list) option"
  wy_out :: "byte list"
  wy_log :: "(nat \<times> frame \<times> bool) list"

definition write_init :: "(nat \<Rightarrow> frame list) \<Rightarrow> write_sys" where
  "write_init todo = \<lparr>wy_todo = todo, wy_lock = None, wy_out = [], wy_log = []\<rparr>"

inductive write_step :: "write_sys \<Rightarrow> write_sys \<Rightarrow> bool" where
  write_lock: "wy_lock s = None \<Longrightarrow> wy_todo s i = f # fs \<Longrightarrow> Frame_Encode f new_buffer = (None, bw) \<Longrightarrow>
    write_step s (s\<lparr>wy_todo := (wy_todo s)(i := fs), wy_lock := Some (i, f, wr_out bw)\<rparr>)"
| write_piece: "wy_lock s = Some (i, f, bs @ bs') \<Longrightarrow>
    write_step s (s\<lparr>wy_out := wy_out s @ bs, wy_lock := Some (i, f, bs')\<rparr>)"
| write_unlock: "wy_lock s = Some (i, f, []) \<Longrightarrow>
    write_step s (s\<lparr>wy_lock := None, wy_log := wy_log s @ [(i, f, True)]\<rparr>)"
| write_fail: "wy_lock s = Some (i, f, bs) \<Longrightarrow> bs \<noteq> [] \<Longrightarrow>
    write_step s (s\<lparr>wy_lock := None, wy_log := wy_log s @ [(i, f, False)]\<rparr>)"

text \<open>What goroutine \<open>i\<close> has written, and is writing.\<close>

definition logged :: "nat \<Rightarrow> write_sys \<Rightarrow> frame list" where
  "logged i s = map (fst \<circ> snd) (filter (\<lambda>(j, _). j = i) (wy_log s))"

definition held :: "nat \<Rightarrow> write_sys \<Rightarrow> frame list" where
  "held i s = (case wy_lock s of Some (j, f, _) \<Rightarrow> if j = i then [f] else [] | None \<Rightarrow> [])"

definition whole :: "write_sys \<Rightarrow> bool" where
  "whole s \<longleftrightarrow> list_all (\<lambda>(_, _, ok). ok) (wy_log s)"

definition log_frames :: "write_sys \<Rightarrow> frame list" where
  "log_frames s = map (fst \<circ> snd) (wy_log s)"

definition write_inv :: "(nat \<Rightarrow> frame list) \<Rightarrow> write_sys \<Rightarrow> bool" where
  "write_inv todo s \<longleftrightarrow> (\<forall>i. logged i s @ held i s @ wy_todo s i = todo i) \<and>
     (whole s \<longrightarrow> (case wy_lock s of
        None \<Rightarrow> wy_out s = concat (map ser_frame (log_frames s))
      | Some (_, f, bs) \<Rightarrow> wy_out s @ bs = concat (map ser_frame (log_frames s)) @ ser_frame f))"

lemma Frame_Encode_buffer: "Frame_Encode f new_buffer = (None, bw) \<Longrightarrow> wr_out bw = ser_frame f"
  by (auto simp: Frame_Encode_Write)

interpretation writers: invariant_system "write_init todo" write_step "write_inv todo"
proof unfold_locales
  show "write_inv todo (write_init todo)"
    by (simp add: write_inv_def write_init_def logged_def held_def log_frames_def)
next
  fix s t
  assume "write_step s t" and I: "write_inv todo s"
  then show "write_inv todo t"
  proof cases
    case (write_lock i f fs bw)
    have "logged i s @ f # fs = todo i" using I write_lock(2,3) by (auto simp: write_inv_def held_def dest: spec [of _ i])
    with I write_lock show ?thesis
      by (auto simp: write_inv_def logged_def held_def whole_def log_frames_def Frame_Encode_buffer split: if_splits)
  qed (use I in \<open>auto simp: write_inv_def logged_def held_def whole_def log_frames_def split: if_splits\<close>)
qed

abbreviation write_reaches :: "(nat \<Rightarrow> frame list) \<Rightarrow> write_sys \<Rightarrow> bool" where
  "write_reaches todo \<equiv> reachable (write_init todo) write_step"

text \<open>C18: Frames stay whole: however many goroutines write to a peer at once and however the connection cuts their writes, as long as no
  write fails the bytes are whole frames, those of each goroutine in the order it wrote them, and the other side delivers
  exactly their payloads, each once.\<close>
theorem frames_stay_whole:
  assumes "write_reaches todo s" and "whole s" and "wy_lock s = None"
  shows "wy_out s = concat (map ser_frame (log_frames s)) \<and> (\<forall>i. logged i s @ wy_todo s i = todo i) \<and>
    (\<forall>c rest. list_all loop_frame (log_frames s) \<and> conn_writable c \<and>
        rd_bytes (cn_in c) = wy_out s @ ser_frame (NewFrame OpClose []) @ rest \<longrightarrow>
      (\<exists>c'. read_frames c = (payloads (log_frames s), PeerClosed, c')))"
proof -
  have "write_inv todo s" by (rule writers.reachable_inv [OF assms(1)])
  with assms(2,3) have "wy_out s = concat (map ser_frame (log_frames s))" "\<forall>i. logged i s @ wy_todo s i = todo i"
    by (simp_all add: write_inv_def held_def)
  moreover from this(1) have "\<exists>c'. read_frames c = (payloads (log_frames s), PeerClosed, c')"
    if "list_all loop_frame (log_frames s)" "conn_writable c" "rd_bytes (cn_in c) = wy_out s @ ser_frame (NewFrame OpClose []) @ rest"
    for c rest
    using read_frames_until_close [OF that(1,2)] that(3) by metis
  ultimately show ?thesis by blast
qed

section \<open>A write that fails\<close>

lemma write_steps: "write_reaches todo s \<Longrightarrow> write_step s t \<Longrightarrow> write_reaches todo t"
  by (rule reach_step)

lemma Server_Push_state: "Server_Push b p = Ret (e, p') \<Longrightarrow> sv_state p' = sv_state p"
  by (auto simp: Server_Push_def with_conn_def split: option.splits prod.splits if_splits)

definition one_each :: "frame \<Rightarrow> frame \<Rightarrow> nat \<Rightarrow> frame list" where
  "one_each f g i = (if i = 0 then [f] else if i = 1 then [g] else [])"

text \<open>One goroutine fails after \<open>n\<close> bytes of its frame, the other one writes its frame after it.\<close>

lemma torn_then_whole:
  assumes "n < length (ser_frame f)"
  shows "\<exists>s. write_reaches (one_each f g) s \<and> wy_lock s = None \<and> wy_out s = take n (ser_frame f) @ ser_frame g"
proof -
  let ?s = "\<lambda>td l out lg. \<lparr>wy_todo = td, wy_lock = l, wy_out = out, wy_log = lg\<rparr>"
  let ?t0 = "one_each f g" and ?t1 = "(one_each f g)(0 := [])"
  let ?t2 = "?t1(1 := [])"
  have E: "Frame_Encode h new_buffer = (None, \<lparr>wr_out = ser_frame h, wr_room = None\<rparr>)" for h
    by (simp add: Frame_Encode_Write)
  have "write_reaches ?t0 (?s ?t1 (Some (0, f, ser_frame f)) [] [])"
    using write_steps [OF reach_init write_lock [OF _ _ E [of f], of _ 0 "[]"]] by (simp add: write_init_def one_each_def)
  then have "write_reaches ?t0 (?s ?t1 (Some (0, f, take n (ser_frame f) @ drop n (ser_frame f))) [] [])" by simp
  from write_steps [OF this write_piece [of _ 0 f "take n (ser_frame f)" "drop n (ser_frame f)"]]
  have "write_reaches ?t0 (?s ?t1 (Some (0, f, drop n (ser_frame f))) (take n (ser_frame f)) [])" by simp
  from write_steps [OF this write_fail [of _ 0 f "drop n (ser_frame f)"]] assms
  have "write_reaches ?t0 (?s ?t1 None (take n (ser_frame f)) [(0, f, False)])" by simp
  from write_steps [OF this write_lock [OF _ _ E [of g], of _ 1 "[]"]]
  have "write_reaches ?t0 (?s ?t2 (Some (1, g, ser_frame g @ [])) (take n (ser_frame f)) [(0, f, False)])"
    by (simp add: one_each_def)
  from write_steps [OF this write_piece [of _ 1 g "ser_frame g" "[]"]]
  have "write_reaches ?t0 (?s ?t2 (Some (1, g, [])) (take n (ser_frame f) @ ser_frame g) [(0, f, False)])" by simp
  from write_steps [OF this write_unlock [of _ 1 g]]
  have "write_reaches ?t0 (?s ?t2 None (take n (ser_frame f) @ ser_frame g) [(0, f, False), (1, g, True)])" by simp
  then show ?thesis by (intro exI conjI) (assumption, simp_all)
qed

text \<open>C19: A write that fails in the middle of a message corrupts the next ones: \<^verbatim>\<open>Push\<close> returns the error and leaves the peer started, so
  the next frame follows the torn one, and the other side delivers a message nobody pushed, the beginning of the one and as
  many bytes of the next frame, its header included, as are missing.\<close>
theorem torn_write_splices:
  assumes "fits32 m" and "k < length m" and "length m - k \<le> length (ser_frame g)"
  shows "\<exists>s. write_reaches (one_each (NewFrame OpMessage m) g) s \<and> wy_lock s = None \<and>
    (\<forall>c rest. rd_bytes (cn_in c) = wy_out s @ rest \<longrightarrow>
      (\<exists>r. read_frames c = (case read_frames (c\<lparr>cn_in := r\<rparr>) of (ms, ex, c') \<Rightarrow>
          ((take k m @ take (length m - k) (ser_frame g)) # ms, ex, c')) \<and>
        rd_bytes r = drop (length m - k) (ser_frame g) @ rest)) \<and>
    (\<forall>b p e p'. Server_Push b (p :: 'k server) = Ret (e, p') \<longrightarrow> sv_state p' = sv_state p)"
proof -
  let ?f = "NewFrame OpMessage m"
  have h: "length (fr_Header ?f) = 5" "ser_frame ?f = fr_Header ?f @ m"
    using wf_frame_header [OF wf_NewFrame [OF assms(1)]] by (simp_all add: ser_frame_def)
  have "5 + k < length (ser_frame ?f)" using h assms(2) by simp
  from torn_then_whole [OF this, of g] obtain s where
    s: "write_reaches (one_each ?f g) s" "wy_lock s = None" "wy_out s = take (5 + k) (ser_frame ?f) @ ser_frame g" by blast
  let ?x = "take k m @ take (length m - k) (ser_frame g)"
  have x: "length ?x = length m" "?x \<noteq> []" using assms(2,3) by auto
  then have "fr_Header (NewFrame OpMessage ?x) = fr_Header ?f" by (simp only: NewFrame_def x(1) frame.simps)
  then have X: "ser_frame (NewFrame OpMessage ?x) = fr_Header ?f @ ?x" by (simp add: ser_frame_def)
  have out: "wy_out s = ser_frame (NewFrame OpMessage ?x) @ drop (length m - k) (ser_frame g)"
    unfolding X s(3) h(2) using h(1) by simp
  have wf: "wf_frame (NewFrame OpMessage ?x)" using assms(1) x(1) by (simp add: fits32_def)
  have "\<exists>r. read_frames c = (case read_frames (c\<lparr>cn_in := r\<rparr>) of (ms, ex, c') \<Rightarrow> (?x # ms, ex, c')) \<and>
        rd_bytes r = drop (length m - k) (ser_frame g) @ rest"
    if "rd_bytes (cn_in c) = wy_out s @ rest" for c rest
  proof -
    have "rd_bytes (cn_in c) = ser_frame (NewFrame OpMessage ?x) @ drop (length m - k) (ser_frame g) @ rest"
      using that out by simp
    moreover have "payloads [NewFrame OpMessage ?x] = [?x]" using x(2) by (simp add: payloads_def)
    ultimately show ?thesis using read_frames_data [OF wf, of c "drop (length m - k) (ser_frame g) @ rest"] by auto
  qed
  moreover have "\<forall>b p e p'. Server_Push b (p :: 'k server) = Ret (e, p') \<longrightarrow> sv_state p' = sv_state p"
    using Server_Push_state by blast
  ultimately show ?thesis using s(1,2) by blast
qed

section \<open>Witnesses\<close>

lemma frames_stay_whole_witness:
  "\<exists>s. write_reaches (one_each (NewFrame OpMessage [7]) (NewFrame OpPing [])) s \<and> whole s \<and> wy_lock s = None \<and>
    wy_out s = ser_frame (NewFrame OpMessage [7])"
proof -
  let ?f = "NewFrame OpMessage [7]"
  let ?s = "\<lambda>l out lg. \<lparr>wy_todo = (one_each ?f (NewFrame OpPing []))(0 := []), wy_lock = l, wy_out = out, wy_log = lg\<rparr>"
  let ?r = "write_reaches (one_each ?f (NewFrame OpPing []))"
  have E: "Frame_Encode ?f new_buffer = (None, \<lparr>wr_out = ser_frame ?f, wr_room = None\<rparr>)" by (simp add: Frame_Encode_Write)
  have "?r (?s (Some (0, ?f, ser_frame ?f @ [])) [] [])"
    using write_steps [OF reach_init write_lock [OF _ _ E, of _ 0 "[]"]] by (simp add: write_init_def one_each_def)
  from write_steps [OF this write_piece [of _ 0 ?f "ser_frame ?f" "[]"]] have "?r (?s (Some (0, ?f, [])) (ser_frame ?f) [])" by simp
  from write_steps [OF this write_unlock [of _ 0 ?f]] have r: "?r (?s None (ser_frame ?f) [(0, ?f, True)])" by simp
  from frames_stay_whole [OF this] r show ?thesis by (intro exI [of _ "?s None (ser_frame ?f) [(0, ?f, True)]"]) (simp add: whole_def)
qed

lemma torn_write_splices_witness:
  "\<exists>s. write_reaches (one_each (NewFrame OpMessage [7, 8, 9]) (NewFrame OpMessage [1])) s \<and>
    (\<exists>ms ex c'. read_frames (open_conn (wy_out s @ [])) = ([7, 5, 0] # ms, ex, c'))"
proof -
  have n: "take (Suc (Suc 0)) (ser_frame (NewFrame OpMessage [1])) = [5, 0]"
    by (simp add: ser_frame_def NewFrame_def NewHeader_bytes PutUint32_def numeral_2_eq_2)
  have "fits32 [7 :: byte, 8, 9]" by (simp add: fits32_def)
  moreover have "length [7 :: byte, 8, 9] - 1 \<le> length (ser_frame (NewFrame OpMessage [1]))"
    using wf_frame_header [of "NewFrame OpMessage [1]"] by (simp add: ser_frame_def fits32_def)
  ultimately have "\<exists>s. write_reaches (one_each (NewFrame OpMessage [7, 8, 9]) (NewFrame OpMessage [1])) s \<and> wy_lock s = None \<and>
    (\<forall>c rest. rd_bytes (cn_in c) = wy_out s @ rest \<longrightarrow>
      (\<exists>r. read_frames c = (case read_frames (c\<lparr>cn_in := r\<rparr>) of (ms, ex, c') \<Rightarrow> ([7, 5, 0] # ms, ex, c')) \<and>
        rd_bytes r = drop (Suc (Suc 0)) (ser_frame (NewFrame OpMessage [1])) @ rest))"
    using torn_write_splices [of "[7, 8, 9]" 1 "NewFrame OpMessage [1]"] n by auto
  then obtain s where s: "write_reaches (one_each (NewFrame OpMessage [7, 8, 9]) (NewFrame OpMessage [1])) s"
    and r: "\<forall>c rest. rd_bytes (cn_in c) = wy_out s @ rest \<longrightarrow>
      (\<exists>r. read_frames c = (case read_frames (c\<lparr>cn_in := r\<rparr>) of (ms, ex, c') \<Rightarrow> ([7, 5, 0] # ms, ex, c')) \<and>
        rd_bytes r = drop (Suc (Suc 0)) (ser_frame (NewFrame OpMessage [1])) @ rest)" by blast
  have "rd_bytes (cn_in (open_conn (wy_out s @ []))) = wy_out s @ []" by simp
  from r [rule_format, OF this] obtain q where
    "read_frames (open_conn (wy_out s @ [])) = (case read_frames ((open_conn (wy_out s @ []))\<lparr>cn_in := q\<rparr>) of
       (ms, ex, c') \<Rightarrow> ([7, 5, 0] # ms, ex, c'))" by blast
  with s show ?thesis by (cases "read_frames ((open_conn (wy_out s @ []))\<lparr>cn_in := q\<rparr>)") auto
qed

end
