(* ===== verification/NetUtil.thy ===== *)
theory NetUtil
  imports WireCommon
begin

text \<open>
  Small functions over the operating system and over memory: the local address (\<^verbatim>\<open>peer/net.go\<close>), the
  pointer casts between strings and byte slices (\<^verbatim>\<open>peer/unsafe.go\<close>), the test for a grpc error
  (\<^verbatim>\<open>wire/grpc_helper.go\<close>), and what a listening socket gives to the accepting loops of the gateway and the
  logic server. What the system answers is an argument.
\<close>

section \<open>The local address\<close>

text \<open>An \<^verbatim>\<open>IPNet\<close> has an address of 4 or 16 bytes; any other address is not looked at.\<close>

type_synonym ip = "byte list"

datatype net_addr = IPNet ip | OtherAddr

definition To4 :: "ip \<Rightarrow> ip option" where
  "To4 a =
     (if length a = 4 then Some a
      else if length a = 16 \<and> list_all (\<lambda>b. b = 0) (take 10 a) \<and> a ! 10 = 255 \<and> a ! 11 = 255 then Some (drop 12 a)
      else None)"

definition IsLoopback :: "ip \<Rightarrow> bool" where
  "IsLoopback a \<longleftrightarrow> (case To4 a of Some a4 \<Rightarrow> a4 ! 0 = 127 | None \<Rightarrow> a = replicate 15 0 @ [1])"

definition dotted :: "ip \<Rightarrow> string" where
  "dotted a = show_nat (unat (a ! 0)) @ ''.'' @ show_nat (unat (a ! 1)) @ ''.'' @ show_nat (unat (a ! 2)) @ ''.'' @ show_nat (unat (a ! 3))"

text \<open>The text of an address the code has found to be of version 4.\<close>

fun first_ip :: "net_addr list \<Rightarrow> string" where
  "first_ip [] = []"
| "first_ip (OtherAddr # as) = first_ip as"
| "first_ip (IPNet a # as) =
     (if \<not> IsLoopback a then (case To4 a of Some a4 \<Rightarrow> dotted a4 | None \<Rightarrow> first_ip as) else first_ip as)"

definition GetLocalIP :: "go_error + net_addr list \<Rightarrow> string" where
  "GetLocalIP interface_addrs = (case interface_addrs of Inl err \<Rightarrow> [] | Inr addrs \<Rightarrow> first_ip addrs)"

text \<open>The addresses it can answer with.\<close>

definition usable :: "net_addr \<Rightarrow> ip option" where
  "usable x = (case x of OtherAddr \<Rightarrow> None | IPNet a \<Rightarrow>
     (case To4 a of None \<Rightarrow> None | Some a4 \<Rightarrow> if a4 ! 0 = 127 then None else Some a4))"

lemma show_nat_nonempty [simp]: "show_nat n \<noteq> []"
  by (subst show_nat.simps) simp

text \<open>The local address is the first usable one, in dotted form, and no text exactly when there is none.\<close>

lemma GetLocalIP_first:
  "GetLocalIP (Inr addrs) = (case List.map_filter usable addrs of [] \<Rightarrow> [] | a # _ \<Rightarrow> dotted a)"
proof -
  have "first_ip addrs = (case List.map_filter usable addrs of [] \<Rightarrow> [] | a # _ \<Rightarrow> dotted a)"
    by (induction addrs rule: first_ip.induct)
       (auto simp: map_filter_simps usable_def IsLoopback_def split: option.splits)
  then show ?thesis by (simp add: GetLocalIP_def)
qed

lemma GetLocalIP_empty: "GetLocalIP (Inr addrs) = [] \<longleftrightarrow> (\<forall>a\<in>set addrs. usable a = None)"
  by (induction addrs) (auto simp: GetLocalIP_first map_filter_simps dotted_def split: option.splits)

section \<open>Strings that share memory\<close>

text \<open>
  A slice is the address of its array with a length and a capacity, a string an address and a length. The casts
  copy these words: a slice's first two become a string, and a string's two become a slice whose
  capacity is the word that happens to follow in memory.
\<close>

type_synonym memory = "nat \<Rightarrow> byte"

record slice_header =
  sl_ptr :: nat
  sl_len :: nat
  sl_cap :: nat

record string_header =
  st_ptr :: nat
  st_len :: nat

definition BytesToString :: "slice_header \<Rightarrow> string_header" where
  "BytesToString b = \<lparr>st_ptr = sl_ptr b, st_len = sl_len b\<rparr>"

definition StringToBytes :: "nat \<Rightarrow> string_header \<Rightarrow> slice_header" where
  "StringToBytes following_word s = \<lparr>sl_ptr = st_ptr s, sl_len = st_len s, sl_cap = following_word\<rparr>"

definition slice_bytes :: "memory \<Rightarrow> slice_header \<Rightarrow> byte list" where
  "slice_bytes mem b = map mem [sl_ptr b ..< sl_ptr b + sl_len b]"

definition string_text :: "memory \<Rightarrow> string_header \<Rightarrow> string" where
  "string_text mem s = string_of (map mem [st_ptr s ..< st_ptr s + st_len s])"

text \<open>Writing \<^verbatim>\<open>b[i] = x\<close>.\<close>

definition slice_set :: "slice_header \<Rightarrow> nat \<Rightarrow> byte \<Rightarrow> memory \<Rightarrow> memory" where
  "slice_set b i x mem = mem(sl_ptr b + i := x)"

lemma BytesToString_text: "string_text mem (BytesToString b) = string_of (slice_bytes mem b)"
  by (simp add: string_text_def slice_bytes_def BytesToString_def)

lemma StringToBytes_bytes: "slice_bytes mem (StringToBytes w s) = map mem [st_ptr s ..< st_ptr s + st_len s]"
  by (simp add: slice_bytes_def StringToBytes_def)

lemma slice_bytes_set:
  "i < sl_len b \<Longrightarrow> slice_bytes (slice_set b i x mem) b = (slice_bytes mem b)[i := x]"
  by (rule nth_equalityI) (auto simp: slice_bytes_def slice_set_def nth_list_update)

text \<open>A string made by the cast is not a value: a later write to the slice changes it.\<close>

lemma cast_aliases:
  "i < sl_len b \<Longrightarrow>
   string_text (slice_set b i x mem) (BytesToString b) = string_of ((slice_bytes mem b)[i := x])"
  by (simp add: BytesToString_text slice_bytes_set)

section \<open>Errors of grpc\<close>

text \<open>\<open>from_error\<close> is \<^verbatim>\<open>status.FromError\<close>: the code of an error that carries a status.\<close>

definition IsGrpcError :: "(go_error \<Rightarrow> u32 option) \<Rightarrow> go_error option \<Rightarrow> u32 \<Rightarrow> bool" where
  "IsGrpcError from_error err code =
     (case err of
        None \<Rightarrow> False
      | Some e \<Rightarrow> (case from_error e of Some st \<Rightarrow> st = code | None \<Rightarrow> False))"

section \<open>Listening\<close>

text \<open>
  What the calls that open a listening socket answer, the certificate of the gateway among them, and how an
  accepting loop ends: the process exits, the socket could not be opened, the loop saw the closed state,
  or it is waiting for the next connection.
\<close>

record listen_api =
  li_LoadX509KeyPair :: "go_error option"
  li_TLS :: "string \<Rightarrow> go_error option"
  li_TCP :: "string \<Rightarrow> go_error option"

datatype listen_end = ProcessExit | ListenError go_error | ListenClosed | Accepting

end
