(* ===== verification/Upgrader.thy ===== *)
theory Upgrader
  imports GatewayHub NetUtil
begin

text \<open>
  How a connection becomes a client of the gateway, \<^verbatim>\<open>gateway/wss/upgrader.go\<close>. The websocket
  package's upgrader is third-party: \<open>upgrader_api\<close> says which callbacks it made while it read the
  request, whether the request was complete, and what its reply was. The version parser is a
  function that may fail. Header and query names are ASCII text.
\<close>

section \<open>The reply over the limit\<close>

definition crlf :: string where
  "crlf = [CHR 0x0D, CHR 0x0A]"

text \<open>The texts of \<^verbatim>\<open>net/http\<close> for the codes the gateway uses.\<close>

definition StatusText :: "int \<Rightarrow> string" where
  "StatusText code =
     (if code = 503 then ''Service Unavailable'' else if code = 401 then ''Unauthorized''
      else if code = 400 then ''Bad Request'' else [])"

text \<open>Both append to the text of a buffered writer.\<close>

definition writeStatusText :: "int \<Rightarrow> string \<Rightarrow> string" where
  "writeStatusText code bw =
     bw @ ''HTTP/1.1 '' @ show_int code @ '' '' @ StatusText code @ crlf @ ''Content-Type: text/plain; charset=utf-8'' @ crlf"

definition writeErrorText :: "go_error \<Rightarrow> string \<Rightarrow> string" where
  "writeErrorText err bw =
     (let body = err_text err
      in bw @ ''Content-Length: '' @ show_int (int (length body)) @ crlf @ crlf @ body)"

section \<open>Parameters of a request\<close>

definition to_upper :: "char \<Rightarrow> char" where
  "to_upper c = (let n = of_char c :: nat in if 97 \<le> n \<and> n \<le> 122 then char_of (n - 32) else c)"

definition ToUpper :: "string \<Rightarrow> string" where
  "ToUpper s = map to_upper s"

record upgrade_params =
  up_de :: string
  up_tk :: string
  up_pi :: string
  up_ve :: string
  up_addr :: string

definition no_params :: upgrade_params where
  "no_params = \<lparr>up_de = [], up_tk = [], up_pi = [], up_ve = [], up_addr = []\<rparr>"

definition set_param :: "string \<Rightarrow> string \<Rightarrow> upgrade_params \<Rightarrow> upgrade_params" where
  "set_param key val ps =
     (let k = ToUpper key
      in if k = ''DEVICE'' then ps\<lparr>up_de := val\<rparr>
         else if k = ''TOKEN'' then ps\<lparr>up_tk := val\<rparr>
         else if k = ''PING'' then ps\<lparr>up_pi := val\<rparr>
         else if k = ''VERSION'' then ps\<lparr>up_ve := val\<rparr>
         else ps)"

definition ngAddr :: "(string, bool) gomap" where
  "ngAddr = [(''X-Real-IP'', True), (''X-Forwarded-For'', True)]"

definition IsAddr :: "string \<Rightarrow> bool" where
  "IsAddr key \<longleftrightarrow> map_of ngAddr key \<noteq> None"

text \<open>A callback of the upgrader; the query of a uri that does not parse is \<^verbatim>\<open>nil\<close>, and reading it panics.\<close>

datatype callback = CbRequest "(string \<Rightarrow> string) option" | CbHeader string string

fun run_callback :: "callback \<Rightarrow> upgrade_params \<Rightarrow> upgrade_params outcome" where
  "run_callback (CbRequest None) ps = Panic NilDeref"
| "run_callback (CbRequest (Some q)) ps =
     (if q ''token'' = [] then Ret ps
      else Ret (set_param ''version'' (q ''version'') (set_param ''ping'' (q ''ping'')
             (set_param ''token'' (q ''token'') (set_param ''device'' (q ''device'') ps)))))"
| "run_callback (CbHeader k v) ps =
     (let ps1 = set_param k v ps in Ret (if IsAddr k then ps1\<lparr>up_addr := v\<rparr> else ps1))"

fun run_callbacks :: "callback list \<Rightarrow> upgrade_params \<Rightarrow> upgrade_params outcome" where
  "run_callbacks [] ps = Ret ps"
| "run_callbacks (c # cs) ps = obind (run_callback c ps) (run_callbacks cs)"

text \<open>The regular expression is a colon and one or more digits at the end of the text.\<close>

definition is_digit :: "char \<Rightarrow> bool" where
  "is_digit c \<longleftrightarrow> digit_value c \<noteq> None"

definition getIP :: "string \<Rightarrow> string" where
  "getIP remoteAddr =
     (let digits = takeWhile is_digit (rev remoteAddr);
          front = dropWhile is_digit (rev remoteAddr)
      in if digits \<noteq> [] \<and> front \<noteq> [] \<and> hd front = CHR '':'' then rev (tl front) else remoteAddr)"

section \<open>Checking the parameters\<close>

record token =
  tk_Username :: string
  tk_Device :: string

text \<open>The parser of tokens has no body yet.\<close>

definition parseToken :: "string \<Rightarrow> token option \<times> go_error option" where
  "parseToken tk = (None, None)"

text \<open>\<open>bufsize\<close> is the default buffer size of the websocket package, the one \<^verbatim>\<open>DefConf\<close> has.\<close>

definition ping_conf :: "int \<Rightarrow> int \<Rightarrow> client_conf" where
  "ping_conf bufsize ping = \<lparr>cf_PongWait = ping * 2 + 5, cf_RemotePing = True,
     cf_ReaderBufferSize = cf_ReaderBufferSize (DefConf bufsize), cf_Rate = 0\<rparr>"

definition parseParameters ::
  "(string \<Rightarrow> go_error option) \<Rightarrow> int \<Rightarrow>
   string \<Rightarrow> string \<Rightarrow> string \<Rightarrow> string \<Rightarrow> string \<Rightarrow>
   (client_attrs option \<times> client_conf option \<times> go_error option) outcome" where
  "parseParameters versions bufsize rAddr de tk pi ve =
     (if tk = [] then Ret (None, None, Some ErrTokenInvalid)
      else case parseToken tk of
        (_, Some err) \<Rightarrow> Ret (None, None, Some ErrTokenInvalid)
      | (jwt, None) \<Rightarrow>
          (if de = [] \<or> pi = [] then Ret (None, None, Some (Errorf ''parameters is not allowed empty''))
           else let device = (case map_of DeviceType_value de of None \<Rightarrow> 0 | Some d \<Rightarrow> d);
                    err = versions ve
                in case jwt of
                     None \<Rightarrow> Panic NilDeref
                   | Some t \<Rightarrow>
                       let attrs = \<lparr>at_Username = tk_Username t, at_Device = ucast device, at_RemoteIP = getIP rAddr, at_Version = ve\<rparr>;
                           ping = fst (Atoi pi)
                       in if ping < 20 \<or> 120 < ping
                          then Ret (None, None, Some (Errorf ''invalid parameter ping''))
                          else Ret (Some attrs, Some (ping_conf bufsize ping), err)))"

section \<open>Upgrading a connection\<close>

record upgrader_api =
  ug_Read :: "conn \<Rightarrow> callback list \<times> go_error option \<times> conn"
  ug_Reject :: "int \<Rightarrow> string \<Rightarrow> conn \<Rightarrow> go_error \<times> conn"
  ug_Accept :: "conn \<Rightarrow> go_error option \<times> conn"

text \<open>\<open>clients\<close> makes the client, as \<^verbatim>\<open>NewClient\<close> does with a fresh id and the option merger.\<close>

definition registClient ::
  "'k \<Rightarrow> (client_conf option \<Rightarrow> client_conf option) \<Rightarrow> conn \<Rightarrow> client_attrs option \<Rightarrow> client_conf option \<Rightarrow>
   'k gateway \<Rightarrow> (go_error option \<times> 'k gateway) outcome" where
  "registClient uuid merge conn attr conf h =
     obind (NewClient uuid merge (Some conn) conf attr) (\<lambda>client.
     obind (Client_Start client) (\<lambda>(err, client').
     if err \<noteq> None then Ret (err, h)
     else Ret (Gateway_Push (useForConnect client') h)))"

definition over_limit :: "'k gateway \<Rightarrow> bool" where
  "over_limit h \<longleftrightarrow> sint (gw_clientNum h) > sint (word_of_int (hc_MaxConnections (gw_conf h)) :: i32)"

definition upgradeConn ::
  "'k ksuid_api \<Rightarrow> upgrader_api \<Rightarrow> (string \<Rightarrow> go_error option) \<Rightarrow> int \<Rightarrow>
   (client_conf option \<Rightarrow> client_conf option) \<Rightarrow> 'k \<Rightarrow> string \<Rightarrow> conn \<Rightarrow> 'k gateway \<Rightarrow>
   (go_error option \<times> conn \<times> 'k gateway) outcome" where
  "upgradeConn K U versions bufsize merge uuid remote conn h =
     (if over_limit h
      then let wr = writeErrorText ErrMaxClientLimit (writeStatusText 503 [])
           in Ret (Some ErrMaxClientLimit, snd (conn_write (Write (bytes_of wr)) conn), h)
      else case ug_Read U conn of (callbacks, err, conn1) \<Rightarrow>
        obind (run_callbacks callbacks no_params) (\<lambda>ps.
        if err \<noteq> None then Ret (err, conn_Close conn1, h)
        else let addr = (if up_addr ps = [] then remote else up_addr ps)
             in obind (parseParameters versions bufsize addr (up_de ps) (up_tk ps) (up_pi ps) (up_ve ps))
                  (\<lambda>(attrs, conf, perr).
                   case perr of
                     Some e \<Rightarrow>
                       (case ug_Reject U (if e = ErrTokenInvalid then 401 else 400) (err_text e) conn1 of
                          (err', conn2) \<Rightarrow>
                            Ret (Some err', conn_Close conn2, metered loginFailTotal [ks_String K (gw_ID h)] MInc h))
                   | None \<Rightarrow>
                       (case ug_Accept U conn1 of
                          (Some err', conn2) \<Rightarrow> Ret (Some err', conn_Close conn2, h)
                        | (None, conn2) \<Rightarrow>
                            obind (registClient uuid merge conn2 attrs conf h) (\<lambda>(err', h').
                            Ret (err', conn2, h'))))))"

text \<open>The job the accepting loop gives to its pool for a connection.\<close>

definition serve_conn ::
  "'k ksuid_api \<Rightarrow> upgrader_api \<Rightarrow> (string \<Rightarrow> go_error option) \<Rightarrow> int \<Rightarrow>
   (client_conf option \<Rightarrow> client_conf option) \<Rightarrow> 'k \<Rightarrow> string \<Rightarrow> conn \<Rightarrow> 'k gateway \<Rightarrow> (conn \<times> 'k gateway) outcome" where
  "serve_conn K U versions bufsize merge uuid remote conn h =
     obind (upgradeConn K U versions bufsize merge uuid remote conn h) (\<lambda>(err, conn', h').
     Ret (if err \<noteq> None then conn_Close conn' else conn', h'))"

text \<open>
  The accepting loop over what \<^verbatim>\<open>Accept\<close> answers, an error or a connection with its fresh id and its
  address. An error is logged and \<^verbatim>\<open>Accept\<close> called again at once.
\<close>

fun gw_accept ::
  "'k ksuid_api \<Rightarrow> upgrader_api \<Rightarrow> (string \<Rightarrow> go_error option) \<Rightarrow> int \<Rightarrow>
   (client_conf option \<Rightarrow> client_conf option) \<Rightarrow> (go_error + 'k \<times> string \<times> conn) list \<Rightarrow> 'k gateway \<Rightarrow>
   (listen_end \<times> 'k gateway) outcome" where
  "gw_accept K U versions bufsize merge [] h = Ret (if IsOpen h then Accepting else ListenClosed, h)"
| "gw_accept K U versions bufsize merge (Inl err # conns) h =
     (if \<not> IsOpen h then Ret (ListenClosed, h) else gw_accept K U versions bufsize merge conns h)"
| "gw_accept K U versions bufsize merge (Inr (uuid, remote, conn) # conns) h =
     (if \<not> IsOpen h then Ret (ListenClosed, h)
      else obind (serve_conn K U versions bufsize merge uuid remote conn h) (\<lambda>(_, h').
           gw_accept K U versions bufsize merge conns h'))"

text \<open>
  \<^verbatim>\<open>listen\<close> opens the socket, with the certificate when the configuration asks for it; a certificate that does
  not load ends the process, so the \<^verbatim>\<open>return\<close> after it is never reached.
\<close>

definition gw_listen ::
  "'k ksuid_api \<Rightarrow> listen_api \<Rightarrow> upgrader_api \<Rightarrow> (string \<Rightarrow> go_error option) \<Rightarrow>
   int \<Rightarrow> (client_conf option \<Rightarrow> client_conf option) \<Rightarrow> (go_error + 'k \<times> string \<times> conn) list \<Rightarrow> 'k gateway \<Rightarrow>
   (listen_end \<times> 'k gateway) outcome" where
  "gw_listen K L U versions bufsize merge conns h =
     (let ssl = hc_SSL (gw_conf h); addr = hc_Listen (gw_conf h)
      in if ssl \<and> li_LoadX509KeyPair L \<noteq> None then Ret (ProcessExit, h)
         else case (if ssl then li_TLS L addr else li_TCP L addr) of
           Some err \<Rightarrow> Ret (ListenError err, h)
         | None \<Rightarrow> gw_accept K U versions bufsize merge conns h)"

text \<open>The goroutine \<^verbatim>\<open>Start\<close> spawns last: an error of \<^verbatim>\<open>listen\<close> is logged with a panic.\<close>

definition serve_gateway ::
  "'k ksuid_api \<Rightarrow> listen_api \<Rightarrow> upgrader_api \<Rightarrow> (string \<Rightarrow> go_error option) \<Rightarrow>
   int \<Rightarrow> (client_conf option \<Rightarrow> client_conf option) \<Rightarrow> (go_error + 'k \<times> string \<times> conn) list \<Rightarrow> 'k gateway \<Rightarrow>
   (listen_end \<times> 'k gateway) outcome" where
  "serve_gateway K L U versions bufsize merge conns h =
     obind (gw_listen K L U versions bufsize merge conns h) (\<lambda>(end, h').
     case end of ListenError err \<Rightarrow> Panic ExplicitPanic | _ \<Rightarrow> Ret (end, h'))"

section \<open>The address of a client\<close>

text \<open>What the regular expression says: a port at the end is cut off, anything else is left alone.\<close>

definition ip_of :: "string \<Rightarrow> string \<Rightarrow> bool" where
  "ip_of addr ip \<longleftrightarrow>
     (\<exists>ds. ds \<noteq> [] \<and> list_all is_digit ds \<and> addr = ip @ CHR '':'' # ds) \<or>
     ip = addr \<and> (\<nexists>p ds. ds \<noteq> [] \<and> list_all is_digit ds \<and> addr = p @ CHR '':'' # ds)"

lemma colon_no_digit [simp]: "\<not> is_digit CHR '':''"
  by (simp add: is_digit_def digit_value_def)

lemma getIP_port:
  assumes "ds \<noteq> []" and "list_all is_digit ds"
  shows "getIP (p @ CHR '':'' # ds) = p"
proof -
  have a: "\<And>d. d \<in> set (rev ds) \<Longrightarrow> is_digit d" using assms(2) by (simp add: list_all_iff)
  have "takeWhile is_digit (rev ds @ CHR '':'' # rev p) = rev ds"
    by (subst takeWhile_append2 [OF a]) simp_all
  moreover have "dropWhile is_digit (rev ds @ CHR '':'' # rev p) = CHR '':'' # rev p"
    by (subst dropWhile_append2 [OF a]) simp_all
  ultimately show ?thesis using assms(1) by (simp add: getIP_def Let_def)
qed

lemma getIP_cases: "getIP s = s \<or> (\<exists>p ds. ds \<noteq> [] \<and> list_all is_digit ds \<and> s = p @ CHR '':'' # ds)"
proof -
  let ?t = "takeWhile is_digit (rev s)" and ?f = "dropWhile is_digit (rev s)"
  show ?thesis
  proof (cases "?t \<noteq> [] \<and> ?f \<noteq> [] \<and> hd ?f = CHR '':''")
    case True
    then obtain f where f: "?f = CHR '':'' # f" by (cases ?f) auto
    have "rev s = ?t @ ?f" by simp
    then have "s = rev (?t @ CHR '':'' # f)" unfolding f [symmetric] by (metis rev_rev_ident)
    then have "s = rev f @ CHR '':'' # rev ?t" by simp
    moreover have "list_all is_digit (rev ?t)" by (auto simp: list_all_iff dest: set_takeWhileD)
    ultimately show ?thesis using True by (metis rev_is_Nil_conv)
  next
    case False
    then show ?thesis by (auto simp: getIP_def Let_def)
  qed
qed

text \<open>C32: The scan from the end computes what the regular expression asks for: the address without its port, and only that.\<close>
theorem getIP_is_regexp: "getIP addr = ip \<longleftrightarrow> ip_of addr ip"
proof
  assume "getIP addr = ip"
  then show "ip_of addr ip"
    using getIP_cases [of addr] getIP_port by (auto simp: ip_of_def)
next
  assume "ip_of addr ip"
  then show "getIP addr = ip"
    using getIP_cases [of addr] getIP_port by (auto simp: ip_of_def)
qed

section \<open>Who is let in\<close>

text \<open>A gateway over its limit answers with a complete HTTP response, status 503 with the reason and its length, in one write of
  its 200-byte buffer, and takes nothing from the connection and changes nothing.\<close>
theorem limit_reply:
  assumes "over_limit h" and "conn_writable conn"
  shows "\<exists>bs. upgradeConn K U versions bufsize merge uuid remote conn h = Ret (Some ErrMaxClientLimit, sent (bytes_of bs) conn, h) \<and>
    bs = ''HTTP/1.1 503 Service Unavailable'' @ crlf @ ''Content-Type: text/plain; charset=utf-8'' @ crlf @
      ''Content-Length: 16'' @ crlf @ crlf @ ''over max clients'' \<and> length bs < 200"
proof -
  have n: "show_int 503 = ''503''" "show_int 16 = ''16''" by code_simp+
  show ?thesis
    using assms
    by (simp add: upgradeConn_def conn_write_sent writeErrorText_def writeStatusText_def StatusText_def n crlf_def Let_def)
qed

text \<open>The limit counts clients: a gateway that has kicked nobody out refuses a connection exactly when it holds more clients than
  \<^verbatim>\<open>MaxConnections\<close>, so it lets in one more than that number.\<close>
theorem limit_counts_clients:
  assumes "count_ok h" and "gw_clients h = Some m" and "length m < 2 ^ 31"
    and "0 \<le> hc_MaxConnections (gw_conf h)" and "hc_MaxConnections (gw_conf h) < 2 ^ 31"
  shows "over_limit h \<longleftrightarrow> hc_MaxConnections (gw_conf h) < int (length m)"
proof -
  have s: "sint (word_of_int n :: i32) = n" if "0 \<le> n" "n < 2 ^ 31" for n
    using that by (subst sint_sbintrunc') (simp add: signed_take_bit_int_eq_self)
  have "gw_clientNum h = of_nat (length m)" using assms(1,2) by (simp add: count_ok_def)
  then have "gw_clientNum h = word_of_int (int (length m))" by simp
  then show ?thesis using s [of "int (length m)"] s [of "hc_MaxConnections (gw_conf h)"] assms(3-5)
    by (simp add: over_limit_def)
qed

lemma run_callbacks_panic: "run_callbacks cs ps = Panic p \<Longrightarrow> p = NilDeref"
proof (induction cs arbitrary: ps)
  case (Cons c cs)
  have "run_callback c ps = Panic q \<Longrightarrow> q = NilDeref" for q
    by (cases "(c, ps)" rule: run_callback.cases) (auto simp: Let_def split: if_splits)
  with Cons show ?case by (cases "run_callback c ps") auto
qed simp

lemma parse_stub:
  "parseParameters versions bufsize addr de tk pi ve =
     (if tk = [] then Ret (None, None, Some ErrTokenInvalid)
      else if de = [] \<or> pi = [] then Ret (None, None, Some (Errorf ''parameters is not allowed empty''))
      else Panic NilDeref)"
  by (simp add: parseParameters_def parseToken_def Let_def)

lemma serve_admits_nobody:
  assumes "serve_conn K U versions bufsize merge uuid remote conn h = Ret (conn', h')"
  shows "(\<exists>c. conn' = conn_Close c) \<and> gw_clients h' = gw_clients h \<and> gw_clientNum h' = gw_clientNum h \<and>
    gw_enqueue h' = gw_enqueue h \<and> gw_state h' = gw_state h"
proof (cases "over_limit h")
  case True
  with assms show ?thesis by (auto simp: serve_conn_def upgradeConn_def Let_def)
next
  case over: False
  obtain cs e c1 where r: "ug_Read U conn = (cs, e, c1)" by (cases "ug_Read U conn")
  show ?thesis
  proof (cases "run_callbacks cs no_params")
    case (Panic q)
    with assms r over show ?thesis by (simp add: serve_conn_def upgradeConn_def)
  next
    case (Ret ps)
    consider "e \<noteq> None" | "e = None" "up_tk ps = []" | "e = None" "up_tk ps \<noteq> []" "up_de ps = [] \<or> up_pi ps = []"
      | "e = None" "up_tk ps \<noteq> []" "\<not> (up_de ps = [] \<or> up_pi ps = [])" by blast
    then show ?thesis
      using assms r over Ret by cases (auto simp: serve_conn_def upgradeConn_def parse_stub Let_def split: prod.splits)
  qed
qed

lemma serve_panics:
  assumes "serve_conn K U versions bufsize merge uuid remote conn h = Panic p"
  shows "p = NilDeref"
proof -
  obtain cs e c1 where r: "ug_Read U conn = (cs, e, c1)" by (cases "ug_Read U conn")
  show ?thesis
  proof (cases "run_callbacks cs no_params")
    case (Panic q)
    with assms r run_callbacks_panic [OF Panic] show ?thesis
      by (auto simp: serve_conn_def upgradeConn_def Let_def split: if_splits)
  next
    case (Ret ps)
    with assms r show ?thesis
      by (auto simp: serve_conn_def upgradeConn_def parse_stub Let_def split: if_splits prod.splits)
  qed
qed

text \<open>C29: The parser of tokens is a stub that answers neither a token nor an error, so nobody is ever let in: over any list of
  connections and failed accepts the gateway keeps its clients, their number and its queue of connects as they
  are and each connection it answers ends closed; the only other way a connection can go is that its job dereferences nil.\<close>
theorem nobody_admitted:
  "(case gw_accept K U versions bufsize merge conns h of
      Ret (e, h') \<Rightarrow> gw_clients h' = gw_clients h \<and> gw_clientNum h' = gw_clientNum h \<and> gw_enqueue h' = gw_enqueue h
    | Panic p \<Rightarrow> p = NilDeref) \<and>
   (case serve_conn K U versions bufsize merge uuid remote conn h of
      Ret (conn', h') \<Rightarrow> \<exists>c. conn' = conn_Close c
    | Panic p \<Rightarrow> p = NilDeref)"
proof
  show "case gw_accept K U versions bufsize merge conns h of
      Ret (e, h') \<Rightarrow> gw_clients h' = gw_clients h \<and> gw_clientNum h' = gw_clientNum h \<and> gw_enqueue h' = gw_enqueue h
    | Panic p \<Rightarrow> p = NilDeref"
  proof (induction conns arbitrary: h rule: list.induct)
    case (Cons a conns)
    show ?case
    proof (cases a)
      case (Inr b)
      obtain k rem c where b: "b = (k, rem, c)" by (cases b)
      show ?thesis
      proof (cases "serve_conn K U versions bufsize merge k rem c h")
        case (Ret x)
        obtain c' h' where x: "x = (c', h')" by (cases x)
        from serve_admits_nobody [OF Ret [unfolded x]] Cons.IH [of h'] Ret x Inr b show ?thesis
          by (auto split: outcome.splits)
      next
        case (Panic p)
        with serve_panics [OF Panic] Inr b show ?thesis by simp
      qed
    qed (use Cons.IH in simp)
  qed simp
  show "case serve_conn K U versions bufsize merge uuid remote conn h of
      Ret (conn', h') \<Rightarrow> \<exists>c. conn' = conn_Close c
    | Panic p \<Rightarrow> p = NilDeref"
    using serve_admits_nobody serve_panics by (fastforce split: outcome.split)
qed


text \<open>The configuration \<^verbatim>\<open>parseParameters\<close> makes leaves the rate at zero; if no limiter can be made with it, the reader of a client
  that runs with it panics at once.\<close>
theorem zero_rate_panics:
  assumes "cl_conf client = Some (ping_conf bufsize ping)" and "bucket 0 = None"
  shows "Client_readHandler W bucket fuel client = Some (Panic ExplicitPanic)"
  using assms by (auto simp: Client_readHandler_def ping_conf_def)


section \<open>Witnesses\<close>

definition example_request :: "callback list" where
  "example_request = [CbRequest (Some (\<lambda>_. [])), CbHeader ''Token'' ''t'', CbHeader ''Device'' ''PC'', CbHeader ''ping'' ''30'',
     CbHeader ''VERSION'' ''1.0'', CbHeader ''X-Real-IP'' ''10.0.0.7:51000'']"



definition example_ug :: upgrader_api where
  "example_ug = \<lparr>ug_Read = (\<lambda>c. (example_request, None, c)), ug_Reject = (\<lambda>code reason c. (ErrUpgrade, c)), ug_Accept = (\<lambda>c. (None, c))\<rparr>"


lemma limit_reply_witness:
  "\<exists>bs. upgradeConn id20_api example_ug (\<lambda>_. None) 4096 id (id20_of 3) [] (open_conn []) (example_gateway\<lparr>gw_clientNum := 3\<rparr>) =
    Ret (Some ErrMaxClientLimit, sent (bytes_of bs) (open_conn []), example_gateway\<lparr>gw_clientNum := 3\<rparr>)"
proof -
  have "over_limit (example_gateway\<lparr>gw_clientNum := 3\<rparr>)"
    by (simp add: over_limit_def example_gateway_def NewGateway_def example_hub_conf_def)
  from limit_reply [OF this conn_writable_open] show ?thesis by blast
qed

lemma limit_counts_clients_witness: "over_limit example_gateway \<longleftrightarrow> 2 < (1 :: int)"
  using limit_counts_clients [OF example_count_ok example_gateway_simps(1)]
  by (simp add: example_gateway_def NewGateway_def example_hub_conf_def)


lemma zero_rate_panics_witness:
  "Client_readHandler plain_ws (\<lambda>n. if n = 0 then None else Some (\<lambda>_. False)) 5 ((example_client [])\<lparr>cl_conf := Some (ping_conf 4096 30)\<rparr>) =
    Some (Panic ExplicitPanic)"
  by (rule zero_rate_panics) simp_all

end
