(* ===== verification/Heartbeat.thy ===== *)
theory Heartbeat
  imports Upgrader
begin

text \<open>
  Time: the read deadlines of \<^verbatim>\<open>peer/tcp_peer.go\<close> and \<^verbatim>\<open>peer/ws_client.go\<close>, and the pings that keep moving
  them. PeerServer and WsClient say what the readers do with the bytes; here a frame carries the times at
  which the reader gets its header and its payload, and a read past the deadline fails. Times are in
  nanoseconds, as in Go, and the connections take every write.
\<close>

definition second :: int where
  "second = 1000000000"

lemma second_pos [simp]: "0 < second" "0 \<le> second" "0 \<le> n * second \<longleftrightarrow> 0 \<le> n" "m * second \<le> n * second \<longleftrightarrow> m \<le> n"
  by (simp_all add: second_def)

text \<open>A deadline that is not set never passes; what arrives at the deadline itself is still read.\<close>

definition expired :: "int option \<Rightarrow> int \<Rightarrow> bool" where
  "expired deadline t \<longleftrightarrow> (case deadline of None \<Rightarrow> False | Some d \<Rightarrow> d < t)"

lemma expired_simps [simp]: "\<not> expired None t" "expired (Some d) t \<longleftrightarrow> d < t"
  by (simp_all add: expired_def)

section \<open>Tcp peers\<close>

record timed_frame =
  tf_head :: int
  tf_body :: int
  tf_frame :: frame

text \<open>A reader of a websocket client may also panic, over a payload it throws away.\<close>

datatype timed_end = TimedOut "int option" | ClosedByPeer | StillReading "int option" | ReaderPanics

text \<open>
  The loop of \<^verbatim>\<open>readHandler\<close>: only a ping moves the deadline. It ends with the deadline it died at, or is
  still waiting for the next frame under the one it shows.
\<close>

fun timed_reader :: "server_conf \<Rightarrow> int option \<Rightarrow> timed_frame list \<Rightarrow> byte list list \<times> timed_end" where
  "timed_reader cf d [] = ([], StillReading d)"
| "timed_reader cf d (f # fs) =
     (let op = GetOpCode (fr_Header (tf_frame f)) in
      if expired d (tf_head f) then ([], TimedOut d)
      else if op = OpClose then ([], ClosedByPeer)
      else if op = OpPing then timed_reader cf (Some (tf_head f + sc_PongWait cf * second)) fs
      else if op = OpPong then timed_reader cf d fs
      else if PGetPayloadLen (fr_Header (tf_frame f)) = 0 then timed_reader cf d fs
      else if expired d (tf_body f) then ([], TimedOut d)
      else case timed_reader cf d fs of (ms, end) \<Rightarrow> (fr_Payload (tf_frame f) # ms, end))"

text \<open>The server side starts with a deadline, the client side without one.\<close>

definition start_deadline :: "server_conf \<Rightarrow> side \<Rightarrow> int \<Rightarrow> int option" where
  "start_deadline cf side now = (if side = SideServer then Some (now + sc_PongWait cf * second) else None)"

definition timed_readHandler :: "server_conf \<Rightarrow> side \<Rightarrow> int \<Rightarrow> timed_frame list \<Rightarrow> byte list list \<times> timed_end" where
  "timed_readHandler cf side now fs = timed_reader cf (start_deadline cf side now) fs"

text \<open>Frames in the order of time, and when the pings among them arrive.\<close>

fun in_time :: "int \<Rightarrow> timed_frame list \<Rightarrow> bool" where
  "in_time t [] = True"
| "in_time t (f # fs) \<longleftrightarrow> t \<le> tf_head f \<and> tf_head f \<le> tf_body f \<and>
     (fr_Payload (tf_frame f) = [] \<longrightarrow> tf_body f = tf_head f) \<and> in_time (tf_body f) fs"

definition ping_times :: "timed_frame list \<Rightarrow> int list" where
  "ping_times fs = map tf_head (filter (\<lambda>f. is_ping (tf_frame f)) fs)"

lemma ping_times_simps [simp]:
  "ping_times [] = []"
  "ping_times (f # fs) = (if is_ping (tf_frame f) then tf_head f # ping_times fs else ping_times fs)"
  by (simp_all add: ping_times_def)

lemma in_time_mono: "in_time t fs \<Longrightarrow> s \<le> t \<Longrightarrow> in_time s fs"
  by (cases fs) auto

lemma in_time_after: "in_time t fs \<Longrightarrow> f \<in> set fs \<Longrightarrow> t \<le> tf_head f"
  by (induction fs arbitrary: t) fastforce+

lemma in_time_pings: "in_time t fs \<Longrightarrow> p \<in> set (ping_times fs) \<Longrightarrow> t \<le> p"
  by (auto simp: ping_times_def dest: in_time_after)

text \<open>Without timeouts the timed reader delivers what the untimed one does.\<close>

lemma timed_reader_frame:
  assumes "loop_frame (tf_frame f)" and "\<not> expired d (tf_head f)" and "is_ping (tf_frame f) \<or> \<not> expired d (tf_body f)"
  shows "timed_reader cf d (f # fs) =
    (case timed_reader cf (if is_ping (tf_frame f) then Some (tf_head f + sc_PongWait cf * second) else d) fs of
       (ms, end) \<Rightarrow> (payloads [tf_frame f] @ ms, end))"
proof -
  have "PGetPayloadLen (fr_Header (tf_frame f)) = 0 \<longleftrightarrow> fr_Payload (tf_frame f) = []"
    using assms(1) by (auto simp: loop_frame_def wf_frame_def unsigned_eq_0_iff simp flip: length_0_conv)
  with assms show ?thesis by (auto simp: loop_frame_def is_ping_def payloads_def Let_def split: prod.splits)
qed

text \<open>
  Pings that are due every \<open>P\<close> after \<open>base\<close> and come at most \<open>D\<close> late. \<open>p\<close> is when the last one before came.
\<close>

definition due :: "int \<Rightarrow> int \<Rightarrow> int \<Rightarrow> int list \<Rightarrow> bool" where
  "due base P D ps \<longleftrightarrow> (\<forall>i<length ps. base + (int i + 1) * P \<le> ps ! i \<and> ps ! i \<le> base + (int i + 1) * P + D)"

lemma due_Cons: "due base P D (t # ps) \<longleftrightarrow> base + P \<le> t \<and> t \<le> base + P + D \<and> due (base + P) P D ps"
proof -
  have "(\<forall>i<length (t # ps). Q i ((t # ps) ! i)) \<longleftrightarrow> Q 0 t \<and> (\<forall>i<length ps. Q (Suc i) (ps ! i))"
    for Q :: "nat \<Rightarrow> int \<Rightarrow> bool"
    by (auto simp: less_Suc_eq_0_disj)
  from this [of "\<lambda>i x. base + (int i + 1) * P \<le> x \<and> x \<le> base + (int i + 1) * P + D"] show ?thesis
    by (simp add: due_def algebra_simps)
qed

lemma pinged_reader:
  assumes "list_all (\<lambda>f. loop_frame (tf_frame f)) fs" and "in_time now fs" and "base \<le> p"
    and "due base P D (ping_times fs)" and "P + D \<le> sc_PongWait cf * second"
    and "\<forall>f\<in>set fs. tf_body f \<le> base + int (length (ping_times fs)) * P + sc_PongWait cf * second"
  shows "\<exists>d. timed_reader cf (Some (p + sc_PongWait cf * second)) fs = (payloads (map tf_frame fs), StillReading (Some d)) \<and>
    base + int (length (ping_times fs)) * P + sc_PongWait cf * second \<le> d"
  using assms(1-4,6)
proof (induction fs arbitrary: now base p)
  case Nil
  then show ?case by (simp add: payloads_def)
next
  case (Cons f fs)
  let ?W = "sc_PongWait cf * second"
  show ?case
  proof (cases "is_ping (tf_frame f)")
    case True
    with Cons.prems(4) have t: "base + P \<le> tf_head f" "tf_head f \<le> base + P + D" "due (base + P) P D (ping_times fs)"
      by (simp_all add: due_Cons)
    have "\<forall>g\<in>set fs. tf_body g \<le> base + P + int (length (ping_times fs)) * P + ?W"
      using Cons.prems(5) True by (simp add: algebra_simps)
    from Cons.IH [OF _ _ t(1,3) this, of "tf_body f"] Cons.prems(1,2) obtain d where
      "timed_reader cf (Some (tf_head f + ?W)) fs = (payloads (map tf_frame fs), StillReading (Some d))"
      "base + P + int (length (ping_times fs)) * P + ?W \<le> d" by auto
    moreover have "\<not> expired (Some (p + ?W)) (tf_head f)" using t(2) assms(5) Cons.prems(3) by simp
    ultimately show ?thesis using Cons.prems(1) True
      by (subst timed_reader_frame) (simp_all add: payloads_def algebra_simps)
  next
    case False
    have "tf_body f \<le> base + ?W"
    proof (cases "ping_times fs")
      case Nil
      with Cons.prems(5) False show ?thesis by simp
    next
      case (Cons t ts)
      have "tf_body f \<le> t" using in_time_pings [of "tf_body f" fs t] Cons.prems(2) Cons by simp
      moreover have "t \<le> base + P + D" using Cons.prems(4) False Cons by (simp add: due_Cons)
      ultimately show ?thesis using assms(5) by simp
    qed
    with Cons.prems(2,3) have "\<not> expired (Some (p + ?W)) (tf_head f)" "\<not> expired (Some (p + ?W)) (tf_body f)" by simp_all
    moreover have "\<forall>g\<in>set fs. tf_body g \<le> base + int (length (ping_times fs)) * P + ?W"
      using Cons.prems(5) False by simp
    with Cons.IH [of "tf_body f" base p] Cons.prems False obtain d where
      "timed_reader cf (Some (p + ?W)) fs = (payloads (map tf_frame fs), StillReading (Some d))"
      "base + int (length (ping_times fs)) * P + ?W \<le> d" by auto
    ultimately show ?thesis using Cons.prems(1) False
      by (subst timed_reader_frame) (simp_all add: payloads_def)
  qed
qed

text \<open>What the ticker of the other side writes: a ping frame at every tick, as long as the writes succeed.\<close>

lemma heartbeat_sends:
  "running p c \<Longrightarrow> heartbeat n p =
    Ret (p\<lparr>sv_conn := Some (sent (concat (replicate n (ser_frame (NewFrame OpPing [])))) c)\<rparr>)"
proof (induction n arbitrary: p c)
  case 0
  then show ?case by (cases p) (simp add: running_def)
next
  case (Suc n)
  let ?c = "sent (ser_frame (NewFrame OpPing [])) c"
  have "Server_WriteControl OpPing [] p = Ret (None, p\<lparr>sv_conn := Some ?c\<rparr>)"
    using Suc.prems by (simp add: Server_WriteControl_def running_def with_conn_def WriteControl_sent)
  moreover have "running (p\<lparr>sv_conn := Some ?c\<rparr>) ?c" using Suc.prems by (simp add: running_def)
  ultimately show ?case using Suc.IH by (simp add: sent_def)
qed

text \<open>C21: The heartbeat keeps a healthy connection: as long as the pings that a client sends every \<^verbatim>\<open>PingPeriod\<close> come late by no more
  than the difference to \<^verbatim>\<open>PongWait\<close>, 20 seconds by default, the reader of the server side never times out, whatever other frames
  come between them: it delivers every message and is still reading, under a deadline at least one \<^verbatim>\<open>PongWait\<close> after the
  last ping was due.\<close>
theorem heartbeat_keeps_connection:
  assumes "list_all (\<lambda>f. loop_frame (tf_frame f)) fs" and "in_time now fs" and "base \<le> now"
    and "due base (sc_PingPeriod cf * second) D (ping_times fs)"
    and "D \<le> (sc_PongWait cf - sc_PingPeriod cf) * second"
    and "\<forall>f\<in>set fs. tf_body f \<le> base + (int (length (ping_times fs)) * sc_PingPeriod cf + sc_PongWait cf) * second"
  shows "\<exists>d. timed_readHandler cf SideServer now fs = (payloads (map tf_frame fs), StillReading (Some d)) \<and>
    base + (int (length (ping_times fs)) * sc_PingPeriod cf + sc_PongWait cf) * second \<le> d"
proof -
  have "sc_PingPeriod cf * second + D \<le> sc_PongWait cf * second" using assms(5) by (simp add: algebra_simps)
  from pinged_reader [OF assms(1-4) this] assms(6) show ?thesis
    by (simp add: timed_readHandler_def start_deadline_def algebra_simps)
qed

definition example_beat :: "timed_frame list" where
  "example_beat = [\<lparr>tf_head = 30 * second, tf_body = 30 * second, tf_frame = NewFrame OpPing []\<rparr>,
     \<lparr>tf_head = 31 * second, tf_body = 40 * second, tf_frame = NewFrame OpMessage [7]\<rparr>,
     \<lparr>tf_head = 50 * second, tf_body = 50 * second, tf_frame = NewFrame OpPing []\<rparr>]"

lemma heartbeat_keeps_connection_witness:
  "\<exists>d. timed_readHandler defServerConf SideServer 0 example_beat = ([[7]], StillReading (Some d)) \<and> 65 * second \<le> d"
proof -
  have "list_all (\<lambda>f. loop_frame (tf_frame f)) example_beat" "in_time 0 example_beat"
    by (simp_all add: example_beat_def loop_frame_def fits32_def second_def)
  moreover have t: "ping_times example_beat = [30 * second, 50 * second]"
    by (simp add: example_beat_def is_ping_def)
  moreover have n: "int (length (ping_times example_beat)) * sc_PingPeriod defServerConf + sc_PongWait defServerConf = 65"
    by (simp add: t defServerConf_def)
  moreover have "due 0 (sc_PingPeriod defServerConf * second) (20 * second) (ping_times example_beat)"
    unfolding t by (simp add: due_Cons defServerConf_def) (simp add: due_def second_def)
  moreover have "\<forall>f\<in>set example_beat. tf_body f \<le> 0 + 65 * second" by (simp add: example_beat_def)
  moreover have "20 * second \<le> (sc_PongWait defServerConf - sc_PingPeriod defServerConf) * second"
    by (simp add: defServerConf_def)
  moreover have "payloads (map tf_frame example_beat) = [[7]]" by (simp add: example_beat_def payloads_def)
  ultimately show ?thesis
    using heartbeat_keeps_connection [of example_beat 0 0 defServerConf "20 * second"] by simp
qed

text \<open>Without pings the deadline of the start stays, whatever messages come; the client side has none to begin with.\<close>

lemma no_ping_reader:
  assumes "list_all (\<lambda>f. loop_frame (tf_frame f)) fs" and "in_time now fs" and "ping_times fs = []"
  shows "timed_reader cf (Some d) fs =
     (payloads (map tf_frame (takeWhile (\<lambda>f. tf_body f \<le> d) fs)),
      if \<forall>f\<in>set fs. tf_body f \<le> d then StillReading (Some d) else TimedOut (Some d))"
    and "timed_reader cf None fs = (payloads (map tf_frame fs), StillReading None)"
  using assms
proof (induction fs arbitrary: now)
  case Nil
  { case 1 then show ?case by (simp add: payloads_def) }
  { case 2 then show ?case by (simp add: payloads_def) }
next
  case (Cons f fs)
  { case 1
    then have p: "\<not> is_ping (tf_frame f)" "loop_frame (tf_frame f)" and n: "in_time (tf_body f) fs" "ping_times fs = []"
      "list_all (\<lambda>f. loop_frame (tf_frame f)) fs" by (auto split: if_splits)
    show ?case
    proof (cases "tf_body f \<le> d")
      case True
      then have "\<not> expired (Some d) (tf_head f)" "\<not> expired (Some d) (tf_body f)" using 1 by simp_all
      with p True Cons.IH(1) [OF n(3,1,2)] show ?thesis
        by (subst timed_reader_frame) (simp_all add: payloads_def)
    next
      case False
      have "timed_reader cf (Some d) (f # fs) = ([], TimedOut (Some d))"
      proof (cases "fr_Payload (tf_frame f) = []")
        case True
        with False 1 show ?thesis by (simp add: Let_def)
      next
        case data: False
        then have "PGetPayloadLen (fr_Header (tf_frame f)) \<noteq> 0" "GetOpCode (fr_Header (tf_frame f)) \<noteq> OpClose"
          "GetOpCode (fr_Header (tf_frame f)) \<noteq> OpPing" "GetOpCode (fr_Header (tf_frame f)) \<noteq> OpPong"
          using p by (auto simp: loop_frame_def wf_frame_def)
        with False show ?thesis by (simp add: Let_def)
      qed
      with False show ?thesis by (simp add: payloads_def)
    qed }
  { case 2
    then have p: "\<not> is_ping (tf_frame f)" "loop_frame (tf_frame f)" and n: "in_time (tf_body f) fs" "ping_times fs = []"
      "list_all (\<lambda>f. loop_frame (tf_frame f)) fs" by (auto split: if_splits)
    with Cons.IH(2) [OF n(3,1,2)] show ?case
      by (subst timed_reader_frame) (simp_all add: payloads_def) }
qed

text \<open>Only pings count: a gateway that sends messages but no ping is dropped one \<^verbatim>\<open>PongWait\<close> after the start, with the messages read by then
  delivered and the rest lost; and a logic server that falls silent is never noticed by the reader of the gateway, which has
  no deadline.\<close>
theorem messages_do_not_count:
  assumes "list_all (\<lambda>f. loop_frame (tf_frame f)) fs" and "in_time now fs" and "ping_times fs = []"
    and "f \<in> set fs" and "now + sc_PongWait cf * second < tf_body f"
  shows "timed_readHandler cf SideServer now fs =
      (payloads (map tf_frame (takeWhile (\<lambda>f. tf_body f \<le> now + sc_PongWait cf * second) fs)),
       TimedOut (Some (now + sc_PongWait cf * second))) \<and>
    timed_readHandler cf SideClient now fs = (payloads (map tf_frame fs), StillReading None)"
proof -
  have "\<not> (\<forall>f\<in>set fs. tf_body f \<le> now + sc_PongWait cf * second)" using assms(4,5) by (meson not_le)
  with no_ping_reader [OF assms(1-3)] show ?thesis by (simp add: timed_readHandler_def start_deadline_def)
qed

lemma messages_do_not_count_witness:
  "timed_readHandler defServerConf SideServer 0
     [\<lparr>tf_head = 30 * second, tf_body = 30 * second, tf_frame = NewFrame OpMessage [7]\<rparr>,
      \<lparr>tf_head = 34 * second, tf_body = 36 * second, tf_frame = NewFrame OpMessage [8]\<rparr>] =
   ([[7]], TimedOut (Some (35 * second)))"
proof -
  let ?f = "\<lparr>tf_head = 30 * second, tf_body = 30 * second, tf_frame = NewFrame OpMessage [7]\<rparr>"
  let ?g = "\<lparr>tf_head = 34 * second, tf_body = 36 * second, tf_frame = NewFrame OpMessage [8]\<rparr>"
  have w: "sc_PongWait defServerConf = 35" by (simp add: defServerConf_def)
  have "list_all (\<lambda>f. loop_frame (tf_frame f)) [?f, ?g]" "in_time 0 [?f, ?g]" "ping_times [?f, ?g] = []"
    by (simp_all add: loop_frame_def fits32_def second_def is_ping_def)
  from messages_do_not_count [OF this, of ?g defServerConf] show ?thesis
    by (simp add: w payloads_def second_def)
qed

section \<open>Heartbeats over reconnections\<close>

text \<open>
  \<^verbatim>\<open>Start\<close> spawns a heartbeat on the client side, and it ends only when a write fails: at a tick between the loss of
  a connection and the next \<^verbatim>\<open>Restart\<close>. A heartbeat that started at \<open>s\<close> ticks at \<open>s + P\<close>, \<open>s + 2 * P\<close> and so on;
  \<open>heartbeats\<close> is the starts of those that run after the outages, each from \<open>down\<close> to \<open>up\<close>.
\<close>

definition ticks_within :: "int \<Rightarrow> int \<Rightarrow> int \<Rightarrow> int \<Rightarrow> bool" where
  "ticks_within P s down up \<longleftrightarrow> (down - s) div P < (up - s) div P"

fun heartbeats :: "int \<Rightarrow> int list \<Rightarrow> (int \<times> int) list \<Rightarrow> int list" where
  "heartbeats P ss [] = ss"
| "heartbeats P ss ((down, up) # os) = heartbeats P (filter (\<lambda>s. \<not> ticks_within P s down up) ss @ [up]) os"

lemma ticks_within_iff:
  assumes "0 < P"
  shows "ticks_within P s down up \<longleftrightarrow> (\<exists>k. down < s + k * P \<and> s + k * P \<le> up)"
proof
  assume t: "ticks_within P s down up"
  let ?k = "(up - s) div P"
  have "?k * P \<le> up - s" using pos_mod_sign [OF assms, of "up - s"] div_mult_mod_eq [of "up - s" P] by linarith
  moreover have "down - s < ((down - s) div P + 1) * P"
    using pos_mod_bound [OF assms, of "down - s"] div_mult_mod_eq [of "down - s" P] by (simp only: distrib_right mult_1)
  moreover have "((down - s) div P + 1) * P \<le> ?k * P"
    using t assms by (intro mult_right_mono) (simp_all add: ticks_within_def)
  ultimately show "\<exists>k. down < s + k * P \<and> s + k * P \<le> up" by (intro exI [of _ ?k]) linarith
next
  assume "\<exists>k. down < s + k * P \<and> s + k * P \<le> up"
  then obtain k where k: "down - s < k * P" "k * P \<le> up - s" by (auto simp: algebra_simps)
  from zdiv_mono1 [OF k(2) assms] assms have "k \<le> (up - s) div P" by simp
  moreover have "(down - s) div P < k"
  proof (rule ccontr)
    assume "\<not> (down - s) div P < k"
    then have "k * P \<le> (down - s) div P * P" using assms by (intro mult_right_mono) simp_all
    with k(1) pos_mod_sign [OF assms, of "down - s"] div_mult_mod_eq [of "down - s" P] show False by linarith
  qed
  ultimately show "ticks_within P s down up" by (simp add: ticks_within_def)
qed

lemma ticks_within_long:
  assumes "0 < P" and "P \<le> up - down"
  shows "ticks_within P s down up"
proof -
  have "down - s + P \<le> up - s" using assms(2) by simp
  then have "(down - s + P) div P \<le> (up - s) div P" using assms(1) by (rule zdiv_mono1)
  moreover have "(down - s + P) div P = (down - s) div P + 1" using assms(1) by (intro div_add_self2) simp
  ultimately show ?thesis by (simp add: ticks_within_def)
qed

text \<open>Outages of one length, shorter than the period of the heartbeat.\<close>

definition outages :: "nat \<Rightarrow> (int \<times> int) list" where
  "outages n = map (\<lambda>k. (15 * second * int k + 9 * second - int k, 15 * second * int k + 14 * second - int k)) [0..<n]"

lemma outages_Suc:
  "outages (Suc n) = outages n @ [(15 * second * int n + 9 * second - int n, 15 * second * int n + 14 * second - int n)]"
  by (simp add: outages_def)

lemma heartbeats_append: "heartbeats P ss (os @ os') = heartbeats P (heartbeats P ss os) os'"
  by (induction P ss os rule: heartbeats.induct) simp_all

lemma div_between: "k * P \<le> x \<Longrightarrow> x < (k + 1) * P \<Longrightarrow> x div P = k" for x :: int
  by (rule int_div_pos_eq [where r = "x - k * P"]) (simp_all add: algebra_simps)

lemma outages_keep:
  assumes "n < 1000000000" and "s = 0 \<or> (\<exists>j<n. s = 15 * second * int j + 14 * second - int j)"
  shows "\<not> ticks_within (15 * second) s (15 * second * int n + 9 * second - int n) (15 * second * int n + 14 * second - int n)"
  using assms(2)
proof
  assume s: "s = 0"
  have "(15 * second * int n + 9 * second - int n) div (15 * second) = int n"
    by (rule div_between) (use assms(1) in \<open>simp_all add: second_def algebra_simps\<close>)
  moreover have "(15 * second * int n + 14 * second - int n) div (15 * second) = int n"
    by (rule div_between) (use assms(1) in \<open>simp_all add: second_def algebra_simps\<close>)
  ultimately show ?thesis using s by (simp add: ticks_within_def)
next
  assume "\<exists>j<n. s = 15 * second * int j + 14 * second - int j"
  then obtain j where j: "j < n" "s = 15 * second * int j + 14 * second - int j" by blast
  have "(15 * second * int n + 9 * second - int n - s) div (15 * second) = int n - int j - 1"
    by (rule div_between) (use assms(1) j in \<open>simp_all add: second_def algebra_simps\<close>)
  moreover have "(15 * second * int n + 14 * second - int n - s) div (15 * second) = int n - int j - 1"
    by (rule div_between) (use assms(1) j in \<open>simp_all add: second_def algebra_simps\<close>)
  ultimately show ?thesis by (simp add: ticks_within_def)
qed

lemma outages_heartbeats:
  "n \<le> 1000000000 \<Longrightarrow> heartbeats (15 * second) [0] (outages n) =
    0 # map (\<lambda>k. 15 * second * int k + 14 * second - int k) [0..<n]"
proof (induction n)
  case 0
  then show ?case by (simp add: outages_def)
next
  case (Suc n)
  have "filter (\<lambda>s. \<not> ticks_within (15 * second) s (15 * second * int n + 9 * second - int n) (15 * second * int n + 14 * second - int n))
      (0 # map (\<lambda>k. 15 * second * int k + 14 * second - int k) [0..<n]) =
    0 # map (\<lambda>k. 15 * second * int k + 14 * second - int k) [0..<n]"
    by (intro filter_True ballI outages_keep) (use Suc.prems in auto)
  with Suc show ?case by (simp only: outages_Suc heartbeats_append heartbeats.simps) simp
qed

text \<open>A reconnection leaves exactly one heartbeat only if the outage lasts a whole \<^verbatim>\<open>PingPeriod\<close>; with the five seconds after which
  \<^verbatim>\<open>reconnect\<close> first tries, the old one survives unless it ticks in between, and every outage can leave one more, each of
  them sending its own pings over the new connection.\<close>
theorem reconnections_add_heartbeats:
  assumes "\<forall>(down, up)\<in>set os. sc_PingPeriod cf * second \<le> up - down" and "0 < sc_PingPeriod cf" and "n \<le> 1000000000"
  shows "(os \<noteq> [] \<longrightarrow> heartbeats (sc_PingPeriod cf * second) ss os = [snd (last os)]) \<and>
    length (heartbeats (sc_PingPeriod defServerConf * second) [0] (outages n)) = Suc n \<and>
    (\<forall>(down, up)\<in>set (outages n). up - down = 5 * second)"
proof -
  have P: "0 < sc_PingPeriod cf * second" using assms(2) by simp
  have "heartbeats (sc_PingPeriod cf * second) ss os = [snd (last os)]" if "os \<noteq> []"
    using that assms(1)
  proof (induction os arbitrary: ss)
    case (Cons o' os)
    obtain down up where o: "o' = (down, up)" by (cases o')
    have "filter (\<lambda>s. \<not> ticks_within (sc_PingPeriod cf * second) s down up) ss = []"
      using ticks_within_long [OF P] Cons.prems(2) by (simp add: o)
    with Cons o show ?case by (cases "os = []") simp_all
  qed simp
  moreover have "sc_PingPeriod defServerConf = 15" by (simp add: defServerConf_def)
  ultimately show ?thesis using outages_heartbeats [OF assms(3)] by (auto simp: outages_def)
qed

lemma reconnections_add_heartbeats_witness:
  "heartbeats (15 * second) [0] [(20 * second, 36 * second)] = [36 * second] \<and>
    length (heartbeats (15 * second) [0] (outages 3)) = 4"
proof -
  have "sc_PingPeriod defServerConf = 15" by (simp add: defServerConf_def)
  with reconnections_add_heartbeats [of "[(20 * second, 36 * second)]" defServerConf 3 "[0]"] show ?thesis by simp
qed

section \<open>Websocket clients\<close>

text \<open>The messages the loop of \<^verbatim>\<open>handleMessage\<close> decodes from a buffer.\<close>

function decode_all :: "reader \<Rightarrow> message list" where
  "decode_all buf =
     (case Message_Decode zero_message buf of
        (Some err, msg, buf') \<Rightarrow> []
      | (None, msg, buf') \<Rightarrow> msg # decode_all buf')"
  by pat_completeness auto

termination decode_all
  by (relation "measure rd_size") (auto dest: Message_Decode_shrinks [OF sym])

declare decode_all.simps [simp del]

text \<open>They are what \<^verbatim>\<open>handleMessage\<close> handles: pings answered, the others handed on.\<close>

lemma handle_messages_decoded:
  fixes p :: "'k ws_client"
  assumes "cl_conn p = Some c" and "conn_writable c"
  shows "handle_messages W p buf = Ret (received W (decode_all buf) p)"
  using assms
proof (induction buf arbitrary: p c rule: decode_all.induct)
  case (1 buf)
  obtain e m buf' where d: "Message_Decode zero_message buf = (e, m, buf')" by (cases "Message_Decode zero_message buf")
  show ?case
  proof (cases e)
    case (Some err)
    with d show ?thesis by (simp add: handle_messages.simps decode_all.simps received_simps)
  next
    case None
    have rec: "handle_messages W q buf' = Ret (received W (decode_all buf') q)"
      if "cl_conn q = Some c2" "conn_writable c2" for c2 and q :: "'k ws_client"
      using "1.IH" [of e "(m, buf')" m buf' q c2] d None that by simp
    have "decode_all buf = [m] @ decode_all buf'" using d None by (simp add: decode_all.simps [of buf])
    then have "received W (decode_all buf) p = received W (decode_all buf') (received W [m] p)"
      by (simp only: received_simps(2))
    moreover have "handle_messages W p buf = handle_messages W (received W [m] p) buf'"
    proof (cases "is_ping_msg m")
      case True
      then have "GetPID (msg_Header m) = PIDPing" by (simp add: is_ping_msg_def)
      then show ?thesis
        unfolding received_one [OF "1.prems"(1)] using True "1.prems" None
        by (subst handle_messages.simps) (simp add: d writeMessage_def client_write_open)
    next
      case False
      then have "GetPID (msg_Header m) \<noteq> PIDPing" by (simp add: is_ping_msg_def)
      then show ?thesis
        unfolding received_one [OF "1.prems"(1)] using False None
        by (subst handle_messages.simps) (simp add: d)
    qed
    moreover obtain c2 where "cl_conn (received W [m] p) = Some c2" "conn_writable c2"
      using "1.prems" by (simp add: received_simps(3))
    ultimately show ?thesis using rec by simp
  qed
qed

text \<open>A frame of a client: when the reader gets its header and its payload, and the payload as it comes, masked.\<close>

record timed_header =
  th_head :: int
  th_body :: int
  th_header :: ws_header
  th_payload :: "byte list"

definition unmasked :: "ws_api \<Rightarrow> timed_header \<Rightarrow> byte list" where
  "unmasked W h = (if wh_Masked (th_header h) then ws_Cipher W (th_payload h) (wh_Mask (th_header h)) else th_payload h)"

definition frame_messages :: "ws_api \<Rightarrow> timed_header \<Rightarrow> message list" where
  "frame_messages W h = (if wh_OpCode (th_header h) = WsBinary then decode_all (bytes_buffer (unmasked W h)) else [])"

text \<open>
  The loop of \<^verbatim>\<open>readHandler\<close> in \<^verbatim>\<open>ws_client.go\<close>: every header moves the deadline, and so does every ping message
  in a payload. The loop does not ask \<^verbatim>\<open>RemotePing\<close> again. \<open>limited n\<close> is whether the \<open>n\<close>-th payload is over the
  rate: it is thrown away, and the log line slices its first ten bytes.
\<close>

fun timed_ws ::
  "ws_api \<Rightarrow> (nat \<Rightarrow> bool) \<Rightarrow> client_conf \<Rightarrow> int option \<Rightarrow> nat \<Rightarrow> timed_header list \<Rightarrow> message list \<times> timed_end" where
  "timed_ws W limited cf d n [] = ([], StillReading d)"
| "timed_ws W limited cf d n (h # hs) =
     (if expired d (th_head h) then ([], TimedOut d)
      else if wh_OpCode (th_header h) = WsClose then ([], ClosedByPeer)
      else let d1 = Some (th_head h + cf_PongWait cf * second)
        in if wh_OpCode (th_header h) = WsPing then timed_ws W limited cf d1 n hs
           else if wh_Length (th_header h) = 0 then timed_ws W limited cf d1 n hs
           else if expired d1 (th_body h) then ([], TimedOut d1)
           else if limited n then
             (if length (th_payload h) < 10 then ([], ReaderPanics) else timed_ws W limited cf d1 (Suc n) hs)
           else let ms = frame_messages W h;
                    d2 = (if list_ex is_ping_msg ms then Some (th_body h + cf_PongWait cf * second) else d1)
             in case timed_ws W limited cf d2 (Suc n) hs of (rs, end) \<Rightarrow> (filter (\<lambda>m. \<not> is_ping_msg m) ms @ rs, end))"

definition timed_client ::
  "ws_api \<Rightarrow> (nat \<Rightarrow> bool) \<Rightarrow> client_conf \<Rightarrow> int \<Rightarrow> timed_header list \<Rightarrow> message list \<times> timed_end" where
  "timed_client W limited cf now hs =
     timed_ws W limited cf (if cf_RemotePing cf then Some (now + cf_PongWait cf * second) else None) 0 hs"


definition ws_ping :: "timed_header \<Rightarrow> bool" where
  "ws_ping h \<longleftrightarrow> wh_OpCode (th_header h) = WsPing"

definition ws_ping_times :: "timed_header list \<Rightarrow> int list" where
  "ws_ping_times hs = map th_head (filter ws_ping hs)"

lemma ws_ping_times_simps [simp]:
  "ws_ping_times [] = []"
  "ws_ping_times (h # hs) = (if ws_ping h then th_head h # ws_ping_times hs else ws_ping_times hs)"
  by (simp_all add: ws_ping_times_def)













text \<open>A reset configuration drops its client: \<^verbatim>\<open>PongWait\<close> is zero, and although \<^verbatim>\<open>RemotePing\<close> is off the first frame sets the deadline to
  the moment it came, so the next one is too late.\<close>
theorem reset_conf_drops:
  assumes "wh_OpCode (th_header h) = WsPing" and "th_head h < th_head g"
  shows "timed_client W limited (Reset bufsize cf) now (h # g # hs) = ([], TimedOut (Some (th_head h)))"
  using assms by (simp add: timed_client_def Reset_def Let_def)

end
