(* ===== verification/Handler.thy ===== *)
theory Handler
  imports WireRelay
begin

text \<open>
  The message handler of a logic server, \<^verbatim>\<open>server/handler/*.go\<close>: the channel messages come in by, the
  table of handlers, the jobs waiting in the pools, the function a job runs, and forwarding a
  message to a gateway. \<open>mh_sent\<close> records the calls of the dispatcher's \<^verbatim>\<open>To\<close>, \<open>mh_gauge\<close> and
  \<open>mh_observed\<close> two of the metrics per protocol id. The goroutine pools are a third-party package: a pool is made with
  a number of workers and the length of its queue; a job waits in the queue until a worker is free, which runs it once.
\<close>

section \<open>State\<close>

record handler_conf =
  hf_PoolLogin :: int
  hf_PoolLogout :: int
  hf_PoolChat :: int
  hf_PoolChatAck :: int

record 'k message_handler =
  mh_ID :: 'k
  mh_conf :: handler_conf
  mh_in :: "'k relay_packet list"
  mh_sent :: "('k \<times> 'k relay_packet) list"
  mh_started :: bool
  mh_gauge :: "pid \<Rightarrow> int"
  mh_observed :: "pid \<Rightarrow> nat"

text \<open>The configuration is left at its zero value.\<close>

definition NewMessageHandler :: "'k \<Rightarrow> 'k message_handler" where
  "NewMessageHandler sid =
     \<lparr>mh_ID = sid, mh_conf = \<lparr>hf_PoolLogin = 0, hf_PoolLogout = 0, hf_PoolChat = 0, hf_PoolChatAck = 0\<rparr>,
      mh_in = [], mh_sent = [], mh_started = False, mh_gauge = (\<lambda>_. 0), mh_observed = (\<lambda>_. 0)\<rparr>"

definition handler_capacity :: nat where
  "handler_capacity = 100"

text \<open>\<open>None\<close> is a sender that waits for room.\<close>

definition Handler_Send :: "'k relay_packet \<Rightarrow> 'k message_handler \<Rightarrow> (go_error option \<times> 'k message_handler) option" where
  "Handler_Send pkg h =
     (if length (mh_in h) < handler_capacity then Some (None, h\<lparr>mh_in := mh_in h @ [pkg]\<rparr>) else None)"

interpretation handler_in: bounded_channel Handler_Send mh_in handler_capacity
  by unfold_locales (auto simp: Handler_Send_def)

text \<open>The message handler takes as many packets as fit into its channel; the reader of the gateways waits with the next one.\<close>

lemma handler_blocks:
  "send_list Handler_Send pkgs (NewMessageHandler uuid) \<noteq> None \<longleftrightarrow> length pkgs \<le> handler_capacity"
  using handler_in.send_list_fits [of "NewMessageHandler uuid" pkgs] by (simp add: NewMessageHandler_def)

definition Handler_Start :: "'k message_handler \<Rightarrow> 'k message_handler" where
  "Handler_Start h = h\<lparr>mh_started := snd (cas (mh_started h) False True)\<rparr>"

section \<open>Forwarding\<close>

text \<open>A value of type \<^verbatim>\<open>interface{}\<close>: the code looks for a string and for an id.\<close>

datatype 'k any_value = AnyString string | AnyID 'k | AnyOther

definition id_of_any :: "'k ksuid_api \<Rightarrow> 'k any_value \<Rightarrow> 'k" where
  "id_of_any K v =
     (case v of
        AnyString str \<Rightarrow> (case ks_Parse K str of None \<Rightarrow> ks_Nil K | Some i \<Rightarrow> i)
      | AnyID i \<Rightarrow> i
      | AnyOther \<Rightarrow> ks_Nil K)"

definition forward ::
  "'k ksuid_api \<Rightarrow> 'k any_value \<Rightarrow> message option \<Rightarrow> 'k any_value list \<Rightarrow> 'k message_handler \<Rightarrow>
   'k message_handler outcome" where
  "forward K gatewayID message receivers h =
     (if receivers = [] then Ret h
      else let relayMsg = (NewEmptyRelayMessage K (mh_ID h))
                 \<lparr>rp_Receivers := map (id_of_any K) receivers, rp_Payload := message\<rparr>
           in case rp_Payload relayMsg of
                None \<Rightarrow> Panic NilDeref
              | Some m \<Rightarrow> Ret (h\<lparr>mh_sent := mh_sent h @ [(id_of_any K gatewayID, relayMsg)]\<rparr>))"

text \<open>A receiver named by its id or by the text of its id.\<close>

definition names :: "'k ksuid_api \<Rightarrow> 'k any_value \<Rightarrow> 'k \<Rightarrow> bool" where
  "names K v i \<longleftrightarrow> v = AnyID i \<or> v = AnyString (ks_String K i)"

lemma names_id_of: "ksuid_pkg K \<Longrightarrow> names K v i \<Longrightarrow> id_of_any K v = i"
  by (auto simp: names_def id_of_any_def ksuid_pkg.Parse_String)

text \<open>C34: Forwarding a message sends one packet to the named gateway, from this server, with the message and exactly the named
  receivers in order, whether they are named by ids or by texts; and its bytes decode at the gateway to that packet.\<close>
theorem forward_names_receivers:
  assumes "ksuid_pkg K" and "names K gv g" and "list_all2 (names K) vs is" and "is \<noteq> []" and "length is < 2 ^ 32"
    and "wf_message m"
  shows "\<exists>pkt b. forward K gv (Some m) vs h = Ret (h\<lparr>mh_sent := mh_sent h @ [(g, pkt)]\<rparr>) \<and>
    rp_Receivers pkt = is \<and> rp_Payload pkt = Some m \<and> rp_Location pkt = mh_ID h \<and>
    RelayPacket_Bytes K pkt = Ret b \<and> RelayPacket_Decode K (zero_relay K) (bytes_buffer b) = (None, pkt, bytes_buffer [])"
proof -
  let ?pkt = "(NewEmptyRelayMessage K (mh_ID h))\<lparr>rp_Receivers := is, rp_Payload := Some m\<rparr>"
  from assms(3) have "map (id_of_any K) vs = is"
    by (induction rule: list_all2_induct) (simp_all add: names_id_of [OF assms(1)])
  moreover have "vs \<noteq> []" using assms(3,4) by auto
  ultimately have "forward K gv (Some m) vs h = Ret (h\<lparr>mh_sent := mh_sent h @ [(g, ?pkt)]\<rparr>)"
    using names_id_of [OF assms(1,2)] by (simp add: forward_def Let_def)
  moreover have ok: "relay_ok ?pkt m"
    using assms(5,6) by (simp add: relay_ok_def NewEmptyRelayMessage_def zero_relay_def fits32_def)
  moreover obtain b where "RelayPacket_Bytes K ?pkt = Ret b"
    "RelayPacket_Decode K (zero_relay K) (bytes_buffer b) = (None, ?pkt, bytes_buffer [])"
    using ksuid_pkg.RelayPacket_Decode_ser [OF assms(1) ok, of "[]"] by (simp add: RelayPacket_Bytes_ser)
  ultimately show ?thesis
    by (intro exI [of _ ?pkt] exI [of _ b]) (simp add: NewEmptyRelayMessage_def)
qed

lemma forward_names_receivers_witness:
  "\<exists>pkt b. forward id20_api (AnyString (ks_String id20_api (id20_of 7))) (Some (NewMessage PIDChatPush 4))
      [AnyID (id20_of 1), AnyString (ks_String id20_api (id20_of 2))] (NewMessageHandler (id20_of 3)) =
    Ret ((NewMessageHandler (id20_of 3))\<lparr>mh_sent := [(id20_of 7, pkt)]\<rparr>) \<and>
    rp_Receivers pkt = [id20_of 1, id20_of 2] \<and> RelayPacket_Bytes id20_api pkt = Ret b"
  using forward_names_receivers [OF id20.ksuid_pkg_axioms, of "AnyString (ks_String id20_api (id20_of 7))" "id20_of 7"
      "[AnyID (id20_of 1), AnyString (ks_String id20_api (id20_of 2))]" "[id20_of 1, id20_of 2]" "NewMessage PIDChatPush 4"
      "NewMessageHandler (id20_of 3)"] NewMessage_fields(3,4)
  by (auto simp: names_def wf_message_def NewMessageHandler_def)

section \<open>Handlers\<close>

text \<open>
  A handler gets a message and the message handler it may forward through, and returns an error
  or panics. Those of the source have no body yet.
\<close>

type_synonym 'k handler_func = "'k relay_packet \<Rightarrow> 'k message_handler \<Rightarrow> go_error option outcome \<times> 'k message_handler"

definition loginHandler :: "'k handler_func" where "loginHandler msg h = (Ret None, h)"
definition logoutHandler :: "'k handler_func" where "logoutHandler msg h = (Ret None, h)"
definition chatHandler :: "'k handler_func" where "chatHandler msg h = (Ret None, h)"
definition groupHandler :: "'k handler_func" where "groupHandler msg h = (Ret None, h)"
definition chatPushAckHandler :: "'k handler_func" where "chatPushAckHandler msg h = (Ret None, h)"

type_synonym 'k handler_table = "pid \<Rightarrow> (int \<times> 'k handler_func) option"

definition settings :: "handler_conf \<Rightarrow> 'k handler_table" where
  "settings conf p =
     (if p = PIDLogin then Some (hf_PoolLogin conf, loginHandler)
      else if p = PIDLogout then Some (hf_PoolLogout conf, logoutHandler)
      else if p = PIDChat then Some (hf_PoolChat conf, chatHandler)
      else if p = PIDChatPushAck then Some (hf_PoolChatAck conf, chatPushAckHandler)
      else None)"

text \<open>
  One message in \<^verbatim>\<open>handleInMessage\<close>: dropped when there is no handler, otherwise counted and given
  to the pool of its protocol id.
\<close>

definition handle_in ::
  "'k handler_table \<Rightarrow> 'k relay_packet \<Rightarrow> 'k message_handler \<Rightarrow> (bool \<times> 'k message_handler) outcome" where
  "handle_in table msg h =
     (case rp_Payload msg of
        None \<Rightarrow> Panic NilDeref
      | Some m \<Rightarrow>
          let p = GetPID (msg_Header m)
          in (case table p of
                None \<Rightarrow> Ret (False, h)
              | Some _ \<Rightarrow> Ret (True, h\<lparr>mh_gauge := (mh_gauge h)(p := mh_gauge h p + 1)\<rparr>)))"

text \<open>The job: the deferred function counts it down and recovers from a panic of the handler.\<close>

definition poolFunc :: "'k handler_func \<Rightarrow> 'k relay_packet \<Rightarrow> 'k message_handler \<Rightarrow> 'k message_handler outcome" where
  "poolFunc handle msg h =
     (case rp_Payload msg of
        None \<Rightarrow> Panic NilDeref
      | Some m \<Rightarrow>
          let p = GetPID (msg_Header m);
              (res, h1) = handle msg h;
              h2 = (case res of Ret err \<Rightarrow> h1\<lparr>mh_observed := (mh_observed h1)(p := Suc (mh_observed h1 p))\<rparr>
                              | Panic _ \<Rightarrow> h1)
          in Ret (h2\<lparr>mh_gauge := (mh_gauge h2)(p := mh_gauge h2 p - 1)\<rparr>))"

section \<open>The handler as a system\<close>

text \<open>
  Senders, the goroutine \<^verbatim>\<open>Start\<close> spawns to take messages in, and the goroutines of the pools. \<open>hs_hand\<close> is the
  message the first holds until its pool takes the job, \<open>hs_queued\<close> are the jobs that wait for a worker,
  \<open>hs_running\<close> those that have one; the others record what became of every message.
  The pool of a protocol id has as many workers as its setting says and a queue of ten times that length:
  \<open>room len n\<close> is whether a pool with a queue of length \<open>len\<close> takes a job when \<open>n\<close> wait.
\<close>

record 'k handler_sys =
  hs_h :: "'k message_handler"
  hs_hand :: "'k relay_packet option"
  hs_queued :: "'k relay_packet list"
  hs_running :: "'k relay_packet list"
  hs_accepted :: "'k relay_packet list"
  hs_dropped :: "'k relay_packet list"
  hs_done :: "'k relay_packet list"

definition hs_jobs :: "'k handler_sys \<Rightarrow> 'k relay_packet list" where
  "hs_jobs s = hs_queued s @ hs_running s"

definition handler_init :: "'k \<Rightarrow> 'k handler_sys" where
  "handler_init sid = \<lparr>hs_h = NewMessageHandler sid, hs_hand = None, hs_queued = [], hs_running = [], hs_accepted = [],
     hs_dropped = [], hs_done = []\<rparr>"

definition pid_of :: "'k relay_packet \<Rightarrow> pid option" where
  "pid_of msg = map_option (\<lambda>m. GetPID (msg_Header m)) (rp_Payload msg)"

definition jobs_of :: "pid \<Rightarrow> 'k relay_packet list \<Rightarrow> nat" where
  "jobs_of p jobs = length (filter (\<lambda>msg. pid_of msg = Some p) jobs)"

inductive handler_step :: "'k handler_table \<Rightarrow> (int \<Rightarrow> nat \<Rightarrow> bool) \<Rightarrow> 'k handler_sys \<Rightarrow> 'k handler_sys \<Rightarrow> bool"
  for table :: "'k handler_table" and room :: "int \<Rightarrow> nat \<Rightarrow> bool" where
  send_in: "Handler_Send msg (hs_h s) = Some (None, h) \<Longrightarrow>
    handler_step table room s (s\<lparr>hs_h := h, hs_accepted := hs_accepted s @ [msg]\<rparr>)"
| start_in: "\<not> mh_started (hs_h s) \<Longrightarrow> handler_step table room s (s\<lparr>hs_h := Handler_Start (hs_h s)\<rparr>)"
| drop_in: "mh_started (hs_h s) \<Longrightarrow> hs_hand s = None \<Longrightarrow> mh_in (hs_h s) = msg # msgs \<Longrightarrow>
    handle_in table msg ((hs_h s)\<lparr>mh_in := msgs\<rparr>) = Ret (False, h) \<Longrightarrow>
    handler_step table room s (s\<lparr>hs_h := h, hs_dropped := hs_dropped s @ [msg]\<rparr>)"
| take_in: "mh_started (hs_h s) \<Longrightarrow> hs_hand s = None \<Longrightarrow> mh_in (hs_h s) = msg # msgs \<Longrightarrow>
    handle_in table msg ((hs_h s)\<lparr>mh_in := msgs\<rparr>) = Ret (True, h) \<Longrightarrow>
    handler_step table room s (s\<lparr>hs_h := h, hs_hand := Some msg\<rparr>)"
| give_job: "hs_hand s = Some msg \<Longrightarrow> pid_of msg = Some p \<Longrightarrow> table p = Some (n, handle) \<Longrightarrow>
    room (n * 10) (jobs_of p (hs_queued s)) \<Longrightarrow>
    handler_step table room s (s\<lparr>hs_hand := None, hs_queued := hs_queued s @ [msg]\<rparr>)"
| start_job: "hs_queued s = xs @ msg # ys \<Longrightarrow> pid_of msg = Some p \<Longrightarrow> jobs_of p xs = 0 \<Longrightarrow> table p = Some (n, handle) \<Longrightarrow>
    int (jobs_of p (hs_running s)) < n \<Longrightarrow>
    handler_step table room s (s\<lparr>hs_queued := xs @ ys, hs_running := hs_running s @ [msg]\<rparr>)"
| run_job: "hs_running s = xs @ msg # ys \<Longrightarrow> pid_of msg = Some p \<Longrightarrow> table p = Some (n, handle) \<Longrightarrow>
    poolFunc handle msg (hs_h s) = Ret h \<Longrightarrow>
    handler_step table room s (s\<lparr>hs_h := h, hs_running := xs @ ys, hs_done := hs_done s @ [msg]\<rparr>)"

definition hand_list :: "'k handler_sys \<Rightarrow> 'k relay_packet list" where
  "hand_list s = (case hs_hand s of None \<Rightarrow> [] | Some msg \<Rightarrow> [msg])"

definition handler_inv :: "'k handler_table \<Rightarrow> 'k handler_sys \<Rightarrow> bool" where
  "handler_inv table s \<longleftrightarrow>
     mset (hs_accepted s) = mset (mh_in (hs_h s)) + mset (hand_list s) + mset (hs_jobs s) + mset (hs_done s) + mset (hs_dropped s) \<and>
     length (mh_in (hs_h s)) \<le> handler_capacity \<and>
     (\<forall>p. mh_gauge (hs_h s) p = int (jobs_of p (hand_list s @ hs_jobs s))) \<and>
     list_all (\<lambda>msg. \<exists>p st. pid_of msg = Some p \<and> table p = Some st) (hand_list s @ hs_jobs s @ hs_done s) \<and>
     list_all (\<lambda>msg. \<exists>p. pid_of msg = Some p \<and> table p = None) (hs_dropped s)"

lemma jobs_of_simps [simp]:
  "jobs_of p [] = 0" "jobs_of p (xs @ ys) = jobs_of p xs + jobs_of p ys"
  "jobs_of p (msg # msgs) = (if pid_of msg = Some p then Suc (jobs_of p msgs) else jobs_of p msgs)"
  by (simp_all add: jobs_of_def)

text \<open>What a handler may do: forward messages, but not touch the channel or the metrics.\<close>

locale handler_pkg =
  fixes table :: "'k handler_table"
  assumes handler_keeps: "table p = Some (n, f) \<Longrightarrow>
    mh_gauge (snd (f msg h)) = mh_gauge h \<and> mh_in (snd (f msg h)) = mh_in h"
begin

lemma poolFunc_ok:
  assumes "table p = Some (n, f)" and "pid_of msg = Some p"
  shows "\<exists>h'. poolFunc f msg h = Ret h' \<and> mh_in h' = mh_in h \<and> mh_gauge h' = (mh_gauge h)(p := mh_gauge h p - 1)"
proof -
  obtain res h1 where f: "f msg h = (res, h1)" by (cases "f msg h")
  with handler_keeps [OF assms(1), of msg h] have "mh_gauge h1 = mh_gauge h" "mh_in h1 = mh_in h" by simp_all
  with f assms(2) show ?thesis by (cases res) (auto simp: poolFunc_def pid_of_def Let_def)
qed

lemma handler_inv_step:
  assumes "handler_inv table s" and "handler_step table room s t"
  shows "handler_inv table t"
  using assms(2)
proof cases
  case (send_in msg h)
  with assms(1) show ?thesis by (auto simp: handler_inv_def hand_list_def hs_jobs_def Handler_Send_def split: if_splits)
next
  case start_in
  with assms(1) show ?thesis by (simp add: handler_inv_def hand_list_def hs_jobs_def Handler_Start_def)
next
  case (drop_in msg msgs h)
  then have "h = (hs_h s)\<lparr>mh_in := msgs\<rparr>" "\<exists>p. pid_of msg = Some p \<and> table p = None"
    by (auto simp: handle_in_def pid_of_def Let_def split: option.splits)
  with drop_in assms(1) show ?thesis by (auto simp: handler_inv_def hand_list_def hs_jobs_def)
next
  case (take_in msg msgs h)
  then obtain p where "h = (hs_h s)\<lparr>mh_in := msgs, mh_gauge := (mh_gauge (hs_h s))(p := mh_gauge (hs_h s) p + 1)\<rparr>"
    "pid_of msg = Some p" "\<exists>st. table p = Some st"
    by (auto simp: handle_in_def pid_of_def Let_def split: option.splits)
  with take_in assms(1) show ?thesis by (auto simp: handler_inv_def hand_list_def hs_jobs_def)
next
  case (give_job msg p n f)
  with assms(1) show ?thesis by (auto simp: handler_inv_def hand_list_def hs_jobs_def)
next
  case (start_job xs msg ys p n f)
  with assms(1) show ?thesis by (auto simp: handler_inv_def hand_list_def hs_jobs_def)
next
  case (run_job xs msg ys p n f h)
  with poolFunc_ok [OF run_job(4,3), of "hs_h s"]
  have "mh_in h = mh_in (hs_h s)" "mh_gauge h = (mh_gauge (hs_h s))(p := mh_gauge (hs_h s) p - 1)" by auto
  with run_job assms(1) show ?thesis by (auto simp: handler_inv_def hand_list_def hs_jobs_def)
qed

lemma handler_inv_init: "handler_inv table (handler_init sid)"
  by (simp add: handler_inv_def handler_init_def NewMessageHandler_def hand_list_def hs_jobs_def)

end

sublocale handler_pkg \<subseteq> handling: invariant_system "handler_init sid" "handler_step table room" "handler_inv table"
  by unfold_locales (rule handler_inv_init, rule handler_inv_step)

context handler_pkg begin

lemma handler_reachable_inv:
  "reachable (handler_init sid) (handler_step table room) s \<Longrightarrow> handler_inv table s"
  by (rule handling.reachable_inv)

end

interpretation handlers: handler_pkg "settings conf"
  by unfold_locales
     (auto simp: settings_def loginHandler_def logoutHandler_def chatHandler_def chatPushAckHandler_def split: if_splits)

text \<open>C33: Every message the handler accepts is in exactly one place: waiting, on its way to a pool, in a pool, handled, or dropped because
  its protocol has no handler; and the gauge of a protocol id is always the number of its jobs on their way, queued or running.
  This holds for the table of the source and for any other whose handlers only forward messages, return errors
  and panic.\<close>
theorem handler_accounts:
  assumes "handler_pkg table" and "reachable (handler_init sid) (handler_step table room) s"
  shows "mset (hs_accepted s) =
      mset (mh_in (hs_h s)) + mset (hand_list s) + mset (hs_jobs s) + mset (hs_done s) + mset (hs_dropped s) \<and>
    (\<forall>p. mh_gauge (hs_h s) p = int (jobs_of p (hand_list s @ hs_jobs s))) \<and> length (mh_in (hs_h s)) \<le> 100 \<and>
    list_all (\<lambda>msg. \<exists>p. pid_of msg = Some p \<and> table p = None) (hs_dropped s) \<and>
    list_all (\<lambda>msg. \<exists>p. pid_of msg = Some p \<and> table p \<noteq> None) (hand_list s @ hs_jobs s @ hs_done s)"
proof -
  have "handler_inv table s" by (rule handler_pkg.handler_reachable_inv [OF assms])
  then show ?thesis by (auto simp: handler_inv_def handler_capacity_def list_all_iff)
qed

section \<open>The handler comes to rest\<close>

text \<open>
  What the handler does without a new message. A message in the channel has four steps before it, one in the hand three,
  one in a queue two and one that runs one. \<open>sorted_out\<close> is the end: those with a handler are handled, the others dropped.
\<close>

definition handler_work :: "'k handler_table \<Rightarrow> (int \<Rightarrow> nat \<Rightarrow> bool) \<Rightarrow> 'k handler_sys \<Rightarrow> 'k handler_sys \<Rightarrow> bool" where
  "handler_work table room s t \<longleftrightarrow> handler_step table room s t \<and> hs_accepted t = hs_accepted s"

definition handler_load :: "'k handler_sys \<Rightarrow> nat" where
  "handler_load s = 4 * length (mh_in (hs_h s)) + 3 * length (hand_list s) + 2 * length (hs_queued s) + length (hs_running s)"

definition has_handler :: "'k handler_table \<Rightarrow> 'k relay_packet \<Rightarrow> bool" where
  "has_handler table msg \<longleftrightarrow> (case pid_of msg of None \<Rightarrow> False | Some p \<Rightarrow> table p \<noteq> None)"

definition sorted_out :: "'k handler_table \<Rightarrow> 'k relay_packet list \<Rightarrow> 'k handler_sys \<Rightarrow> bool" where
  "sorted_out table msgs s \<longleftrightarrow> mh_in (hs_h s) = [] \<and> hs_hand s = None \<and> hs_jobs s = [] \<and>
     mset (hs_done s) = filter_mset (has_handler table) (mset msgs) \<and>
     mset (hs_dropped s) = filter_mset (\<lambda>msg. \<not> has_handler table msg) (mset msgs)"

lemma sorted_outI:
  assumes "handler_inv table s" and "mh_in (hs_h s) = []" and "hs_hand s = None" and "hs_jobs s = []"
  shows "sorted_out table (hs_accepted s) s"
proof -
  have "has_handler table msg" if "msg \<in> set (hs_done s)" for msg
  proof -
    from assms(1) that have "\<exists>p st. pid_of msg = Some p \<and> table p = Some st" unfolding handler_inv_def list_all_iff by simp
    then show ?thesis by (auto simp: has_handler_def)
  qed
  moreover have "\<not> has_handler table msg" if "msg \<in> set (hs_dropped s)" for msg
  proof -
    from assms(1) that have "\<exists>p. pid_of msg = Some p \<and> table p = None" unfolding handler_inv_def list_all_iff by simp
    then show ?thesis by (auto simp: has_handler_def)
  qed
  ultimately have "filter_mset (has_handler table) (mset (hs_done s)) = mset (hs_done s)"
    "filter_mset (has_handler table) (mset (hs_dropped s)) = {#}"
    "filter_mset (\<lambda>msg. \<not> has_handler table msg) (mset (hs_done s)) = {#}"
    "filter_mset (\<lambda>msg. \<not> has_handler table msg) (mset (hs_dropped s)) = mset (hs_dropped s)"
    by (simp_all add: filter_mset_eq_conv)
  with assms show ?thesis by (simp add: sorted_out_def handler_inv_def hand_list_def)
qed

text \<open>
  A pool with workers takes a job when none waits in its queue; what it does with more is up to it. A handler does not set
  the state of the message handler back.
\<close>

locale handler_pools = handler_pkg table for table :: "'k handler_table" +
  fixes room :: "int \<Rightarrow> nat \<Rightarrow> bool"
  assumes pool_takes: "table p = Some (n, f) \<Longrightarrow> 0 < n \<and> room (n * 10) 0"
    and keeps_started: "table p = Some (n, f) \<Longrightarrow> mh_started (snd (f msg h)) = mh_started h"
begin

lemma poolFunc_started:
  "table p = Some (n, f) \<Longrightarrow> poolFunc f msg h = Ret h' \<Longrightarrow> mh_started h' = mh_started h"
  using keeps_started [of p n f msg h]
  by (cases "f msg h") (auto simp: poolFunc_def Let_def split: option.splits outcome.splits)

lemma handler_stays_started:
  assumes "handler_step table room s t" and "mh_started (hs_h s)"
  shows "mh_started (hs_h t)"
  using assms(1)
proof cases
  case (run_job xs msg ys p n f h)
  with poolFunc_started [OF run_job(4,5)] assms(2) show ?thesis by simp
qed (use assms(2) in \<open>auto simp: Handler_Send_def handle_in_def Let_def split: if_splits option.splits\<close>)

lemma handler_load_less:
  assumes "handler_step table room s t" and "hs_accepted t = hs_accepted s" and "mh_started (hs_h s)"
  shows "handler_load t < handler_load s"
  using assms(1)
proof cases
  case (send_in msg h)
  with assms(2) show ?thesis by simp
next
  case start_in
  with assms(3) show ?thesis by simp
next
  case (drop_in msg msgs h)
  then have "mh_in h = msgs" by (auto simp: handle_in_def Let_def split: option.splits)
  with drop_in show ?thesis by (simp add: handler_load_def hand_list_def)
next
  case (take_in msg msgs h)
  then have "mh_in h = msgs" by (auto simp: handle_in_def Let_def split: option.splits)
  with take_in show ?thesis by (simp add: handler_load_def hand_list_def)
next
  case (give_job msg p n f)
  then show ?thesis by (simp add: handler_load_def hand_list_def)
next
  case (start_job xs msg ys p n f)
  then show ?thesis by (simp add: handler_load_def hand_list_def)
next
  case (run_job xs msg ys p n f h)
  with poolFunc_ok [OF run_job(4,3), of "hs_h s"] show ?thesis by (auto simp: handler_load_def hand_list_def)
qed

lemma job_runs:
  assumes "handler_inv table s" and "hs_running s = msg # msgs"
  shows "\<exists>t. handler_work table room s t"
proof -
  from assms obtain p n f where "pid_of msg = Some p" "table p = Some (n, f)" by (auto simp: handler_inv_def hs_jobs_def)
  moreover from poolFunc_ok [OF this(2,1)] obtain h where "poolFunc f msg (hs_h s) = Ret h" by blast
  ultimately show ?thesis using run_job [of s "[]" msg msgs p table n f h room] assms(2) by (auto simp: handler_work_def)
qed

lemma job_starts:
  assumes "handler_inv table s" and "hs_running s = []" and "hs_queued s = msg # msgs"
  shows "\<exists>t. handler_work table room s t"
proof -
  from assms obtain p n f where "pid_of msg = Some p" "table p = Some (n, f)" by (auto simp: handler_inv_def hs_jobs_def)
  with start_job [of s "[]" msg msgs p table n f room] pool_takes assms(2,3) show ?thesis by (auto simp: handler_work_def)
qed

lemma hand_given:
  assumes "handler_inv table s" and "hs_queued s = []" and "hs_hand s = Some msg"
  shows "\<exists>t. handler_work table room s t"
proof -
  from assms obtain p n f where "pid_of msg = Some p" "table p = Some (n, f)" by (auto simp: handler_inv_def hand_list_def)
  with give_job [of s msg p table n f room] pool_takes assms(2,3) show ?thesis by (auto simp: handler_work_def)
qed

lemma in_taken:
  assumes "mh_started (hs_h s)" and "hs_hand s = None" and "mh_in (hs_h s) = msg # msgs" and "rp_Payload msg = Some m"
  shows "\<exists>t. handler_work table room s t"
proof (cases "table (GetPID (msg_Header m))")
  case None
  with assms(4) have "\<exists>h. handle_in table msg ((hs_h s)\<lparr>mh_in := msgs\<rparr>) = Ret (False, h)" by (simp add: handle_in_def)
  with drop_in [OF assms(1-3)] show ?thesis by (fastforce simp: handler_work_def)
next
  case (Some st)
  with assms(4) have "\<exists>h. handle_in table msg ((hs_h s)\<lparr>mh_in := msgs\<rparr>) = Ret (True, h)" by (simp add: handle_in_def Let_def)
  with take_in [OF assms(1-3)] show ?thesis by (fastforce simp: handler_work_def)
qed

lemma handler_enabled:
  assumes "handler_inv table s" and "list_all (\<lambda>msg. rp_Payload msg \<noteq> None) (hs_accepted s)" and "mh_started (hs_h s)"
    and "\<not> sorted_out table (hs_accepted s) s"
  shows "\<exists>t. handler_work table room s t"
proof (cases "hs_running s")
  case (Cons msg msgs)
  with assms(1) show ?thesis by (rule job_runs)
next
  case run: Nil
  show ?thesis
  proof (cases "hs_queued s")
    case (Cons msg msgs)
    with assms(1) run show ?thesis by (rule job_starts)
  next
    case queued: Nil
    show ?thesis
    proof (cases "hs_hand s")
      case (Some msg)
      with assms(1) queued show ?thesis by (rule hand_given)
    next
      case hand: None
      have "hs_jobs s = []" using run queued by (simp add: hs_jobs_def)
      with sorted_outI [OF assms(1) _ hand] assms(4) obtain msg msgs where m: "mh_in (hs_h s) = msg # msgs"
        by (cases "mh_in (hs_h s)") auto
      then have "msg \<in># mset (hs_accepted s)" using assms(1) by (simp add: handler_inv_def)
      with assms(2) obtain m where "rp_Payload msg = Some m" by (auto simp: list_all_iff)
      with assms(3) hand m show ?thesis by (rule in_taken)
    qed
  qed
qed

end

sublocale handler_pools \<subseteq> resting: draining_system "handler_work table room"
  "\<lambda>s. handler_inv table s \<and> list_all (\<lambda>msg. rp_Payload msg \<noteq> None) msgs \<and> hs_accepted s = msgs \<and> mh_started (hs_h s)"
  handler_load "sorted_out table msgs"
  by unfold_locales
     (auto simp: handler_work_def intro: handler_inv_step handler_load_less handler_stays_started intro!: handler_enabled [unfolded handler_work_def])

context handler_pools begin

lemmas handler_runs_drain = resting.runs_drain

end

text \<open>Where no pool has a worker no job runs.\<close>

lemma no_worker_runs_nothing:
  assumes "\<forall>p n f. table p = Some (n, f) \<longrightarrow> n \<le> 0" and "reachable (handler_init sid) (handler_step table room) s"
  shows "hs_running s = [] \<and> hs_done s = []"
  using assms(2)
proof (induction rule: reachable.induct)
  case (reach_step s t)
  from reach_step.hyps(2) show ?case
  proof cases
    case (start_job xs msg ys p n f)
    with assms(1) show ?thesis by fastforce
  qed (use reach_step.IH in auto)
qed (simp add: handler_init_def)

text \<open>Pools that take jobs while there is room in their queue, for the table of the source with one worker for each id.\<close>

definition example_room :: "int \<Rightarrow> nat \<Rightarrow> bool" where
  "example_room len n \<longleftrightarrow> int n < len"

definition example_pools :: handler_conf where
  "example_pools = \<lparr>hf_PoolLogin = 1, hf_PoolLogout = 1, hf_PoolChat = 1, hf_PoolChatAck = 1\<rparr>"

interpretation pools: handler_pools "settings example_pools" example_room
  by unfold_locales
     (auto simp: example_room_def settings_def example_pools_def loginHandler_def logoutHandler_def chatHandler_def chatPushAckHandler_def
       split: if_splits)

text \<open>C9: When the message handler comes to rest. With pools that have workers and take a job when their queue is empty, a started
  handler goes on without a new message, whatever it and its pools do first, for at most \<open>handler_load s\<close> steps, can always go on
  until every accepted message that has a handler has been handled and every other one dropped, and stops only then;
  the messages must have a payload. But with the configuration that \<^verbatim>\<open>NewMessageHandler\<close> leaves, all zeros, no job is ever
  given a worker: whatever is accepted, nothing is handled.\<close>
theorem handler_drains:
  assumes "reachable (handler_init sid) (handler_step table room) s"
  shows "(handler_pools table room \<and> mh_started (hs_h s) \<and> list_all (\<lambda>msg. rp_Payload msg \<noteq> None) (hs_accepted s) \<and>
      run (handler_work table room) s ss \<longrightarrow>
      length ss \<le> handler_load s \<and>
      (\<exists>ts. run (handler_work table room) s (ss @ ts) \<and> sorted_out table (hs_accepted s) (last (s # ss @ ts))) \<and>
      ((\<forall>t. \<not> handler_work table room (last (s # ss)) t) \<longrightarrow> sorted_out table (hs_accepted s) (last (s # ss)))) \<and>
    (table = settings (mh_conf (NewMessageHandler sid)) \<longrightarrow> hs_running s = [] \<and> hs_done s = [])"
proof (intro conjI impI)
  assume h: "handler_pools table room \<and> mh_started (hs_h s) \<and> list_all (\<lambda>msg. rp_Payload msg \<noteq> None) (hs_accepted s) \<and>
    run (handler_work table room) s ss"
  then have P: "handler_pools table room" by blast
  then have "handler_inv table s" using handler_pkg.handler_reachable_inv [OF _ assms] by (simp add: handler_pools_def)
  with h have good: "handler_inv table s \<and> list_all (\<lambda>msg. rp_Payload msg \<noteq> None) (hs_accepted s) \<and>
      hs_accepted s = hs_accepted s \<and> mh_started (hs_h s)" by blast
  from h have r: "run (handler_work table room) s ss" by blast
  note drain = handler_pools.handler_runs_drain [OF P good r]
  from drain show "length ss \<le> handler_load s" by blast
  from drain show "\<exists>ts. run (handler_work table room) s (ss @ ts) \<and> sorted_out table (hs_accepted s) (last (s # ss @ ts))" by blast
  assume "\<forall>t. \<not> handler_work table room (last (s # ss)) t"
  with drain show "sorted_out table (hs_accepted s) (last (s # ss))" by blast
next
  assume t: "table = settings (mh_conf (NewMessageHandler sid))"
  have "\<forall>p n f. table p = Some (n, f) \<longrightarrow> n \<le> 0"
    by (auto simp: t settings_def NewMessageHandler_def split: if_splits)
  from no_worker_runs_nothing [OF this assms] show "hs_running s = []" and "hs_done s = []" by blast+
qed

text \<open>A login message goes in, is counted and given to its pool, and is handled.\<close>

definition example_login :: "id20 relay_packet" where
  "example_login = (zero_relay id20_api)\<lparr>rp_Payload := Some (NewMessage PIDLogin 1)\<rparr>"

lemma pid_of_login [simp]: "pid_of example_login = Some PIDLogin"
  by (simp add: pid_of_def example_login_def GetPID_NewMessage)

lemma login_has_payload: "\<exists>m. rp_Payload example_login = Some m"
  by (simp add: example_login_def)

definition login_in_hand :: "id20 \<Rightarrow> id20 handler_sys" where
  "login_in_hand sid = \<lparr>hs_h = (NewMessageHandler sid)\<lparr>mh_started := True, mh_gauge := (\<lambda>_. 0)(PIDLogin := 1)\<rparr>,
     hs_hand = Some example_login, hs_queued = [], hs_running = [], hs_accepted = [example_login], hs_dropped = [], hs_done = []\<rparr>"

lemma login_taken: "reachable (handler_init sid) (handler_step (settings conf) room) (login_in_hand sid)"
proof -
  let ?S = "handler_step (settings conf) room"
  let ?R = "reachable (handler_init sid) ?S"
  let ?start = "(handler_init sid)\<lparr>hs_h := Handler_Start (NewMessageHandler sid)\<rparr>"
  let ?in = "(Handler_Start (NewMessageHandler sid))\<lparr>mh_in := [example_login]\<rparr>"
  let ?h = "(NewMessageHandler sid)\<lparr>mh_started := True, mh_gauge := (\<lambda>_. 0)(PIDLogin := 1)\<rparr>"
  let ?s = "(handler_init sid)\<lparr>hs_h := ?in, hs_accepted := [example_login]\<rparr>"
  have st: "?S (handler_init sid) ?start"
    using start_in [of "handler_init sid" "settings conf" room] by (simp add: handler_init_def NewMessageHandler_def)
  have "?R ?start" using reach_init st by (rule reach_step)
  moreover have "Handler_Send example_login (hs_h ?start) = Some (None, ?in)"
    by (simp add: Handler_Send_def Handler_Start_def NewMessageHandler_def handler_capacity_def)
  from send_in [OF this, of "settings conf" room] have "?S ?start ?s" by (simp add: handler_init_def)
  ultimately have r: "?R ?s" by (rule reach_step)
  have "handle_in (settings conf) example_login ((hs_h ?s)\<lparr>mh_in := []\<rparr>) = Ret (True, ?h)"
    by (auto simp: handle_in_def example_login_def GetPID_NewMessage settings_def NewMessageHandler_def Handler_Start_def cas_def)
  from take_in [OF _ _ _ this, of room] have "?S ?s (?s\<lparr>hs_h := ?h, hs_hand := Some example_login\<rparr>)"
    by (simp add: handler_init_def Handler_Start_def NewMessageHandler_def cas_def)
  from reach_step [OF r this] show ?thesis by (simp add: handler_init_def login_in_hand_def)
qed

lemma handler_accounts_witness:
  "mset [example_login] = mset [] + mset [example_login] + mset [] + mset [] + mset [] \<and>
    ((\<lambda>_. 0)(PIDLogin := 1)) PIDLogin = int (jobs_of PIDLogin [example_login])"
  using handler_accounts [OF handlers.handler_pkg_axioms login_taken, of "id20_of 1"]
  by (simp add: hand_list_def hs_jobs_def login_in_hand_def)

lemma handler_drains_witness:
  "\<exists>s ts. hs_accepted s = [example_login] \<and>
    run (handler_work (settings example_pools) example_room) s ts \<and> hs_done (last (s # ts)) = [example_login] \<and>
    reachable (handler_init (id20_of 1)) (handler_step (settings (mh_conf (NewMessageHandler (id20_of 1)))) example_room) s \<and>
    hs_hand s = Some example_login \<and> hs_done s = []"
proof -
  let ?s = "login_in_hand (id20_of 1)"
  have "list_all (\<lambda>msg. rp_Payload msg \<noteq> None) (hs_accepted ?s)" "mh_started (hs_h ?s)" "hs_accepted ?s = [example_login]"
    "hs_hand ?s = Some example_login"
    using login_has_payload by (auto simp: login_in_hand_def)
  note s = this
  obtain ts where "run (handler_work (settings example_pools) example_room) ?s ts" "sorted_out (settings example_pools) [example_login] (last (?s # ts))"
    using handler_drains [OF login_taken [of "id20_of 1" example_pools example_room], of "[]"] pools.handler_pools_axioms s
    by force
  moreover have "has_handler (settings example_pools) example_login" by (simp add: has_handler_def settings_def)
  moreover have "hs_done ?s = []"
    using handler_drains [OF login_taken [of "id20_of 1" "mh_conf (NewMessageHandler (id20_of 1))" example_room], of "[]"] by blast
  ultimately show ?thesis using s login_taken by (intro exI [of _ ?s] exI [of _ ts]) (simp add: sorted_out_def)
qed

end
