(* ===== verification/LgServer.thy ===== *)
theory LgServer
  imports Handler Proxy NetUtil
begin

text \<open>
  The logic server, \<^verbatim>\<open>server/hub/hub.go\<close>: what it does with the messages its gateways send, with the
  packets it has for a gateway, with a connection it accepts, with the events of its gateways, and
  its lifecycle. The bound of a channel is left to whoever sends: a send that waits is a step that
  has not happened yet.
\<close>

section \<open>State\<close>

record 'k loc_message =
  lm_ServerID :: 'k
  lm_Payload :: "'k relay_packet option"

record lg_config =
  lc_ListenTCP :: string

record 'k lg_server =
  lgs_ID :: 'k
  lgs_conf :: lg_config
  lgs_state :: lifecycle
  lgs_gateways :: "('k, 'k server) gomap option"
  lgs_lgservers :: "('k, 'k server) gomap option"
  lgs_out :: "'k loc_message list"
  lgs_connect :: "'k server list"
  lgs_handler :: "'k message_handler"
  lgs_failed :: nat

text \<open>The id goes to the log and the message handler; the map of logic servers is never made.\<close>

definition NewLgServer :: "'k ksuid_api \<Rightarrow> 'k \<Rightarrow> lg_config \<Rightarrow> 'k lg_server" where
  "NewLgServer K uuid conf =
     \<lparr>lgs_ID = ks_Nil K, lgs_conf = conf, lgs_state = Closed, lgs_gateways = Some [], lgs_lgservers = None,
      lgs_out = [], lgs_connect = [], lgs_handler = NewMessageHandler uuid, lgs_failed = 0\<rparr>"

definition lookup_server :: "'k \<Rightarrow> ('k, 'k server) gomap option \<Rightarrow> 'k server option" where
  "lookup_server sid servers = (case servers of None \<Rightarrow> None | Some m \<Rightarrow> map_of m sid)"

section \<open>Operations\<close>

definition LgServer_Start :: "'k lg_server \<Rightarrow> go_error option \<times> 'k lg_server" where
  "LgServer_Start lg =
     (case cas (lgs_state lg) Closed Started of
        (False, _) \<Rightarrow> (Some ErrLgStarted, lg)
      | (True, st) \<Rightarrow> (None, lg\<lparr>lgs_state := st, lgs_handler := Handler_Start (lgs_handler lg)\<rparr>))"

text \<open>
  \<^verbatim>\<open>readHandler\<close>: the packets it passes to the message handler, and the messages it never takes
  because it has left its loop.
\<close>

fun lg_readHandler :: "'k ksuid_api \<Rightarrow> 'k ServerMessage list \<Rightarrow> 'k relay_packet list \<times> 'k ServerMessage list" where
  "lg_readHandler K [] = ([], [])"
| "lg_readHandler K (msg # msgs) =
     (case RelayPacket_Decode K (zero_relay K) (bytes_buffer (sm_Payload msg)) of
        (Some err, relayMsg, _) \<Rightarrow> ([], msgs)
      | (None, relayMsg, _) \<Rightarrow> (case lg_readHandler K msgs of (pkts, rest) \<Rightarrow> (relayMsg # pkts, rest)))"

text \<open>One message in \<^verbatim>\<open>writeHandler\<close>.\<close>

definition write_gateway :: "'k ksuid_api \<Rightarrow> 'k loc_message \<Rightarrow> 'k lg_server \<Rightarrow> 'k lg_server outcome" where
  "write_gateway K locMessage lg =
     (case lookup_server (lm_ServerID locMessage) (lgs_gateways lg) of
        None \<Rightarrow> Ret lg
      | Some gateway \<Rightarrow>
          (case lm_Payload locMessage of
             None \<Rightarrow> Panic NilDeref
           | Some pkt \<Rightarrow>
               obind (RelayPacket_Encode K pkt new_buffer) (\<lambda>(err, buf).
               if err \<noteq> None then Ret lg
               else obind (Server_Push (wr_out buf) gateway) (\<lambda>(err, gateway').
                 let lg1 = lg\<lparr>lgs_gateways := map_option (AList.update (lm_ServerID locMessage) gateway') (lgs_gateways lg)\<rparr>
                 in Ret (if err \<noteq> None then lg1\<lparr>lgs_failed := Suc (lgs_failed lg1)\<rparr> else lg1)))))"

fun writeHandler :: "'k ksuid_api \<Rightarrow> 'k loc_message list \<Rightarrow> 'k lg_server \<Rightarrow> 'k lg_server outcome" where
  "writeHandler K [] lg = Ret lg"
| "writeHandler K (m # ms) lg = obind (write_gateway K m lg) (writeHandler K ms)"

text \<open>The two cases of \<^verbatim>\<open>gatewayHandler\<close>.\<close>

definition gateway_connected :: "'k server \<Rightarrow> 'k lg_server \<Rightarrow> 'k lg_server outcome" where
  "gateway_connected p lg =
     (case lgs_gateways lg of
        None \<Rightarrow> Panic NilMapWrite
      | Some m \<Rightarrow> Ret (lg\<lparr>lgs_gateways := Some (AList.update (sv_ID p) p m)\<rparr>))"

definition gateway_disconnected :: "'k server \<Rightarrow> 'k lg_server \<Rightarrow> 'k lg_server" where
  "gateway_disconnected p lg = lg\<lparr>lgs_gateways := map_option (AList.delete (sv_ID p)) (lgs_gateways lg)\<rparr>"

text \<open>\<open>order\<close> is the order of the range over the gateways; the closed peers are not kept.\<close>

fun close_servers :: "'k server list \<Rightarrow> unit outcome" where
  "close_servers [] = Ret ()"
| "close_servers (s # ss) = obind (Server_Close s) (\<lambda>_. close_servers ss)"

definition LgServer_Shutdown ::
  "(('k, 'k server) gomap \<Rightarrow> 'k server list) \<Rightarrow> 'k lg_server \<Rightarrow> (go_error option \<times> 'k lg_server) outcome" where
  "LgServer_Shutdown order lg =
     (case cas (lgs_state lg) Started Closing of
        (False, _) \<Rightarrow> Ret (Some ErrLgClosed, lg)
      | (True, st) \<Rightarrow>
          obind (close_servers (case lgs_gateways lg of None \<Rightarrow> [] | Some m \<Rightarrow> order m)) (\<lambda>_.
          let lg1 = lg\<lparr>lgs_state := st, lgs_gateways := None\<rparr>
          in Ret (None, lg1\<lparr>lgs_state := snd (cas (lgs_state lg1) Closing Closed)\<rparr>)))"

text \<open>The callback of the handshake, and one turn of the accepting loop with the connection it got.\<close>

definition OnHandshake :: "'k lg_server \<Rightarrow> 'k HandshakeReq \<Rightarrow> u16 \<times> go_error option" where
  "OnHandshake lg req =
     (if lookup_server (hr_SID req) (lgs_gateways lg) \<noteq> None
      then (CodeHandshakeDuplicatedSID, Some (Errorf ''server existed''))
      else if lookup_server (hr_SID req) (lgs_lgservers lg) \<noteq> None
      then (CodeHandshakeDuplicatedSID, Some (Errorf ''server existed''))
      else (CodeHandshakeOk, None))"

definition accept_conn ::
  "'k ksuid_api \<Rightarrow> string \<Rightarrow> conn \<Rightarrow> 'k lg_server \<Rightarrow> (conn \<times> 'k lg_server) outcome" where
  "accept_conn K addr conn lg =
     (case Upgrade K (OnHandshake lg) conn of
        (_, Some err, conn') \<Rightarrow> Ret (conn_Close conn', lg)
      | (None, None, conn') \<Rightarrow> Panic NilDeref
      | (Some req, None, conn') \<Rightarrow>
          (case Server_Start (Some conn') SideServer ((NewServer (hr_SID req) (hr_Meta req))\<lparr>sv_Addr := addr\<rparr>) of
             (Some err, server) \<Rightarrow> Ret (conn', lg)
           | (None, server) \<Rightarrow> Ret (conn', lg\<lparr>lgs_connect := lgs_connect lg @ [server]\<rparr>)))"

text \<open>
  The accepting loop over what \<^verbatim>\<open>Accept\<close> answers, an error or a connection with its address, and \<^verbatim>\<open>listen\<close>
  around it. \<^verbatim>\<open>Start\<close> drops what it returns.
\<close>

fun lg_accept :: "'k ksuid_api \<Rightarrow> (go_error + string \<times> conn) list \<Rightarrow> 'k lg_server \<Rightarrow> (listen_end \<times> 'k lg_server) outcome" where
  "lg_accept K [] lg = Ret (if lgs_state lg = Started then Accepting else ListenClosed, lg)"
| "lg_accept K (Inl err # conns) lg =
     (if lgs_state lg \<noteq> Started then Ret (ListenClosed, lg) else lg_accept K conns lg)"
| "lg_accept K (Inr (addr, conn) # conns) lg =
     (if lgs_state lg \<noteq> Started then Ret (ListenClosed, lg)
      else obind (accept_conn K addr conn lg) (\<lambda>(_, lg'). lg_accept K conns lg'))"

definition lg_listen ::
  "'k ksuid_api \<Rightarrow> listen_api \<Rightarrow> (go_error + string \<times> conn) list \<Rightarrow> 'k lg_server \<Rightarrow> (listen_end \<times> 'k lg_server) outcome" where
  "lg_listen K L conns lg =
     (case li_TCP L (lc_ListenTCP (lgs_conf lg)) of
        Some err \<Rightarrow> Ret (ListenError err, lg)
      | None \<Rightarrow> lg_accept K conns lg)"

text \<open>\<^verbatim>\<open>gatewayHandler\<close> over the events of its two channels, in the order its \<^verbatim>\<open>select\<close> takes them.\<close>

datatype 'k gateway_event = GatewayConnected "'k server" | GatewayDisconnected "'k server"

fun gatewayHandler :: "'k gateway_event list \<Rightarrow> 'k lg_server \<Rightarrow> 'k lg_server outcome" where
  "gatewayHandler [] lg = Ret lg"
| "gatewayHandler (GatewayConnected p # es) lg = obind (gateway_connected p lg) (gatewayHandler es)"
| "gatewayHandler (GatewayDisconnected p # es) lg = gatewayHandler es (gateway_disconnected p lg)"

text \<open>The dispatcher the message handler calls; it has no body yet.\<close>

definition LgServer_To :: "'k \<Rightarrow> 'k relay_packet \<Rightarrow> 'k lg_server \<Rightarrow> go_error option \<times> 'k lg_server" where
  "LgServer_To gateway pkg lg = (None, lg)"

section \<open>Reading from the gateways\<close>

lemma lg_readHandler_good:
  assumes "ksuid_pkg K" and "relay_ok m x" and "RelayPacket_Bytes K m = Ret b"
  shows "lg_readHandler K (\<lparr>sm_ID = i, sm_Payload = b\<rparr> # msgs) =
    (m # fst (lg_readHandler K msgs), snd (lg_readHandler K msgs))"
proof -
  have "RelayPacket_Decode K (zero_relay K) (bytes_buffer b) = (None, m, bytes_buffer [])"
    using ksuid_pkg.RelayPacket_Decode_ser [OF assms(1,2), of "[]"] assms(2,3)
    by (simp add: RelayPacket_Bytes_ser relay_ok_def)
  then show ?thesis by (simp split: prod.splits)
qed

lemma lg_readHandler_all:
  assumes "ksuid_pkg K" and "list_all2 (\<lambda>m b. (\<exists>x. relay_ok m x) \<and> RelayPacket_Bytes K m = Ret b) pkts bs"
  shows "lg_readHandler K (map (\<lambda>b. \<lparr>sm_ID = i, sm_Payload = b\<rparr>) bs @ msgs) =
    (pkts @ fst (lg_readHandler K msgs), snd (lg_readHandler K msgs))"
  using assms(2)
proof (induction rule: list_all2_induct)
  case (Cons m pkts b bs)
  then obtain x where "relay_ok m x" by blast
  from lg_readHandler_good [OF assms(1) this, of b i] Cons show ?case by (simp del: lg_readHandler.simps(2))
qed simp

text \<open>The logic server hands every packet of its gateways to the message handler, in order; but the first message that does not
  decode ends the goroutine that reads for all gateways, and nothing any gateway sends after it is ever taken.\<close>
theorem lg_reads_until_bad:
  assumes "ksuid_pkg K" and "list_all2 (\<lambda>m b. (\<exists>x. relay_ok m x) \<and> RelayPacket_Bytes K m = Ret b) pkts bs"
    and "decoded K [bad] = []"
  shows "lg_readHandler K (map (\<lambda>b. \<lparr>sm_ID = i, sm_Payload = b\<rparr>) bs) = (pkts, []) \<and>
    lg_readHandler K (map (\<lambda>b. \<lparr>sm_ID = i, sm_Payload = b\<rparr>) bs @ bad # msgs) = (pkts, msgs)"
proof -
  have "lg_readHandler K (bad # msgs) = ([], msgs)"
    using assms(3) by (auto split: prod.splits option.splits)
  with lg_readHandler_all [OF assms(1,2), of i "[]"] lg_readHandler_all [OF assms(1,2), of i "bad # msgs"]
  show ?thesis by simp
qed

lemma lg_reads_until_bad_witness:
  "\<exists>b. RelayPacket_Bytes id20_api example_relay = Ret b \<and>
    lg_readHandler id20_api [\<lparr>sm_ID = id20_of 2, sm_Payload = b\<rparr>, \<lparr>sm_ID = id20_of 3, sm_Payload = [1]\<rparr>,
      \<lparr>sm_ID = id20_of 2, sm_Payload = b\<rparr>] = ([example_relay], [\<lparr>sm_ID = id20_of 2, sm_Payload = b\<rparr>])"
proof -
  obtain b where b: "RelayPacket_Bytes id20_api example_relay = Ret b"
    using example_relay_ok by (auto simp: relay_ok_def RelayPacket_Bytes_ser)
  have "fst (RelayPacket_Decode id20_api (zero_relay id20_api) (bytes_buffer [1])) \<noteq> None"
    by (simp add: RelayPacket_Decode_def DecodeKSUID_def ReadFixedBytes_def read_fixed_buffer id20.len_20)
  then have "decoded id20_api [\<lparr>sm_ID = id20_of 3, sm_Payload = [1]\<rparr>] = []"
    by (auto split: prod.splits option.splits)
  from lg_reads_until_bad [OF id20.ksuid_pkg_axioms _ this, of "[example_relay]" "[b]"] b example_relay_ok
  show ?thesis by auto
qed

section \<open>Writing to the gateways\<close>

definition frames_to :: "'k ksuid_api \<Rightarrow> 'k \<Rightarrow> 'k loc_message list \<Rightarrow> byte list" where
  "frames_to K k ms = concat (map (\<lambda>m. case lm_Payload m of None \<Rightarrow> [] | Some pkt \<Rightarrow>
     (case RelayPacket_Bytes K pkt of Ret b \<Rightarrow> ser_frame (NewFrame OpMessage b) | Panic _ \<Rightarrow> []))
     (filter (\<lambda>m. lm_ServerID m = k) ms))"

definition also_sent :: "byte list \<Rightarrow> 'k server \<Rightarrow> 'k server" where
  "also_sent bs s = s\<lparr>sv_conn := map_option (sent bs) (sv_conn s)\<rparr>"

lemma sent_append: "sent (a @ b) c = sent b (sent a c)"
  by (simp add: sent_def)

lemma also_sent_simps [simp]:
  "also_sent [] s = s" "also_sent b (also_sent a s) = also_sent (a @ b) s" "sv_ID (also_sent a s) = sv_ID s"
  "sv_Side (also_sent a s) = sv_Side s"
  by (cases s; cases "sv_conn s"; simp add: also_sent_def sent_def sent_append)+

lemma running_also_sent: "(\<exists>c. running s c) \<Longrightarrow> \<exists>c. running (also_sent a s) c"
  by (auto simp: running_def also_sent_def conn_writable_def)

lemma Server_Push_also_sent:
  "running s c \<Longrightarrow> Server_Push b s = Ret (None, also_sent (ser_frame (NewFrame OpMessage b)) s)"
  by (simp add: running_def Server_Push_def with_conn_def writeFrame_sent also_sent_def)

lemma write_gateway_ok:
  assumes "lgs_gateways lg = Some m" and "map_of m (lm_ServerID msg) = Some s" and "running s c"
    and "lm_Payload msg = Some pkt" and "RelayPacket_Bytes K pkt = Ret b"
  shows "write_gateway K msg lg =
    Ret (lg\<lparr>lgs_gateways := Some (AList.update (lm_ServerID msg) (also_sent (ser_frame (NewFrame OpMessage b)) s) m)\<rparr>)"
proof -
  obtain p where p: "rp_Payload pkt = Some p" using assms(5) by (cases "rp_Payload pkt") (simp_all add: RelayPacket_Bytes_nil)
  then have "b = ser_head K pkt @ ser_message p" using assms(5) by (simp add: RelayPacket_Bytes_ser)
  moreover have "RelayPacket_Encode K pkt new_buffer = Ret (None, \<lparr>wr_out = ser_head K pkt @ ser_message p, wr_room = None\<rparr>)"
    using p by (simp add: RelayPacket_Encode_Write)
  ultimately show ?thesis
    using assms(1-4) by (simp add: write_gateway_def lookup_server_def Server_Push_also_sent Let_def)
qed

text \<open>C35: The packets a logic server has for its gateways are routed by id and keep their order: each gateway's connection gets exactly the
  frames of the packets addressed to it, one after another, packets for a gateway that is not there are skipped, and
  no write is lost.\<close>
theorem lg_routes_to_gateways:
  assumes "lgs_gateways lg = Some m" and "\<forall>k s. map_of m k = Some s \<longrightarrow> (\<exists>c. running s c)"
    and "list_all (\<lambda>msg. \<exists>pkt p. lm_Payload msg = Some pkt \<and> rp_Payload pkt = Some p) ms"
  shows "\<exists>lg' m'. writeHandler K ms lg = Ret lg' \<and> lgs_gateways lg' = Some m' \<and> lgs_failed lg' = lgs_failed lg \<and>
    (\<forall>k. map_of m' k = map_option (also_sent (frames_to K k ms)) (map_of m k))"
  using assms
proof (induction ms arbitrary: lg m)
  case Nil
  then show ?case by (auto simp: frames_to_def option.map_id0 [unfolded id_def] map_option_idI)
next
  case (Cons msg ms)
  from Cons.prems(3) obtain pkt p where p: "lm_Payload msg = Some pkt" "rp_Payload pkt = Some p" by auto
  then obtain b where b: "RelayPacket_Bytes K pkt = Ret b" by (simp add: RelayPacket_Bytes_ser)
  let ?f = "ser_frame (NewFrame OpMessage b)"
  have F: "frames_to K k (msg # ms) = (if lm_ServerID msg = k then ?f @ frames_to K k ms else frames_to K k ms)" for k
    by (simp add: frames_to_def p b)
  show ?case
  proof (cases "map_of m (lm_ServerID msg)")
    case None
    then have "write_gateway K msg lg = Ret lg" using Cons.prems(1) by (simp add: write_gateway_def lookup_server_def)
    with Cons.IH [OF Cons.prems(1,2)] Cons.prems(3) None F show ?thesis by fastforce
  next
    case (Some s)
    then obtain c where c: "running s c" using Cons.prems(2) by blast
    let ?m = "AList.update (lm_ServerID msg) (also_sent ?f s) m"
    let ?lg = "lg\<lparr>lgs_gateways := Some ?m\<rparr>"
    have w: "write_gateway K msg lg = Ret ?lg" by (rule write_gateway_ok [OF Cons.prems(1) Some c p(1) b])
    have "\<forall>k s'. map_of ?m k = Some s' \<longrightarrow> (\<exists>c. running s' c)"
      using Cons.prems(2) c running_also_sent [of s ?f] by auto
    moreover have "lgs_gateways ?lg = Some ?m" by simp
    moreover have "list_all (\<lambda>msg. \<exists>pkt p. lm_Payload msg = Some pkt \<and> rp_Payload pkt = Some p) ms"
      using Cons.prems(3) by simp
    ultimately obtain lg' m' where "writeHandler K ms ?lg = Ret lg'" "lgs_gateways lg' = Some m'"
      "lgs_failed lg' = lgs_failed ?lg" "\<forall>k. map_of m' k = map_option (also_sent (frames_to K k ms)) (map_of ?m k)"
      using Cons.IH by blast
    with w Some F show ?thesis by (intro exI [of _ lg'] exI [of _ m']) simp
  qed
qed

definition example_lg :: "id20 lg_server" where
  "example_lg = (NewLgServer id20_api (id20_of 9) \<lparr>lc_ListenTCP = '':8100''\<rparr>)
     \<lparr>lgs_state := Started, lgs_gateways := Some [(id20_of 5, example_peer [])]\<rparr>"

lemma example_lg_simps [simp]:
  "lgs_gateways example_lg = Some [(id20_of 5, example_peer [])]" "lgs_state example_lg = Started"
  "lgs_connect example_lg = []" "lgs_lgservers example_lg = None" "sv_ID (example_peer bs) = id20_of 5"
  by (simp_all add: example_lg_def NewLgServer_def example_peer_def NewServer_def)

lemma lg_routes_to_gateways_witness:
  "\<exists>lg'. writeHandler id20_api [\<lparr>lm_ServerID = id20_of 5, lm_Payload = Some example_relay\<rparr>,
      \<lparr>lm_ServerID = id20_of 6, lm_Payload = Some example_relay\<rparr>] example_lg = Ret lg' \<and> lgs_failed lg' = lgs_failed example_lg"
proof -
  have "rp_Payload example_relay = Some \<lparr>msg_Header = Ping, msg_Payload = []\<rparr>" by (simp add: example_relay_def)
  moreover have "\<forall>k s. map_of [(id20_of 5, example_peer [])] k = Some s \<longrightarrow> (\<exists>c. running s c)"
    by (auto intro!: exI [of _ "open_conn []"])
  ultimately show ?thesis
    using lg_routes_to_gateways [OF example_lg_simps(1), of "[\<lparr>lm_ServerID = id20_of 5, lm_Payload = Some example_relay\<rparr>,
      \<lparr>lm_ServerID = id20_of 6, lm_Payload = Some example_relay\<rparr>]" id20_api] by auto
qed

section \<open>Accepting gateways\<close>

lemma accept_conn_req:
  assumes "ksuid_pkg K" and "length meta < 2 ^ 31" and "rd_bytes (cn_in conn) = req_bytes K sid meta @ rest"
    and "\<not> cn_closed conn" and "wr_room (cn_out conn) = None"
  shows "\<exists>conn'. accept_conn K addr conn lg = Ret (conn', lg\<lparr>lgs_connect := lgs_connect lg @
      [\<lparr>sv_ID = sid, sv_Meta = meta, sv_Addr = addr, sv_conn = Some conn', sv_Side = SideServer, sv_state = SStarted,
        sv_onMsg = [], sv_onDisconnect = 0, sv_conf = defServerConf\<rparr>]\<rparr>) \<and>
    wr_out (cn_out conn') = wr_out (cn_out conn) @
      (case OnHandshake lg \<lparr>hr_SID = sid, hr_Meta = meta\<rparr> of (code, validErr) \<Rightarrow> ack_bytes code validErr) \<and>
    rd_bytes (cn_in conn') = rest \<and> \<not> cn_closed conn'"
proof -
  let ?h = "OnHandshake lg \<lparr>hr_SID = sid, hr_Meta = meta\<rparr>"
  obtain code e where h: "?h = (code, e)" by (cases ?h)
  obtain r where u: "Upgrade K (OnHandshake lg) conn = (Some \<lparr>hr_SID = sid, hr_Meta = meta\<rparr>, None,
      send_ack code e (conn\<lparr>cn_in := r\<rparr>))" "rd_bytes r = rest"
    using ksuid_pkg.Upgrade_req [OF assms(1-3), of "OnHandshake lg"] h by auto
  let ?c = "send_ack code e (conn\<lparr>cn_in := r\<rparr>)"
  have "\<not> cn_closed ?c \<and> cn_in ?c = r"
    using assms(4,5) by (simp add: send_ack_Write conn_write_def)
  with u h assms(4,5) show ?thesis
    by (intro exI [of _ ?c]) (simp add: accept_conn_def NewServer_def Server_Start_def send_ack_open Let_def)
qed

text \<open>A second gateway with an id that is connected is told code 303 and is registered all the same: its connection stays open, its
  peer is started and takes the place of the first one in the map; when the first one disconnects, the id is
  removed and the second gateway, still connected, is not found any more.\<close>
theorem duplicate_gateway_registered:
  assumes "ksuid_pkg K" and "length meta < 2 ^ 31" and "rd_bytes (cn_in conn) = req_bytes K sid meta @ rest"
    and "\<not> cn_closed conn" and "wr_room (cn_out conn) = None"
    and "lgs_gateways lg = Some m" and "map_of m sid = Some old" and "sv_ID old = sid"
  shows "\<exists>conn' lg1 new lg2. accept_conn K addr conn lg = Ret (conn', lg1) \<and>
    wr_out (cn_out conn') = wr_out (cn_out conn) @ ack_bytes CodeHandshakeDuplicatedSID (Some (Errorf ''server existed'')) \<and>
    \<not> cn_closed conn' \<and> lgs_connect lg1 = lgs_connect lg @ [new] \<and> sv_state new = SStarted \<and>
    gateway_connected new lg1 = Ret lg2 \<and> lookup_server sid (lgs_gateways lg2) = Some new \<and>
    lookup_server sid (lgs_gateways (gateway_disconnected old lg2)) = None"
proof -
  have "OnHandshake lg \<lparr>hr_SID = sid, hr_Meta = meta\<rparr> = (CodeHandshakeDuplicatedSID, Some (Errorf ''server existed''))"
    using assms(6,7) by (simp add: OnHandshake_def lookup_server_def)
  with accept_conn_req [OF assms(1-5), of addr lg] assms(6-8) show ?thesis
    by (auto simp: gateway_connected_def gateway_disconnected_def lookup_server_def)
qed

lemma duplicate_gateway_registered_witness:
  "\<exists>conn' lg1. accept_conn id20_api ''10.0.0.3:99'' (open_conn (req_bytes id20_api (id20_of 5) [])) example_lg = Ret (conn', lg1) \<and>
    length (lgs_connect lg1) = 1 \<and> wr_out (cn_out conn') = ack_bytes 303 (Some (Errorf ''server existed''))"
  using duplicate_gateway_registered [OF id20.ksuid_pkg_axioms, of "[]" "open_conn (req_bytes id20_api (id20_of 5) [])" "id20_of 5" "[]"
      example_lg "[(id20_of 5, example_peer [])]" "example_peer []" "''10.0.0.3:99''"]
  by auto

section \<open>Lifecycle\<close>

definition lg_stop :: "(('k, 'k server) gomap \<Rightarrow> 'k server list) \<Rightarrow> 'k lg_server \<Rightarrow> go_error option \<times> 'k lg_server" where
  "lg_stop order lg = (case LgServer_Shutdown order lg of Ret r \<Rightarrow> r | Panic _ \<Rightarrow> (None, lg))"

lemma Shutdown_simps:
  "lgs_state lg \<noteq> Started \<Longrightarrow> LgServer_Shutdown order lg = Ret (Some ErrLgClosed, lg)"
  "LgServer_Shutdown order lg = Ret r \<Longrightarrow> lgs_state lg = Started \<Longrightarrow> r = (None, lg\<lparr>lgs_state := Closed, lgs_gateways := None\<rparr>)"
  by (auto simp: LgServer_Shutdown_def obind_eq_Ret Let_def)

interpretation lg_life: guarded_lifecycle lgs_state Closed Started LgServer_Start "lg_stop order"
  "\<lambda>_. True" "\<lambda>lg. \<exists>r. LgServer_Shutdown order lg = Ret r" ErrLgStarted
proof unfold_locales
  fix lg :: "'a lg_server"
  assume "\<exists>r. LgServer_Shutdown order lg = Ret r" and s: "lgs_state lg = Started"
  then obtain r where r: "LgServer_Shutdown order lg = Ret r" by blast
  with Shutdown_simps(2) [OF r s] show "lgs_state (snd (lg_stop order lg)) = Closed" by (simp add: lg_stop_def)
qed (auto simp: LgServer_Start_def lg_stop_def Shutdown_simps)

text \<open>A logic server that was shut down starts again without an error, but its map of gateways is gone: it finds no gateway, and the first
  gateway that connects to it crashes it.\<close>
theorem restarted_lg_panics:
  assumes "LgServer_Shutdown order lg = Ret r" and "lgs_state lg = Started"
  shows "\<exists>lg'. LgServer_Start (snd r) = (None, lg') \<and> lgs_state lg' = Started \<and>
    lookup_server k (lgs_gateways lg') = None \<and> gateway_connected p lg' = Panic NilMapWrite"
proof -
  have r: "r = (None, lg\<lparr>lgs_state := Closed, lgs_gateways := None\<rparr>)" by (rule Shutdown_simps(2) [OF assms])
  then show ?thesis by (simp add: LgServer_Start_def lookup_server_def gateway_connected_def)
qed

lemma restarted_lg_panics_witness:
  "\<exists>r lg'. LgServer_Shutdown (map snd) example_lg = Ret r \<and> LgServer_Start (snd r) = (None, lg') \<and>
    gateway_connected (example_peer []) lg' = Panic NilMapWrite"
proof -
  have "sv_state (example_peer []) = SStarted" "sv_conn (example_peer []) = Some (open_conn [])"
    using running_example [of "[]"] by (simp_all add: running_def)
  then obtain r where "LgServer_Shutdown (map snd) example_lg = Ret r"
    by (auto simp: LgServer_Shutdown_def Server_Close_simps)
  with restarted_lg_panics [OF this] show ?thesis by auto
qed

section \<open>Registered gateways\<close>

text \<open>What the peer at the other end of a connection asks for; the answer of the callback does not change it.\<close>

definition handshake_of :: "'k ksuid_api \<Rightarrow> conn \<Rightarrow> 'k HandshakeReq option" where
  "handshake_of K conn = fst (Upgrade K (\<lambda>_. (CodeHandshakeOk, None)) conn)"

lemma Upgrade_handshake: "fst (Upgrade K f conn) = handshake_of K conn"
  by (simp add: handshake_of_def Upgrade_def split: prod.splits option.splits)

text \<open>The server with the connections it has accepted so far, as they came in, each with its address.\<close>

inductive lg_step ::
  "'k ksuid_api \<Rightarrow> 'k lg_server \<times> (string \<times> conn) list \<Rightarrow> 'k lg_server \<times> (string \<times> conn) list \<Rightarrow> bool" for K :: "'k ksuid_api" where
  lg_accepts: "accept_conn K addr conn lg = Ret (conn', lg') \<Longrightarrow> lg_step K (lg, conns) (lg', conns @ [(addr, conn)])"
| lg_connects: "lgs_connect lg = p # ps \<Longrightarrow> gateway_connected p (lg\<lparr>lgs_connect := ps\<rparr>) = Ret lg' \<Longrightarrow> lg_step K (lg, conns) (lg', conns)"
| lg_disconnects: "lg_step K (lg, conns) (gateway_disconnected p lg, conns)"
| lg_writes: "write_gateway K m lg = Ret lg' \<Longrightarrow> lg_step K (lg, conns) (lg', conns)"
| lg_starts: "LgServer_Start lg = (e, lg') \<Longrightarrow> lg_step K (lg, conns) (lg', conns)"
| lg_shuts_down: "LgServer_Shutdown order lg = Ret (e, lg') \<Longrightarrow> lg_step K (lg, conns) (lg', conns)"

inductive_cases lg_stepE: "lg_step K (lg, conns) t"

text \<open>A gateway is on the server side of an accepted connection, with the id and the meta data of the handshake there.\<close>

definition asked_for :: "'k ksuid_api \<Rightarrow> (string \<times> conn) list \<Rightarrow> 'k server \<Rightarrow> bool" where
  "asked_for K conns s \<longleftrightarrow> sv_Side s = SideServer \<and>
     (\<exists>conn req. (sv_Addr s, conn) \<in> set conns \<and> handshake_of K conn = Some req \<and> sv_ID s = hr_SID req \<and> sv_Meta s = hr_Meta req)"

lemma asked_for_append: "asked_for K conns s \<Longrightarrow> asked_for K (conns @ cs) s"
  by (auto simp: asked_for_def)

definition lg_inv :: "'k ksuid_api \<Rightarrow> 'k lg_server \<times> (string \<times> conn) list \<Rightarrow> bool" where
  "lg_inv K t \<longleftrightarrow> (case t of (lg, conns) \<Rightarrow> list_all (asked_for K conns) (lgs_connect lg) \<and> lgs_lgservers lg = None \<and>
     lgs_state lg \<noteq> Closing \<and>
     (case lgs_gateways lg of None \<Rightarrow> True
      | Some m \<Rightarrow> wf_map m \<and> (\<forall>k s. map_of m k = Some s \<longrightarrow> sv_ID s = k \<and> asked_for K conns s)))"

lemma Server_Push_keeps:
  "Server_Push b s = Ret (e, s') \<Longrightarrow> sv_ID s' = sv_ID s \<and> (asked_for K conns s \<longrightarrow> asked_for K conns s')"
  by (auto simp: asked_for_def Server_Push_def with_conn_def split: if_splits option.splits prod.splits)

lemma lg_inv_write:
  assumes "write_gateway K m lg = Ret lg'" and "lg_inv K (lg, conns)"
  shows "lg_inv K (lg', conns)"
proof (cases "lookup_server (lm_ServerID m) (lgs_gateways lg)")
  case None
  with assms show ?thesis by (simp add: write_gateway_def)
next
  case (Some s)
  then obtain g where g: "lgs_gateways lg = Some g" "map_of g (lm_ServerID m) = Some s"
    by (auto simp: lookup_server_def split: option.splits)
  with assms have "lg' = lg \<or> (\<exists>e s' n. Server_Push n s = Ret (e, s') \<and>
      (\<exists>f. lg' = lg\<lparr>lgs_gateways := Some (AList.update (lm_ServerID m) s' g), lgs_failed := f\<rparr>))"
    using Some by (auto simp: write_gateway_def obind_eq_Ret Let_def split: option.splits if_splits) (metis lg_server.surjective lg_server.update_convs(9))
  with assms(2) g show ?thesis by (auto simp: lg_inv_def dest!: Server_Push_keeps [where K = K and conns = conns])
qed

lemma accept_conn_keeps:
  assumes "accept_conn K addr conn lg = Ret (conn', lg')" and "lg_inv K (lg, conns)"
  shows "lg_inv K (lg', conns @ [(addr, conn)])"
proof -
  have old: "lg_inv K (lg, conns @ [(addr, conn)])"
    using assms(2) by (auto simp: lg_inv_def list_all_iff asked_for_append split: option.splits)
  obtain r e c where u: "Upgrade K (OnHandshake lg) conn = (r, e, c)" by (cases "Upgrade K (OnHandshake lg) conn")
  then have h: "handshake_of K conn = r" by (metis Upgrade_handshake fst_conv)
  show ?thesis
  proof (cases "\<exists>req. r = Some req \<and> e = None")
    case True
    then obtain req where req: "r = Some req" "e = None" by blast
    let ?s = "snd (Server_Start (Some c) SideServer ((NewServer (hr_SID req) (hr_Meta req))\<lparr>sv_Addr := addr\<rparr>))"
    have "asked_for K (conns @ [(addr, conn)]) ?s"
      using h req(1) by (auto simp: asked_for_def NewServer_def Server_Start_def Let_def)
    with assms(1) old u req show ?thesis
      by (auto simp: accept_conn_def lg_inv_def split: prod.splits option.splits)
  next
    case False
    with assms(1) old u show ?thesis by (cases r; cases e) (auto simp: accept_conn_def)
  qed
qed

interpretation lg_system: invariant_system "(NewLgServer K uuid conf, [])" "lg_step K" "lg_inv K"
proof unfold_locales
  show "lg_inv K (NewLgServer K uuid conf, [])" by (simp add: lg_inv_def NewLgServer_def)
next
  fix t t' :: "'a lg_server \<times> (string \<times> conn) list"
  assume inv: "lg_inv K t" and "lg_step K t t'"
  from this(2) show "lg_inv K t'"
  proof cases
    case (lg_accepts addr conn lg conn' lg' conns)
    with accept_conn_keeps inv show ?thesis by blast
  next
    case (lg_connects lg p ps lg' conns)
    with inv show ?thesis by (auto simp: lg_inv_def gateway_connected_def split: option.splits if_splits)
  next
    case (lg_disconnects lg conns p)
    with inv show ?thesis by (auto simp: lg_inv_def gateway_disconnected_def split: option.splits if_splits)
  next
    case (lg_writes m lg lg' conns)
    with inv lg_inv_write show ?thesis by blast
  next
    case (lg_starts lg e lg' conns)
    with inv show ?thesis by (auto simp: lg_inv_def LgServer_Start_def cas_def split: if_splits)
  next
    case (lg_shuts_down order lg e lg' conns)
    with inv show ?thesis by (cases "lgs_state lg = Started") (auto simp: Shutdown_simps lg_inv_def dest!: Shutdown_simps(2))
  qed
qed

text \<open>C36: Whatever connections are accepted, gateways connect and disconnect, packets are written and the server is started and shut down: a
  gateway found under an id is on the server side of a connection that the server accepted from the gateway's address and whose handshake
  asked for exactly this id, with the meta data the gateway has; and the handshake calls an id a duplicate exactly
  when a gateway is stored under it.\<close>
theorem lg_gateways_by_id:
  assumes "reachable (NewLgServer K uuid conf, []) (lg_step K) (lg, conns)"
  shows "(OnHandshake lg \<lparr>hr_SID = k, hr_Meta = meta\<rparr> = (CodeHandshakeOk, None) \<and> lookup_server k (lgs_gateways lg) = None) \<or>
    (fst (OnHandshake lg \<lparr>hr_SID = k, hr_Meta = meta\<rparr>) = CodeHandshakeDuplicatedSID \<and>
     (\<exists>s conn. lookup_server k (lgs_gateways lg) = Some s \<and> sv_ID s = k \<and> sv_Side s = SideServer \<and>
       (sv_Addr s, conn) \<in> set conns \<and> handshake_of K conn = Some \<lparr>hr_SID = k, hr_Meta = sv_Meta s\<rparr>))"
proof -
  have inv: "lg_inv K (lg, conns)" by (rule lg_system.reachable_inv [OF assms])
  show ?thesis
  proof (cases "lookup_server k (lgs_gateways lg)")
    case None
    with inv show ?thesis by (simp add: lg_inv_def OnHandshake_def lookup_server_def)
  next
    case (Some s)
    with inv have "sv_ID s = k" "asked_for K conns s" by (auto simp: lg_inv_def lookup_server_def split: option.splits)
    then obtain conn req where "(sv_Addr s, conn) \<in> set conns" "handshake_of K conn = Some req" "hr_SID req = k" "hr_Meta req = sv_Meta s"
      "sv_Side s = SideServer" by (auto simp: asked_for_def)
    moreover from this have "req = \<lparr>hr_SID = k, hr_Meta = sv_Meta s\<rparr>" by (cases req) simp
    ultimately show ?thesis using Some \<open>sv_ID s = k\<close> by (auto simp: OnHandshake_def)
  qed
qed

lemma lg_gateways_by_id_witness:
  "\<exists>lg conns s conn. reachable (NewLgServer id20_api (id20_of 9) \<lparr>lc_ListenTCP = []\<rparr>, []) (lg_step id20_api) (lg, conns) \<and>
    lookup_server (id20_of 5) (lgs_gateways lg) = Some s \<and> sv_ID s = id20_of 5 \<and>
    (sv_Addr s, conn) \<in> set conns \<and> handshake_of id20_api conn = Some \<lparr>hr_SID = id20_of 5, hr_Meta = sv_Meta s\<rparr> \<and>
    fst (OnHandshake lg \<lparr>hr_SID = id20_of 5, hr_Meta = []\<rparr>) = 303"
proof -
  let ?lg = "NewLgServer id20_api (id20_of 9) \<lparr>lc_ListenTCP = []\<rparr>" and ?conn = "open_conn (req_bytes id20_api (id20_of 5) [])"
  let ?R = "reachable (?lg, []) (lg_step id20_api)"
  obtain conn' p where a: "accept_conn id20_api [] ?conn ?lg = Ret (conn', ?lg\<lparr>lgs_connect := lgs_connect ?lg @ [p]\<rparr>)"
    "sv_ID p = id20_of 5"
    using accept_conn_req [OF id20.ksuid_pkg_axioms, of "[]" ?conn "id20_of 5" "[]" "[]" ?lg] by fastforce
  let ?lg1 = "?lg\<lparr>lgs_connect := [p]\<rparr>"
  have "lg_step id20_api (?lg, []) (?lg1, [([], ?conn)])"
    using lg_accepts [OF a(1), of "[]"] by (simp add: NewLgServer_def)
  with reach_init have "?R (?lg1, [([], ?conn)])" by (rule reach_step)
  moreover have "lg_step id20_api (?lg1, [([], ?conn)]) (?lg\<lparr>lgs_connect := [], lgs_gateways := Some [(id20_of 5, p)]\<rparr>, [([], ?conn)])"
    using a(2) by (intro lg_connects [of _ p "[]"]) (simp_all add: gateway_connected_def NewLgServer_def)
  ultimately have r: "?R (?lg\<lparr>lgs_connect := [], lgs_gateways := Some [(id20_of 5, p)]\<rparr>, [([], ?conn)])"
    by (rule reach_step)
  from lg_gateways_by_id [OF r, of "id20_of 5" "[]"] r show ?thesis
    by (intro exI [of _ "?lg\<lparr>lgs_connect := [], lgs_gateways := Some [(id20_of 5, p)]\<rparr>"] exI [of _ "[([], ?conn)]"] exI [of _ p] exI [of _ ?conn])
       (simp add: lookup_server_def)
qed

end
