(* ===== verification/Programs.thy ===== *)
theory Programs
  imports GatewayServe Upgrader LgServer
begin

text \<open>
  The entry points, \<^verbatim>\<open>gateway/main.go\<close> and \<^verbatim>\<open>server/main.go\<close>: how they read the configuration and put the
  components together. Configuration is the viper package, a parameter, and a random id an argument.
\<close>

record viper_api =
  vp_GetString :: "string \<Rightarrow> string"
  vp_GetBool :: "string \<Rightarrow> bool"

section \<open>The gateway\<close>

text \<open>\<^verbatim>\<open>Id\<close> of each program.\<close>

definition gateway_Id :: "'k ksuid_api \<Rightarrow> viper_api \<Rightarrow> go_error + 'k \<Rightarrow> go_error + 'k" where
  "gateway_Id K V random =
     (if vp_GetString V ''id'' = [] then random
      else case ks_Parse K (vp_GetString V ''id'') of None \<Rightarrow> Inl ErrKsuid | Some i \<Rightarrow> Inr i)"

text \<open>The naming client is a \<^verbatim>\<open>nil\<close> pointer, whose \<^verbatim>\<open>GetServers\<close> does not look at it.\<close>

definition NewNamingClient :: "go_error + unit option" where
  "NewNamingClient = Inr None"

definition gateway_conf :: "viper_api \<Rightarrow> hub_conf" where
  "gateway_conf V = \<lparr>hc_JwtAppkey = vp_GetString V ''appkey'', hc_JwtSecret = vp_GetString V ''secret'',
     hc_Listen = vp_GetString V ''listen'', hc_SSL = vp_GetBool V ''ssl'', hc_MaxConnections = 0\<rparr>"

text \<open>The gateway, its queue and the proxy it is given, as \<^verbatim>\<open>main\<close> leaves them, waiting for a signal. Nothing starts the proxy.\<close>

definition gateway_main :: "'k ksuid_api \<Rightarrow> viper_api \<Rightarrow> go_error + 'k \<Rightarrow> ('k, 's) serving outcome" where
  "gateway_main K V random =
     (case gateway_Id K V random of
        Inl err \<Rightarrow> Panic ExplicitPanic
      | Inr i \<Rightarrow>
          (case NewNamingClient of
             Inl err \<Rightarrow> Panic ExplicitPanic
           | Inr namesrv \<Rightarrow>
               (let proxy = NewLgClusterProxy i None;
                    h = NewGateway K i (gateway_conf V)
                in case Gateway_Start h of
                     (Some err, h') \<Rightarrow> Panic ExplicitPanic
                   | (None, h') \<Rightarrow> Ret (serving_init h' proxy False))))"

section \<open>The logic server\<close>

definition server_Id :: "'k ksuid_api \<Rightarrow> viper_api \<Rightarrow> go_error + 'k \<Rightarrow> go_error + 'k" where
  "server_Id K V random =
     (if vp_GetString V ''id'' = [] then random
      else case ks_Parse K (vp_GetString V ''id'') of None \<Rightarrow> Inl ErrKsuid | Some i \<Rightarrow> Inr i)"

text \<open>\<^verbatim>\<open>Main\<close> drops the error of \<^verbatim>\<open>Start\<close> and returns.\<close>

definition server_main :: "'k ksuid_api \<Rightarrow> viper_api \<Rightarrow> go_error + 'k \<Rightarrow> ('k lg_server \<times> ('k, 's) proxy) outcome" where
  "server_main K V random =
     (case server_Id K V random of
        Inl err \<Rightarrow> Panic ExplicitPanic
      | Inr i \<Rightarrow>
          (case NewNamingClient of
             Inl err \<Rightarrow> Panic ExplicitPanic
           | Inr namesrv \<Rightarrow>
               (let proxy = NewLgClusterProxy i None;
                    lg = NewLgServer K i \<lparr>lc_ListenTCP = vp_GetString V ''listen''\<rparr>
                in Ret (snd (LgServer_Start lg), proxy))))"

section \<open>What the programs can do\<close>

text \<open>Ids given in the configuration are read back; a program with an id that does not parse does not start.\<close>

lemma process_id:
  assumes "ksuid_pkg K"
  shows "ks_String K i \<noteq> [] \<Longrightarrow> vp_GetString V ''id'' = ks_String K i \<Longrightarrow>
      gateway_Id K V random = Inr i \<and> server_Id K V random = Inr i"
    and "gateway_main K V random = Panic p \<longleftrightarrow> p = ExplicitPanic \<and> (\<exists>e. gateway_Id K V random = Inl e)"
  using assms
  by (auto simp: gateway_Id_def server_Id_def gateway_main_def NewNamingClient_def NewGateway_def Gateway_Start_def Let_def
      ksuid_pkg.Parse_String split: sum.splits)


text \<open>A socket that cannot be opened is fatal for a gateway and goes unnoticed by a logic server: the goroutine of the gateway panics,
  or the process exits over a certificate that does not load, while the logic server that its \<^verbatim>\<open>Main\<close> started stays started, accepts
  nothing, and cannot be started again.\<close>
theorem listen_failures:
  assumes "server_main K V random = Ret (lg, px :: ('k, 's) proxy)" and "li_TCP L (vp_GetString V ''listen'') = Some err"
  shows "lg_listen K L conns lg = Ret (ListenError err, lg) \<and> lgs_state lg = Started \<and>
    LgServer_Start lg = (Some ErrLgStarted, lg) \<and>
    (\<forall>g :: 'k gateway. \<forall>U versions bufsize merge gconns.
      (hc_SSL (gw_conf g) \<and> li_LoadX509KeyPair L \<noteq> None \<longrightarrow>
        serve_gateway K L U versions bufsize merge gconns g = Ret (ProcessExit, g)) \<and>
      (\<not> hc_SSL (gw_conf g) \<and> hc_Listen (gw_conf g) = vp_GetString V ''listen'' \<longrightarrow>
        serve_gateway K L U versions bufsize merge gconns g = Panic ExplicitPanic))"
proof -
  have lg: "lgs_state lg = Started" "lgs_conf lg = \<lparr>lc_ListenTCP = vp_GetString V ''listen''\<rparr>"
    using assms(1) by (auto simp: server_main_def NewNamingClient_def NewLgServer_def LgServer_Start_def Let_def split: sum.splits)
  with assms(2) show ?thesis
    by (auto simp: lg_listen_def LgServer_Start_def serve_gateway_def gw_listen_def Let_def)
qed

section \<open>Witnesses\<close>

definition example_viper :: viper_api where
  "example_viper = \<lparr>vp_GetString = (\<lambda>k. if k = ''listen'' then '':8000'' else []), vp_GetBool = (\<lambda>_. False)\<rparr>"


lemma listen_failures_witness:
  "\<exists>lg px. server_main id20_api example_viper (Inr (id20_of 4)) = Ret (lg, px :: (id20, unit) proxy) \<and>
    lg_listen id20_api \<lparr>li_LoadX509KeyPair = None, li_TLS = (\<lambda>_. None), li_TCP = (\<lambda>_. Some ErrIO)\<rparr> [] lg = Ret (ListenError ErrIO, lg) \<and>
    LgServer_Start lg = (Some ErrLgStarted, lg)"
proof -
  obtain lg and px :: "(id20, unit) proxy" where m: "server_main id20_api example_viper (Inr (id20_of 4)) = Ret (lg, px)"
    by (simp add: server_main_def server_Id_def example_viper_def NewNamingClient_def Let_def)
  let ?L = "\<lparr>li_LoadX509KeyPair = None, li_TLS = (\<lambda>_. None), li_TCP = (\<lambda>_. Some ErrIO)\<rparr>"
  from listen_failures [OF m, of ?L ErrIO "[]"] m show ?thesis by simp
qed

end
