(* ===== verification/Spec2Isabelle.thy ===== *)
theory Spec2Isabelle
  imports GatewayServe GatewayStop Threads PeerWrites Heartbeat Programs
begin

text \<open>
  Verification library of the fim instant-messaging system, a Go program of three parts: websocket
  gateways (\<^verbatim>\<open>src/gateway\<close>), logic servers (\<^verbatim>\<open>src/server\<close>), and between them the wire formats
  (\<^verbatim>\<open>src/wire\<close>), the peers (\<^verbatim>\<open>src/peer\<close>) and the cluster of servers a gateway talks to
  (\<^verbatim>\<open>src/lgcluster\<close>). A client's message goes websocket client, gateway, cluster proxy, tcp peer, logic
  server, message handler; a server's message goes the same way down.

  \<^bold>\<open>Theories.\<close>
  \<^item> FimPrelude: Go's integers, errors, panics and compare-and-swap, maps as association lists, and the
    interfaces shared by all parts: \<open>invariant_system\<close> (inductive invariants of a step relation),
    \<open>simulation\<close> (refinement by a function on states), \<open>draining_system\<close> and \<open>computing_system\<close> (runs that
    must end, and whose result is fixed from the start), \<open>guarded_lifecycle\<close> (start and stop by
    compare-and-swap), \<open>bounded_channel\<close> (a send that waits when the channel is full). GoIO: readers that deliver their bytes in any pieces, writers that fail at any point.
    Codec: encoders and decoders as interfaces, for one read on a buffer and for whole streams.
  \<^item> Metrics (the four \<^verbatim>\<open>metrics.go\<close>: collectors, registration, calls) and NetUtil (\<^verbatim>\<open>peer/net.go\<close>,
    \<^verbatim>\<open>peer/unsafe.go\<close>, \<^verbatim>\<open>wire/grpc_helper.go\<close>, and what opening a socket answers).
  \<^item> WireCommon (\<^verbatim>\<open>wire/common.go\<close>), WireMessage and WireEntity (\<^verbatim>\<open>wire/message.go\<close>, \<^verbatim>\<open>entity.pb.go\<close>),
    Ksuid and WireRelay (the packet of \<^verbatim>\<open>wire/message.go\<close> with its ids).
  \<^item> PeerFrame, PeerConn, PeerServer (\<^verbatim>\<open>peer/tcp_peer.go\<close>: frames; handshake and read loop; the peer and
    its lifecycle, alone and interleaved), PeerWrites (the goroutines that write to one peer), PeerSeq (\<^verbatim>\<open>peer/seq.go\<close>, \<^verbatim>\<open>peer/event.go\<close>), WsClient and
    WsSession (\<^verbatim>\<open>peer/ws_client.go\<close> and whole sessions over it), ClientLife (one client under
    concurrent start, reader, pushes and closes), Threads (each thread of the two interleaved systems, run alone, against the
    operation of that name), Heartbeat (deadlines and pings of both).
  \<^item> Cluster and Proxy (\<^verbatim>\<open>lgcluster\<close>, and the stub \<^verbatim>\<open>namesrv/client\<close>).
  \<^item> GatewayQueue, GatewayHub (\<^verbatim>\<open>gateway/wss/hub.go\<close>: the packet queue; the clients and what is done with
    a packet, and what the metrics say of it), GatewayServe (both together, with the proxy's channel the handlers send to and wait for),
    GatewayStop (\<^verbatim>\<open>Shutdown\<close>) and Upgrader (\<^verbatim>\<open>gateway/wss/upgrader.go\<close> and the
    accepting loop).
  \<^item> Handler (\<^verbatim>\<open>server/handler\<close>) and LgServer (\<^verbatim>\<open>server/hub/hub.go\<close>); Programs (\<^verbatim>\<open>gateway/main.go\<close>,
    \<^verbatim>\<open>server/main.go\<close>).

  \<^bold>\<open>How the code is modelled.\<close> A struct is a record with the code's fields (locks and logs left
  out; the calls on the gateway's metrics are kept in order, elsewhere the counters a property speaks of); an operation is a function of the same name on that record,
  prefixed by its type where two have one name. An error is the value of an option, a panic a value
  of \<open>outcome\<close>; a nil pointer or map is \<open>None\<close>. Channels are lists; where their capacity matters a send that
  waits is \<open>None\<close> or a step not yet enabled. Integers keep their width. The order of a range over a map, the
  bytes of a connection and how reads cut them, and what dialing, listening and the configuration give are arguments. Time is an argument too: a frame comes
  with the times at which it is read, and a read after its deadline fails. Goroutines that share state
  are step relations with reachability: the sequence counter, one peer's start, reader and closers, its writers, one client's with its pushers, calls of
  \<^verbatim>\<open>Get\<close>, the proxy's two goroutines while servers come and go, the queue's two goroutines, the gateway's handlers with the channel they send to, the message handler with its pools. What else is sequential in the model is
  owned by one goroutine in the code, or protected by a lock.

  \<^bold>\<open>Third-party code\<close> is a parameter: \<open>ksuid_api\<close> (ids of 20 bytes whose text parses back), \<open>proto_api\<close>
  (\<open>proto_ok\<close>: unmarshalling inverts marshalling), \<open>ws_api\<close> (\<open>ws_pkg\<close>: a header reads back, ciphering twice is
  the identity), the rate limiter (it may panic at a rate), the option merger, the version parser, the goroutine pools (whether a queue of some length takes a job), the websocket upgrader's callbacks and the metrics registry (\<open>metrics_pkg\<close>). The laws
  used are locales, each interpreted on a concrete instance (\<open>id20_api\<close>, \<open>plain_proto\<close>, \<open>plain_ws\<close>, \<open>plain_metrics\<close>) that the
  witnesses run on.

  \<^bold>\<open>What is shown.\<close>
  \<^item> Wire: every format decodes to what was encoded, also from a stream cut anywhere; what decodes is well
    formed and can be encoded again; header fields do not overlap. Two limits: a payload over 65535 bytes
    desynchronises its reader, and a message cut in its payload is accepted.
  \<^item> Links: the handshake agrees, a session delivers everything once and in order, the readers end on every input, one closing sequence per peer and per client, and each thread
    of the interleaved models, alone, does what the operation run as one call does; a
    peer can start without a reader, and a push can meet a client that its reader is taking apart. Concurrent writers leave whole frames
    as long as no write fails. Heartbeats keep a connection if they are late by no more than the bounds say, and only they do;
    reconnections can multiply them.
  \<^item> Cluster and proxy: the id list always matches the servers, the round robin is fair, routing touches
    one server, delivery is exact, and while servers change each packet is routed once, or thrown away and counted if there is no server;
    concurrent \<^verbatim>\<open>Get\<close> can panic.
  \<^item> Gateway: the queue refines a first-in first-out list and drains; handling packets refines a set of sessions; the
    gateway behind its queue is a sequential machine that works off what it accepted or waits at a full channel; the
    client count and its metric are exact but for kick-outs; every request is refused with a status or panics, since the token parser
    is a stub, and nobody is admitted; \<^verbatim>\<open>Shutdown\<close> closes every client once, and leaves goroutines that panic.
  \<^item> Logic server: messages are accounted for and, if the pools have workers, all handled or dropped in the end, while with the
    configuration of the source, which gives them none, nothing is handled; forwarding and routing are exact, gateways are stored under the id their handshake asked for; a
    duplicate gateway is registered all the same, and a message that does not decode stops the reader.
  \<^item> Programs: the metrics of each register; the gateway as \<^verbatim>\<open>main\<close> wires it comes to a standstill; what becomes of a
    socket that does not open.
  \<^item> This theory: a message goes up and down through all parts unchanged (\<open>message_path_up\<close>,
    \<open>message_path_down\<close>).

  \<^bold>\<open>Fuel and termination.\<close> Only the websocket reader has fuel, one unit per frame: \<open>reader_ends\<close> shows that more than the bytes of
  the connection is always enough, \<open>client_session\<close> that one more than the frames is enough for a session.
  Every other loop is structural or has a measure.

  \<^bold>\<open>Not modelled.\<close> Sockets and TLS beyond what their calls answer, a write that blocks (one that times out is a write
  that fails), a payload for which there is no memory, the goroutine pools beyond their workers and queues, the logs, \<^verbatim>\<open>main.go\<close> at the root (it logs a greeting), signals, \<^verbatim>\<open>debugListen\<close> (http, never called),
  generated code beyond the struct fields, and functions whose body is empty (\<^verbatim>\<open>exit\<close>, \<^verbatim>\<open>Close\<close>
  of the handler). NetUtil shows that \<^verbatim>\<open>BytesToString\<close> aliases its bytes; the strings of the other theories are values.
\<close>

section \<open>The links between the components\<close>

text \<open>A proxy whose cluster has one server.\<close>

definition single_server :: "('k, 's) proxy \<Rightarrow> 'k \<Rightarrow> 'k server \<Rightarrow> bool" where
  "single_server px k s \<longleftrightarrow> cs_servers (px_bu px) = [(k, s)] \<and> cs_ids (px_bu px) = [k]"

definition message_frames :: "byte list list \<Rightarrow> byte list" where
  "message_frames bs = concat (map ser_frame (push_frames bs))"

lemma message_frames_simps [simp]:
  "message_frames [] = []" "message_frames (b # bs) = ser_frame (NewFrame OpMessage b) @ message_frames bs"
  by (simp_all add: message_frames_def push_frames_def)

lemma handleClientMessage_single:
  assumes "single_server px k s" and "running s c" and "RelayPacket_Bytes K pkt = Ret b"
  shows "\<exists>px'. handleClientMessage K pkt px = Ret px' \<and>
    single_server px' k (also_sent (ser_frame (NewFrame OpMessage b)) s)"
proof -
  obtain m where m: "rp_Payload pkt = Some m" using assms(3) by (cases "rp_Payload pkt") (simp_all add: RelayPacket_Bytes_nil)
  have "Get (GetPID (msg_Header m)) (px_bu px) = Ret (Some s, (px_bu px)\<lparr>cs_index := 0\<rparr>)"
    using assms(1) by (simp add: single_server_def Get_def Let_def)
  with m assms show ?thesis
    by (simp add: handleClientMessage_def single_server_def Server_Push_also_sent)
qed

lemma drain_single:
  assumes "list_all2 (\<lambda>pkt b. RelayPacket_Bytes K pkt = Ret b) pkts bs" and "single_server px k s" and "\<exists>c. running s c"
  shows "\<exists>px'. drain_in K pkts px = Ret px' \<and> single_server px' k (also_sent (message_frames bs) s)"
  using assms
proof (induction arbitrary: px s rule: list_all2_induct)
  case Nil
  then show ?case by (auto simp: single_server_def)
next
  case (Cons pkt pkts b bs)
  from Cons.prems(2) obtain c where "running s c" by blast
  then obtain px1 where h: "handleClientMessage K pkt px = Ret px1"
    "single_server px1 k (also_sent (ser_frame (NewFrame OpMessage b)) s)"
    using handleClientMessage_single [OF Cons.prems(1) _ Cons.hyps(1)] by blast
  from Cons.IH [OF h(2) running_also_sent [OF Cons.prems(2)]] h(1) show ?case by auto
qed

text \<open>What one peer pushed and the other reads until the connection ends.\<close>

lemma peer_link:
  assumes "running b d" and "sv_onMsg b = []" and "rd_bytes (cn_in d) = message_frames bs" and "list_all fits32 bs"
    and "[] \<notin> set bs"
  shows "\<exists>b'. Server_readHandler b = Ret b' \<and> sv_onMsg b' = map (\<lambda>m. \<lparr>sm_ID = sv_ID b, sm_Payload = m\<rparr>) bs"
proof -
  have p: "list_all loop_frame (push_frames bs)" "payloads (push_frames bs) = bs"
    using loop_frames_push [OF assms(4)] assms(5) by (auto simp: filter_id_conv)
  obtain r where "read_frames d = (bs, ReadError (rd_end (cn_in d)), sent (pongs (push_frames bs)) (d\<lparr>cn_in := r\<rparr>))"
    using read_frames_until_eof [OF p(1), of d] assms(1,3) p(2) by (auto simp: running_def message_frames_def)
  with assms(1,2) show ?thesis by (simp add: Server_readHandler_def running_def reader_exit_simps)
qed

lemma relay_of_bytes:
  assumes "wf_message m" and "length (at_Username a) < 2 ^ 31" and "ksuid_pkg K"
  shows "\<exists>b. RelayPacket_Bytes K (relay_of K loc i a m) = Ret b \<and> fits32 b \<and> b \<noteq> [] \<and> relay_ok (relay_of K loc i a m) m"
proof -
  have l: "length (ks_Bytes K x) = 20" for x using assms(3) by (simp add: ksuid_pkg.length_Bytes ksuid_pkg.len_20)
  have p: "length (msg_Payload m) < 65536" "length (msg_Header m) = 10"
    using assms(1) unsigned_less [of "GetPayloadLen (msg_Header m)", where 'a = nat] by (auto simp: wf_message_def wf_header_def)
  have n: "length (ser_head K (relay_of K loc i a m) @ ser_message m) = 49 + length (at_Username a) + 10 + length (msg_Payload m)"
    by (simp add: ser_head_def ser_prefix_def ser_bytes_def ser_message_def relay_of_def l p)
  then have "fits32 (ser_head K (relay_of K loc i a m) @ ser_message m)"
    using assms(2) p unfolding fits32_def n by simp
  moreover have "ser_head K (relay_of K loc i a m) @ ser_message m \<noteq> []" using n by force
  ultimately show ?thesis using assms(1,2)
    by (simp add: RelayPacket_Bytes_ser relay_of_def relay_ok_def fits32_def)
qed

section \<open>A message goes up\<close>

text \<open>What a client's session puts on the way to the logic servers.\<close>

definition uplink :: "'k ksuid_api \<Rightarrow> 'k \<Rightarrow> 'k \<Rightarrow> client_attrs \<Rightarrow> message list \<Rightarrow> 'k relay_packet list" where
  "uplink K loc uuid a ms =
     map (relay_of K loc uuid a) (filter (\<lambda>m. IsProtocol (GetPID (msg_Header m)) \<and> \<not> is_ping_msg m) ms)"

lemma uplink_bytes:
  assumes "ksuid_pkg K" and "length (at_Username a) < 2 ^ 31" and "list_all wf_message ms"
  shows "\<exists>bs. list_all2 (\<lambda>pkt b. (\<exists>x. relay_ok pkt x) \<and> RelayPacket_Bytes K pkt = Ret b) (uplink K loc uuid a ms) bs \<and>
    list_all fits32 bs \<and> [] \<notin> set bs"
  using assms(3)
proof (induction ms)
  case Nil
  then show ?case by (auto simp: uplink_def)
next
  case (Cons m ms)
  then obtain bs where bs: "list_all2 (\<lambda>pkt b. (\<exists>x. relay_ok pkt x) \<and> RelayPacket_Bytes K pkt = Ret b) (uplink K loc uuid a ms) bs"
    "list_all fits32 bs" "[] \<notin> set bs" by auto
  obtain b where b: "RelayPacket_Bytes K (relay_of K loc uuid a m) = Ret b" "fits32 b" "b \<noteq> []"
    "relay_ok (relay_of K loc uuid a m) m"
    using relay_of_bytes [OF _ assms(2,1), of m] Cons.prems by auto
  show ?case
  proof (cases "IsProtocol (GetPID (msg_Header m)) \<and> \<not> is_ping_msg m")
    case True
    with bs b show ?thesis by (intro exI [of _ "b # bs"]) (auto simp: uplink_def)
  next
    case False
    with bs show ?thesis by (auto simp: uplink_def)
  qed
qed

text \<open>C1: End to end, upwards: the messages a client sends over its websocket, pings and unknown protocols apart, reach the channel of the
  logic server's message handler exactly once each, in order and unchanged, stamped with the client's id, name and device and
  with the gateway they came by: through the client's reader, the gateway, the proxy, the connection to the server, however
  it cuts the bytes, and the server's two readers. This is the path when nothing interferes: the client keeps within its rate
  and closes at the end of its session, the cluster has this one server and is connected to it, every write succeeds
  and no channel is full.\<close>
theorem message_path_up:
  assumes "ksuid_pkg K" and "ws_pkg W head" and "list_all session_frame fs" and "cl_conn p = Some c" and "conn_writable c"
    and "rate_limit bucket p = Some limited" and "cl_state p = Started" and "cl_Attrs p = Some a" and "cl_onMsg p = []"
    and "length key = 4" and "\<And>n. \<not> limited n" and "length fs < fuel" and "length (at_Username a) < 2 ^ 31"
    and "rd_bytes (cn_in c) = concat (map (frame_bytes W head) fs) @ close_frame head key @ rest"
    and "gw_lgProxy g = Some []" and "single_server px k s" and "running s conn" and "wr_out (cn_out conn) = []"
    and "up = uplink K (gw_ID g) (cl_ID p) a (concat (map snd fs))"
  shows "\<exists>p' g' px' conn'. Client_readHandler W bucket fuel p = Some (Ret p') \<and>
    handle_client_messages K (cl_onMsg p') g = Ret g' \<and> gw_lgProxy g' = Some up \<and>
    drain_in K up px = Ret px' \<and> single_server px' k (s\<lparr>sv_conn := Some conn'\<rparr>) \<and>
    (\<forall>b d. running b d \<and> sv_onMsg b = [] \<and> rd_bytes (cn_in d) = wr_out (cn_out conn') \<longrightarrow>
      (\<exists>b'. Server_readHandler b = Ret b' \<and> lg_readHandler K (sv_onMsg b') = (up, [])))"
proof -
  let ?ms = "concat (map snd fs)"
  obtain p' where p': "Client_readHandler W bucket fuel p = Some (Ret p')"
    "cl_onMsg p' = map (\<lambda>m. \<lparr>cm_ID = cl_ID p, cm_Attrs = Some a, cm_Payload = m\<rparr>) (filter (\<lambda>m. \<not> is_ping_msg m) ?ms)"
    using ws_pkg.session_until_close [OF assms(2-5,11,14,10,12,6,7)] assms(8,9) by (auto simp: received_def)
  have up: "up = map (relay_of K (gw_ID g) (cl_ID p) a) (filter (\<lambda>m. IsProtocol (GetPID (msg_Header m))) (filter (\<lambda>m. \<not> is_ping_msg m) ?ms))"
    by (simp add: assms(19) uplink_def conj_commute)
  obtain g' where g': "handle_client_messages K (cl_onMsg p') g = Ret g'" "gw_lgProxy g' = Some up"
    using handle_client_messages_out [OF assms(15)] by (auto simp: p'(2) up)
  have "list_all wf_message ?ms"
    using assms(3) by (auto simp: list_all_iff session_frame_def)
  from uplink_bytes [OF assms(1,13) this] obtain bs where
    bs: "list_all2 (\<lambda>pkt b. (\<exists>x. relay_ok pkt x) \<and> RelayPacket_Bytes K pkt = Ret b) up bs" "list_all fits32 bs" "[] \<notin> set bs"
    unfolding assms(19) by blast
  have "list_all2 (\<lambda>pkt b. RelayPacket_Bytes K pkt = Ret b) up bs"
    by (rule list_all2_mono [OF bs(1)]) blast
  from drain_single [OF this assms(16)] assms(17) obtain px' where
    px': "drain_in K up px = Ret px'" "single_server px' k (also_sent (message_frames bs) s)" by blast
  have s': "also_sent (message_frames bs) s = s\<lparr>sv_conn := Some (sent (message_frames bs) conn)\<rparr>"
    using assms(17) by (simp add: also_sent_def running_def)
  have "\<exists>b'. Server_readHandler b = Ret b' \<and> lg_readHandler K (sv_onMsg b') = (up, [])"
    if "running b d" "sv_onMsg b = []" "rd_bytes (cn_in d) = wr_out (cn_out (sent (message_frames bs) conn))" for b d
  proof -
    have "rd_bytes (cn_in d) = message_frames bs" using that(3) assms(18) by (simp add: sent_def)
    from peer_link [OF that(1,2) this bs(2,3)] lg_readHandler_all [OF assms(1) bs(1), of "sv_ID b" "[]"] show ?thesis by auto
  qed
  then show ?thesis using p'(1) g' px' unfolding s' by blast
qed

definition example_proxy :: "(id20, id20 gateway) proxy" where
  "example_proxy = (NewLgClusterProxy (id20_of 9) None)
     \<lparr>px_bu := (newCluster (id20_of 9))\<lparr>cs_servers := [(id20_of 5, example_peer [])], cs_ids := [id20_of 5]\<rparr>\<rparr>"

lemma example_proxy_single: "single_server example_proxy (id20_of 5) (example_peer [])"
  by (simp add: single_server_def example_proxy_def)

lemma message_path_up_witness:
  "\<exists>px' conn'. drain_in id20_api (uplink id20_api (gw_ID example_gateway) (id20_of 1) example_attrs
      (concat (map snd example_session))) example_proxy = Ret px' \<and>
    single_server px' (id20_of 5) ((example_peer [])\<lparr>sv_conn := Some conn'\<rparr>) \<and>
    (\<forall>b d. running b d \<and> sv_onMsg b = [] \<and> rd_bytes (cn_in d) = wr_out (cn_out conn') \<longrightarrow>
      (\<exists>b'. Server_readHandler b = Ret b' \<and> map (\<lambda>pkt. map_option (\<lambda>m. GetSequence (msg_Header m)) (rp_Payload pkt))
        (fst (lg_readHandler id20_api (sv_onMsg b'))) = [Some 2, Some 3]))"
proof -
  let ?bs = "concat (map (frame_bytes plain_ws plain_head) example_session) @ close_frame plain_head [0, 0, 0, 0]"
  let ?up = "uplink id20_api (gw_ID example_gateway) (id20_of 1) example_attrs (concat (map snd example_session))"
  have "map (\<lambda>pkt. map_option (\<lambda>m. GetSequence (msg_Header m)) (rp_Payload pkt)) ?up = [Some 2, Some 3]"
    by (simp add: uplink_def example_session_def is_ping_msg_def relay_of_def IsProtocol_iff)
  moreover have "\<exists>p' g' px' conn'. Client_readHandler plain_ws (\<lambda>_. Some (\<lambda>_. False)) 10 (example_client ?bs) = Some (Ret p') \<and>
    handle_client_messages id20_api (cl_onMsg p') example_gateway = Ret g' \<and> gw_lgProxy g' = Some ?up \<and>
    drain_in id20_api ?up example_proxy = Ret px' \<and> single_server px' (id20_of 5) ((example_peer [])\<lparr>sv_conn := Some conn'\<rparr>) \<and>
    (\<forall>b d. running b d \<and> sv_onMsg b = [] \<and> rd_bytes (cn_in d) = wr_out (cn_out conn') \<longrightarrow>
      (\<exists>b'. Server_readHandler b = Ret b' \<and> lg_readHandler id20_api (sv_onMsg b') = (?up, [])))"
    by (rule message_path_up [OF id20.ksuid_pkg_axioms plain.ws_pkg_axioms example_session_ok example_client_simps(1) conn_writable_open
        _ example_client_simps(3,6,4), where rest = "[]" and limited = "\<lambda>_. False" and key = "[0, 0, 0, 0]" and conn = "open_conn []"])
       (simp_all add: example_session_def example_attrs_def example_proxy_single)
  ultimately show ?thesis by (metis fst_conv)
qed

section \<open>A message goes down\<close>

text \<open>C2: End to end, downwards: a packet the logic server has for a gateway is pushed to every receiver that is connected to that
  gateway and to no other client: through the server's writer, the connection, however it cuts the bytes, the proxy with the
  gateway as its receiver, the gateway's queue and its handler; each receiver's websocket gets the
  message's bytes as one binary frame.\<close>
theorem message_path_down:
  fixes px :: "('k, 'k gateway) proxy"
  assumes "ksuid_pkg K" and "relay_ok pkt msg" and "RelayPacket_Bytes K pkt = Ret bytes" and "fits32 bytes"
    and "lgs_gateways lg = Some gm" and "map_of gm sid = Some gw" and "running gw c" and "wr_out (cn_out c) = []"
    and "gw_relayIn g = []" and "gw_clients g = Some m" and "keyed m" and "gw_lgProxy g = Some out" and "distinct (rp_Receivers pkt)"
    and "GetPID (msg_Header msg) \<noteq> PIDKickOut"
    and "\<forall>r\<in>set (rp_Receivers pkt). \<forall>cl. map_of m r = Some cl \<longrightarrow> client_running cl"
  shows "\<exists>lg' gw' c'. writeHandler K [\<lparr>lm_ServerID = sid, lm_Payload = Some pkt\<rparr>] lg = Ret lg' \<and>
    lookup_server sid (lgs_gateways lg') = Some gw' \<and> sv_conn gw' = Some c' \<and>
    (\<forall>b d. running b d \<and> sv_onMsg b = [] \<and> rd_bytes (cn_in d) = wr_out (cn_out c') \<longrightarrow>
      (\<exists>b' g1 g2. Server_readHandler b = Ret b' \<and>
        handleLogicServerMsg K (SetReceiver (Some (\<lambda>pkt g. snd (Receive pkt g))) px) (sv_onMsg b') g = Ret g1 \<and>
        gw_enqueue (handleSeverEvents g1) = gw_enqueue g @ [useForMsgRelay pkt] \<and>
        handle_packet K W P (useForMsgRelay pkt) (handleSeverEvents g1) = Ret g2 \<and>
        (\<forall>k. lookup_client k g2 = (if k \<in> set (rp_Receivers pkt)
           then map_option (pushed W (Message_Bytes msg)) (map_of m k) else map_of m k))))"
proof -
  let ?lm = "\<lparr>lm_ServerID = sid, lm_Payload = Some pkt\<rparr>" and ?f = "ser_frame (NewFrame OpMessage bytes)"
  let ?lg = "lg\<lparr>lgs_gateways := Some (AList.update sid (also_sent ?f gw) gm)\<rparr>"
  have w: "writeHandler K [?lm] lg = Ret ?lg"
    using write_gateway_ok [OF assms(5), of ?lm gw c pkt K bytes] assms(3,6,7) by simp
  have p: "rp_Payload pkt = Some msg" using assms(2) by (simp add: relay_ok_def)
  then have b: "bytes = ser_head K pkt @ ser_message msg" using assms(3) by (simp add: RelayPacket_Bytes_ser)
  have ne: "bytes \<noteq> []" using assms(2) by (auto simp: b ser_message_def relay_ok_def wf_message_def wf_header_def)
  have dec: "decoded K [\<lparr>sm_ID = i, sm_Payload = bytes\<rparr>] = [pkt]" for i
    using ksuid_pkg.RelayPacket_Decode_ser [OF assms(1,2), of "[]"] by (simp add: b)
  have down: "\<exists>b' g1 g2. Server_readHandler b = Ret b' \<and>
        handleLogicServerMsg K (SetReceiver (Some (\<lambda>pkt g. snd (Receive pkt g))) px) (sv_onMsg b') g = Ret g1 \<and>
        gw_enqueue (handleSeverEvents g1) = gw_enqueue g @ [useForMsgRelay pkt] \<and>
        handle_packet K W P (useForMsgRelay pkt) (handleSeverEvents g1) = Ret g2 \<and>
        (\<forall>k. lookup_client k g2 = (if k \<in> set (rp_Receivers pkt)
           then map_option (pushed W (Message_Bytes msg)) (map_of m k) else map_of m k))"
    if "running b d" "sv_onMsg b = []" "rd_bytes (cn_in d) = wr_out (cn_out (sent ?f c))" for b d
  proof -
    have "rd_bytes (cn_in d) = message_frames [bytes]" using that(3) assms(8) by (simp add: sent_def)
    from peer_link [OF that(1,2) this] assms(4) ne obtain b' where
      b': "Server_readHandler b = Ret b'" "sv_onMsg b' = [\<lparr>sm_ID = sv_ID b, sm_Payload = bytes\<rparr>]" by auto
    let ?r = "snd (Receive pkt g)"
    let ?g = "handleSeverEvents ?r"
    have g: "?g = handle_server_event pkt g"
      using assms(9) by (cases g) (simp add: handleSeverEvents_def Receive_def handle_server_event_def)
    have "handleLogicServerMsg K (SetReceiver (Some (\<lambda>pkt g. snd (Receive pkt g))) px) (sv_onMsg b') g = Ret ?r"
      by (subst handleLogicServerMsg_fold [where f = "\<lambda>pkt g. snd (Receive pkt g)"])
         (simp_all add: SetReceiver_def b'(2) dec del: decoded.simps)
    moreover have "gw_clients ?g = Some m" "gw_lgProxy ?g = Some out" using assms(10,12) by (simp_all add: g handle_server_event_def)
    then obtain g2 where "handle_packet K W P (useForMsgRelay pkt) ?g = Ret g2"
      "\<forall>k. lookup_client k g2 = (if k \<in> set (rp_Receivers pkt)
        then map_option (pushed W (Message_Bytes msg)) (map_of m k) else map_of m k)"
      using relayed_to_receivers [OF _ assms(11) _ assms(13) p assms(14,15), of ?g out K W P]
      by (auto simp: handle_packet_def)
    ultimately show ?thesis using b'(1)
      by (intro exI [of _ b'] exI [of _ ?r] exI [of _ g2]) (simp add: g handle_server_event_def)
  qed
  have "lookup_server sid (lgs_gateways ?lg) = Some (also_sent ?f gw)" "sv_conn (also_sent ?f gw) = Some (sent ?f c)"
    using assms(7) by (simp_all add: lookup_server_def also_sent_def running_def)
  with w down show ?thesis by blast
qed

definition example_push :: "id20 relay_packet" where
  "example_push = (zero_relay id20_api)\<lparr>rp_Receivers := [id20_of 1, id20_of 2], rp_Payload := Some (NewMessage PIDChatPush 3)\<rparr>"

lemma message_path_down_witness:
  "\<exists>lg' gw' c'. writeHandler id20_api [\<lparr>lm_ServerID = id20_of 5, lm_Payload = Some example_push\<rparr>] example_lg = Ret lg' \<and>
    lookup_server (id20_of 5) (lgs_gateways lg') = Some gw' \<and> sv_conn gw' = Some c' \<and>
    (\<forall>b d. running b d \<and> sv_onMsg b = [] \<and> rd_bytes (cn_in d) = wr_out (cn_out c') \<longrightarrow>
      (\<exists>b' g1 g2. Server_readHandler b = Ret b' \<and>
        handleLogicServerMsg id20_api (SetReceiver (Some (\<lambda>pkt g. snd (Receive pkt g))) example_proxy) (sv_onMsg b') example_gateway = Ret g1 \<and>
        gw_enqueue (handleSeverEvents g1) = gw_enqueue example_gateway @ [useForMsgRelay example_push] \<and>
        handle_packet id20_api plain_ws plain_proto (useForMsgRelay example_push) (handleSeverEvents g1) = Ret g2 \<and>
        (\<forall>k. lookup_client k g2 = (if k \<in> set (rp_Receivers example_push)
           then map_option (pushed plain_ws (Message_Bytes (NewMessage PIDChatPush 3))) (map_of [(id20_of 1, example_client [])] k)
           else map_of [(id20_of 1, example_client [])] k))))"
proof -
  let ?m = "NewMessage PIDChatPush 3"
  have wf: "wf_message ?m" using NewMessage_fields(3,4) [of PIDChatPush 3] by (simp add: wf_message_def)
  have ok: "relay_ok example_push ?m"
    using wf by (simp add: relay_ok_def example_push_def zero_relay_def fits32_def)
  have b: "RelayPacket_Bytes id20_api example_push = Ret (ser_head id20_api example_push @ ser_message ?m)"
    by (rule RelayPacket_Bytes_ser) (simp add: example_push_def)
  have "length (ser_head id20_api example_push @ ser_message ?m) = 99"
    by (simp add: ser_head_def ser_prefix_def ser_bytes_def example_push_def zero_relay_def id20_api_def)
  then have f: "fits32 (ser_head id20_api example_push @ ser_message ?m)" by (simp add: fits32_def del: length_append)
  have "lgs_gateways example_lg = Some [(id20_of 5, example_peer [])]" "map_of [(id20_of 5, example_peer [])] (id20_of 5) = Some (example_peer [])"
    "wr_out (cn_out (open_conn [])) = []" by simp_all
  note lg = this
  have r: "distinct (rp_Receivers example_push)" "GetPID (msg_Header ?m) \<noteq> PIDKickOut"
    "\<forall>r\<in>set (rp_Receivers example_push). \<forall>cl. map_of [(id20_of 1, example_client [])] r = Some cl \<longrightarrow> client_running cl"
    by (simp_all add: example_push_def GetPID_NewMessage)
  show ?thesis
    by (rule message_path_down [OF id20.ksuid_pkg_axioms ok b f lg(1,2) running_example lg(3) example_gateway_simps(6,1,4,2) r])
qed

end
